(* ===== verification/Prelude.thy ===== *)
theory Prelude
  imports Main "HOL-Library.Char_ord" "HOL-Library.List_Lexorder" "HOL-Library.AList"
    "HOL-Library.Sublist"
begin

text \<open>
  The vocabulary shared by every component: Go's byte strings and the functions of
  package \<^verbatim>\<open>strings\<close> and \<^verbatim>\<open>strconv\<close> that the sources call, 64-bit integers and
  durations with their wrap-around, instants, and Go maps as association lists with
  distinct keys (the list order stands for Go's unspecified iteration order).

  Case mapping is modelled on the ASCII range, which is what field names, directives,
  schemes and host names are made of; other bytes are left as they are.
\<close>

named_theorems go_simps \<open>rewrite rules for the modelled library functions\<close>
named_theorems go_map_simps \<open>what an update, a deletion and a lookup do to a Go map\<close>

subsection \<open>Integers, durations and instants\<close>

text \<open>
  An instant is its distance in nanoseconds from Go's zero \<^verbatim>\<open>time.Time\<close>, so
  \<^verbatim>\<open>IsZero\<close> is equality with 0. A duration is an \<^verbatim>\<open>int64\<close> of nanoseconds.
\<close>

type_synonym time = int
type_synonym duration = int

definition wrap64 :: "int \<Rightarrow> int" where
  "wrap64 x = (x + 2 ^ 63) mod 2 ^ 64 - 2 ^ 63"

definition int64 :: "int \<Rightarrow> bool" where
  "int64 x \<longleftrightarrow> - (2 ^ 63) \<le> x \<and> x < 2 ^ 63"

definition isZero :: "time \<Rightarrow> bool" where
  "isZero t \<longleftrightarrow> t = 0"

definition time_sub :: "time \<Rightarrow> time \<Rightarrow> duration" where
  \<comment> \<open>\<open>t.Sub(u)\<close> saturates\<close>
  "time_sub t u = max (- (2 ^ 63)) (min (2 ^ 63 - 1) (t - u))"

definition quot64 :: "int \<Rightarrow> int \<Rightarrow> int" where
  \<comment> \<open>Go's integer division truncates towards zero\<close>
  "quot64 a b = sgn a * sgn b * (\<bar>a\<bar> div \<bar>b\<bar>)"

abbreviation (input) nanosecond :: duration where "nanosecond \<equiv> 1"
abbreviation (input) second :: duration where "second \<equiv> 1000000000"
abbreviation (input) hour :: duration where "hour \<equiv> 3600000000000"

lemma wrap64_int64 [simp]: "int64 (wrap64 x)"
proof -
  have "0 \<le> (x + 2 ^ 63) mod 2 ^ 64" and "(x + 2 ^ 63) mod 2 ^ 64 < (2::int) ^ 64"
    by (rule pos_mod_sign, simp) (rule pos_mod_bound, simp)
  then show ?thesis by (simp add: int64_def wrap64_def)
qed

lemma wrap64_id [simp]: "int64 x \<Longrightarrow> wrap64 x = x"
  by (simp add: int64_def wrap64_def mod_pos_pos_trivial)

lemma time_sub_int64 [simp]: "int64 (time_sub t u)"
  by (simp add: time_sub_def int64_def)

lemma time_sub_exact: "int64 (t - u) \<Longrightarrow> time_sub t u = t - u"
  by (simp add: time_sub_def int64_def)

lemma time_sub_pos_iff: "0 < time_sub t u \<longleftrightarrow> u < t"
  by (auto simp: time_sub_def)

lemma time_sub_mono: "t \<le> t' \<Longrightarrow> time_sub t u \<le> time_sub t' u"
  by (auto simp: time_sub_def max_def min_def)

subsection \<open>Strings\<close>

abbreviation code :: "char \<Rightarrow> int" where
  "code c \<equiv> of_char c"

definition lower_char :: "char \<Rightarrow> char" where
  "lower_char c = (if 65 \<le> code c \<and> code c \<le> 90 then char_of (code c + 32) else c)"

definition upper_char :: "char \<Rightarrow> char" where
  "upper_char c = (if 97 \<le> code c \<and> code c \<le> 122 then char_of (code c - 32) else c)"

definition ToLower :: "string \<Rightarrow> string" where
  "ToLower s = map lower_char s"

definition EqualFold :: "string \<Rightarrow> string \<Rightarrow> bool" where
  "EqualFold s t \<longleftrightarrow> ToLower s = ToLower t"

fun Split :: "char \<Rightarrow> string \<Rightarrow> string list" where
  "Split c [] = [[]]"
| "Split c (x # xs) =
     (if x = c then [] # Split c xs
      else (case Split c xs of [] \<Rightarrow> [[x]] | y # ys \<Rightarrow> (x # y) # ys))"

fun Join :: "string list \<Rightarrow> string \<Rightarrow> string" where
  "Join [] sep = []"
| "Join [x] sep = x"
| "Join (x # y # ys) sep = x @ sep @ Join (y # ys) sep"

definition is_space :: "char \<Rightarrow> bool" where
  "is_space c \<longleftrightarrow> c \<in> {CHR '' '', CHR 0x09, CHR 0x0A, CHR 0x0B, CHR 0x0C, CHR 0x0D}"

definition is_blank :: "char \<Rightarrow> bool" where
  "is_blank c \<longleftrightarrow> c = CHR '' '' \<or> c = CHR 0x09"

definition ascii_space :: "char \<Rightarrow> bool" where
  \<comment> \<open>the spaces of \<^verbatim>\<open>textproto.TrimString\<close>\<close>
  "ascii_space c \<longleftrightarrow> c \<in> {CHR '' '', CHR 0x09, CHR 0x0A, CHR 0x0D}"

definition trim_by :: "(char \<Rightarrow> bool) \<Rightarrow> string \<Rightarrow> string" where
  "trim_by P s = rev (dropWhile P (rev (dropWhile P s)))"

definition TrimSpace :: "string \<Rightarrow> string" where
  "TrimSpace s = trim_by is_space s"

definition is_digit :: "char \<Rightarrow> bool" where
  "is_digit c \<longleftrightarrow> 48 \<le> code c \<and> code c \<le> 57"

definition digit_val :: "char \<Rightarrow> int" where
  "digit_val c = code c - 48"

definition digits_val :: "string \<Rightarrow> int" where
  "digits_val s = foldl (\<lambda>n c. n * 10 + digit_val c) 0 s"

definition ParseInt :: "string \<Rightarrow> int option" where
  \<comment> \<open>\<open>strconv.ParseInt(s, 10, 64)\<close> and, on 64-bit platforms, \<open>strconv.Atoi(s)\<close>\<close>
  "ParseInt s =
     (let neg = (s \<noteq> [] \<and> hd s = CHR ''-'');
          ds = (if s \<noteq> [] \<and> (hd s = CHR ''-'' \<or> hd s = CHR ''+'') then tl s else s)
      in if ds = [] \<or> \<not> list_all is_digit ds then None
         else let n = digits_val ds
              in if neg then (if n \<le> 2 ^ 63 then Some (- n) else None)
                 else (if n < 2 ^ 63 then Some n else None))"

function decimal :: "int \<Rightarrow> string" where
  "decimal n = (if n < 10 then [char_of (n + 48)] else decimal (n div 10) @ [char_of (n mod 10 + 48)])"
  by pat_completeness auto
termination
  by (relation "measure nat") auto

declare decimal.simps [simp del]

definition Itoa :: "int \<Rightarrow> string" where
  "Itoa i = (if i < 0 then CHR ''-'' # decimal (- i) else decimal i)"

subsection \<open>Character codes\<close>

lemma code_range [simp]: "0 \<le> code c" "code c < 256"
proof -
  have "code c = int (of_char c)" by (rule of_nat_of_char [symmetric])
  then show "0 \<le> code c" "code c < 256"
    using nat_of_char_less_256 [of c] by simp_all
qed

lemma code_char_of [simp]: "0 \<le> n \<Longrightarrow> n < 256 \<Longrightarrow> code (char_of n) = n"
  by simp

lemma char_code_eq: "c = d \<longleftrightarrow> code c = code d"
  by simp

lemma code_lower_char: "code (lower_char c) = (if 65 \<le> code c \<and> code c \<le> 90 then code c + 32 else code c)"
  by (simp add: lower_char_def)

lemma code_upper_char: "code (upper_char c) = (if 97 \<le> code c \<and> code c \<le> 122 then code c - 32 else code c)"
  by (simp add: upper_char_def)

lemmas char_codes = code_lower_char code_upper_char

lemma lower_upper_char [simp]: "lower_char (upper_char c) = lower_char c"
  and upper_lower_char [simp]: "upper_char (lower_char c) = upper_char c"
  and upper_char_idem [simp]: "upper_char (upper_char c) = upper_char c"
  and lower_char_idem [simp]: "lower_char (lower_char c) = lower_char c"
  by (auto simp only: char_code_eq char_codes split: if_splits)

subsection \<open>Case folding\<close>

lemma ToLower_idem [simp]: "ToLower (ToLower s) = ToLower s"
  by (simp add: ToLower_def)

lemma ToLower_Nil [simp]: "ToLower [] = []" and ToLower_eq_Nil [simp]: "ToLower s = [] \<longleftrightarrow> s = []"
  by (simp_all add: ToLower_def)

lemma EqualFold_refl [simp, intro]: "EqualFold s s"
  by (simp add: EqualFold_def)

lemma EqualFold_sym: "EqualFold s t \<Longrightarrow> EqualFold t s"
  by (simp add: EqualFold_def)

lemma EqualFold_trans: "EqualFold s t \<Longrightarrow> EqualFold t u \<Longrightarrow> EqualFold s u"
  by (simp add: EqualFold_def)

lemma EqualFold_ToLower [simp]: "EqualFold (ToLower s) t \<longleftrightarrow> EqualFold s t"
  "EqualFold s (ToLower t) \<longleftrightarrow> EqualFold s t"
  by (simp_all add: EqualFold_def)

subsection \<open>Splitting, joining and trimming\<close>

lemma Split_nonempty [simp]: "Split c s \<noteq> []"
  by (induction s) (auto split: list.splits)

lemma Join_Split [simp]: "Join (Split c s) [c] = s"
proof (induction s)
  case Nil
  then show ?case by simp
next
  case (Cons x xs)
  obtain y ys where y: "Split c xs = y # ys"
    by (cases "Split c xs") auto
  show ?case
    using Cons.IH y by (cases ys) auto
qed

lemma Split_no_sep: "c \<notin> set s \<Longrightarrow> Split c s = [s]"
  by (induction s) auto

lemma Split_append_sep: "c \<notin> set s \<Longrightarrow> Split c (s @ c # t) = s # Split c t"
  by (induction s) auto

lemma trim_by_Nil [simp]: "trim_by P [] = []"
  by (simp add: trim_by_def)

lemma trim_by_id:
  assumes "s = [] \<or> (\<not> P (hd s) \<and> \<not> P (last s))"
  shows "trim_by P s = s"
proof (cases s rule: rev_cases)
  case Nil
  then show ?thesis by simp
next
  case (snoc t x)
  with assms have x: "\<not> P x" and "\<not> P (hd s)" by auto
  then have "dropWhile P s = s"
    by (metis dropWhile.simps(1) dropWhile_eq_self_iff)
  then show ?thesis
    using snoc x by (simp add: trim_by_def)
qed

lemma set_trim_by: "set (trim_by P s) \<subseteq> set s"
  by (auto simp: trim_by_def dest!: set_dropWhileD)

subsection \<open>Decimal numbers\<close>

lemma digit_val_char [simp]: "0 \<le> n \<Longrightarrow> n < 10 \<Longrightarrow> digit_val (char_of (n + 48)) = n"
  by (simp add: digit_val_def)

lemma is_digit_char [simp]: "0 \<le> n \<Longrightarrow> n < 10 \<Longrightarrow> is_digit (char_of (n + 48 :: int))"
  by (simp add: is_digit_def)

lemma digits_val_Nil [simp]: "digits_val [] = 0"
  by (simp add: digits_val_def)

lemma digits_val_snoc [simp]: "digits_val (s @ [c]) = digits_val s * 10 + digit_val c"
  by (simp add: digits_val_def)

lemma decimal_digits: "0 \<le> n \<Longrightarrow> decimal n \<noteq> [] \<and> list_all is_digit (decimal n) \<and> digits_val (decimal n) = n"
proof (induction n rule: decimal.induct)
  case (1 n)
  show ?case
  proof (cases "n < 10")
    case True
    with 1 show ?thesis
      by (simp add: decimal.simps [of n] digits_val_def)
  next
    case False
    with 1 have "digits_val (decimal n) = n div 10 * 10 + n mod 10"
      by (simp add: decimal.simps [of n])
    with 1 False show ?thesis
      by (simp add: decimal.simps [of n])
  qed
qed

lemma is_digit_not_sign: "is_digit c \<Longrightarrow> c \<noteq> CHR ''-'' \<and> c \<noteq> CHR ''+''"
  by (auto simp: is_digit_def)

lemma decimal_hd: "0 \<le> n \<Longrightarrow> is_digit (hd (decimal n))"
  using decimal_digits [of n] by (cases "decimal n") auto

lemma ParseInt_Itoa: "int64 i \<Longrightarrow> ParseInt (Itoa i) = Some i"
  using decimal_digits [of i] decimal_digits [of "- i"] decimal_hd [of i]
  by (auto simp: ParseInt_def Itoa_def Let_def int64_def dest: is_digit_not_sign)

lemma digits_val_nonneg: "list_all is_digit s \<Longrightarrow> 0 \<le> digits_val s"
  by (induction s rule: rev_induct) (auto simp: digit_val_def is_digit_def)

lemma ParseInt_int64:
  assumes "ParseInt s = Some i"
  shows "int64 i"
proof -
  define ds where "ds = (if s \<noteq> [] \<and> (hd s = CHR ''-'' \<or> hd s = CHR ''+'') then tl s else s)"
  have "list_all is_digit ds"
    using assms unfolding ParseInt_def Let_def ds_def [symmetric] by (simp split: if_splits)
  then have "0 \<le> digits_val ds" by (rule digits_val_nonneg)
  then show ?thesis
    using assms unfolding ParseInt_def Let_def ds_def [symmetric]
    by (auto simp: int64_def split: if_splits)
qed

subsection \<open>Go maps\<close>

text \<open>
  A Go map is an association list with distinct keys. \<open>AList.update\<close> assigns,
  \<open>AList.delete\<close> deletes, \<open>map_of\<close> looks up.
\<close>

type_synonym ('k, 'v) gomap = "('k \<times> 'v) list"

definition go_map :: "('k, 'v) gomap \<Rightarrow> bool" where
  "go_map m \<longleftrightarrow> distinct (map fst m)"

definition map_keys :: "('k, 'v) gomap \<Rightarrow> 'k list" where
  "map_keys m = map fst m"

lemma go_map_Nil [simp]: "go_map []"
  by (simp add: go_map_def)

lemma go_map_update [simp]: "go_map m \<Longrightarrow> go_map (AList.update k v m)"
  by (simp add: go_map_def distinct_update)

lemma go_map_delete [simp]: "go_map m \<Longrightarrow> go_map (AList.delete k m)"
  by (simp add: go_map_def distinct_delete)

lemma go_map_filter [simp]: "go_map m \<Longrightarrow> go_map (filter P m)"
  by (simp add: go_map_def distinct_map_filter)

lemma map_of_filter_pair:
  assumes "go_map m"
  shows "map_of (filter P m) k = (case map_of m k of None \<Rightarrow> None | Some v \<Rightarrow> if P (k, v) then Some v else None)"
  using assms unfolding go_map_def
  by (induction m) (auto split: option.splits simp: rev_image_eqI map_of_eq_None_iff)

lemmas [go_map_simps] = update_conv' delete_conv' map_of_filter_pair

lemma map_of_fst_Some: "k \<in> fst ` set m \<longleftrightarrow> (\<exists>v. map_of m k = Some v)"
  by (metis domIff dom_map_of_conv_image_fst not_None_eq)

lemma map_keys_perm:
  assumes "go_map m" "go_map m'" "map_of m = map_of m'"
  shows "sort (map_keys m) = sort (map_keys (m' :: (('k :: linorder) \<times> 'v) list))"
proof -
  have "set (map fst m) = set (map fst m')"
    using assms(3) by (metis dom_map_of_conv_image_fst set_map)
  then show ?thesis
    using assms(1,2) unfolding map_keys_def go_map_def
    by (metis sorted_distinct_set_unique distinct_sort set_sort sorted_sort)
qed

subsection \<open>Runs\<close>

lemma sum_update:
  fixes g :: "'a \<Rightarrow> 'b::comm_monoid_add"
  shows "i < length xs \<Longrightarrow> sum_list (map g (xs[i := x])) + g (xs ! i) = sum_list (map g xs) + g x"
  by (induction xs arbitrary: i) (auto simp: ac_simps split: nat.split)

text \<open>
  A system of steps with an invariant whose rank decreases: no run goes on for ever, and from every state that satisfies the invariant
  a state is reached in which nothing more can happen.
\<close>

locale ending_system =
  fixes step :: "'s \<Rightarrow> 's \<Rightarrow> bool" and ok :: "'s \<Rightarrow> bool" and measured :: "'s \<Rightarrow> 'r" and less :: "('r \<times> 'r) set"
  assumes wf_less: "wf less" and ok_step: "step s s' \<Longrightarrow> ok s \<Longrightarrow> ok s'"
    and decreases: "step s s' \<Longrightarrow> ok s \<Longrightarrow> (measured s', measured s) \<in> less"
begin

lemma ok_steps: "step\<^sup>*\<^sup>* s s' \<Longrightarrow> ok s \<Longrightarrow> ok s'"
  by (induction rule: rtranclp_induct) (auto intro: ok_step)

lemma no_endless_run: "ok s \<Longrightarrow> \<nexists>run. run 0 = s \<and> (\<forall>n. step (run n) (run (Suc n)))"
proof
  assume s: "ok s" and "\<exists>run. run 0 = s \<and> (\<forall>n. step (run n) (run (Suc n)))"
  then obtain run where run: "run 0 = s" "\<And>n. step (run n) (run (Suc n))" by blast
  have "ok (run n)" for n
  proof (induction n)
    case 0
    show ?case using s run(1) by simp
  next
    case (Suc n)
    then show ?case using run(2) ok_step by blast
  qed
  then have "(measured (run (Suc n)), measured (run n)) \<in> less" for n using decreases run(2) by blast
  then show False using wf_no_infinite_down_chainE [OF wf_less, of "\<lambda>n. measured (run n)"] by blast
qed

lemma reaches_end: "ok s \<Longrightarrow> \<exists>s'. step\<^sup>*\<^sup>* s s' \<and> (\<nexists>s''. step s' s'')"
proof (induction "measured s" arbitrary: s rule: wf_induct_rule [OF wf_less])
  case (1 s)
  show ?case
  proof (cases "\<exists>s'. step s s'")
    case True
    then obtain s' where s': "step s s'" ..
    from "1.hyps" [OF decreases [OF s' "1.prems"] ok_step [OF s' "1.prems"]] s' show ?thesis
      by (metis converse_rtranclp_into_rtranclp)
  next
    case False
    then show ?thesis by blast
  qed
qed

end

end
