(* ===== verification/Http_Header.thy ===== *)
theory Http_Header
  imports Prelude
begin

text \<open>
  \<^verbatim>\<open>http.Header\<close> as the sources use it, the field readers of \<^verbatim>\<open>src/header.go\<close> and
  \<^verbatim>\<open>combinedHeaderValues\<close> of \<^verbatim>\<open>src/conditional_response.go\<close>.

  Five library facilities are fields of the record \<open>goenv\<close>, an argument of the definitions
  that need them: the date parser \<^verbatim>\<open>http.ParseTime\<close>, the date printer of
  \<^verbatim>\<open>http.TimeFormat\<close>, the \<^verbatim>\<open>float64\<close> product \<open>f * (unit / scale)\<close> that
  \<^verbatim>\<open>time.ParseDuration\<close> uses for a fraction, the \<^verbatim>\<open>float64\<close> rounding of
  \<^verbatim>\<open>fmt.Sprintf("%.f", d.Seconds())\<close>, and the Unicode table of \<^verbatim>\<open>strconv.IsPrint\<close>.
\<close>

record goenv =
  ParseTime :: "string \<Rightarrow> time option"
  FormatTime :: "time \<Rightarrow> string"
  FloatFraction :: "int \<Rightarrow> int \<Rightarrow> int \<Rightarrow> int"
  FormatSeconds :: "duration \<Rightarrow> string"
  PrintTable :: "int \<Rightarrow> bool"

text \<open>
  A concrete environment for evaluating the model: a date is the decimal number of its seconds,
  fractions of a second and characters beyond Latin-1 are left out.
\<close>

definition seconds_env :: goenv where
  "seconds_env = \<lparr>ParseTime = \<lambda>s. map_option (\<lambda>n. n * 1000000000) (ParseInt s),
     FormatTime = \<lambda>t. Itoa (t div 1000000000), FloatFraction = \<lambda>_ _ _. 0,
     FormatSeconds = \<lambda>d. Itoa (d div 1000000000), PrintTable = \<lambda>_. False\<rparr>"

type_synonym header = "(string, string list) gomap"

subsection \<open>Canonical field names\<close>

definition is_letter :: "char \<Rightarrow> bool" where
  "is_letter c \<longleftrightarrow> (65 \<le> code c \<and> code c \<le> 90) \<or> (97 \<le> code c \<and> code c \<le> 122)"

definition valid_field_byte :: "char \<Rightarrow> bool" where
  "valid_field_byte c \<longleftrightarrow> is_letter c \<or> is_digit c \<or>
     c \<in> {CHR ''!'', CHR ''#'', CHR ''$'', CHR ''%'', CHR ''&'', CHR 0x27, CHR ''*'', CHR ''+'',
          CHR ''-'', CHR ''.'', CHR ''^'', CHR ''_'', CHR 0x60, CHR ''|'', CHR ''~''}"

fun canon_bytes :: "bool \<Rightarrow> string \<Rightarrow> string" where
  "canon_bytes up [] = []"
| "canon_bytes up (c # cs) = (if up then upper_char c else lower_char c) # canon_bytes (c = CHR ''-'') cs"

definition CanonicalHeaderKey :: "string \<Rightarrow> string" where
  "CanonicalHeaderKey s = (if list_all valid_field_byte s then canon_bytes True s else s)"

subsection \<open>Field access\<close>

definition header_at :: "header \<Rightarrow> string \<Rightarrow> string list" where
  \<comment> \<open>\<open>h[k]\<close>: a missing key reads as the empty slice\<close>
  "header_at h k = (case map_of h k of None \<Rightarrow> [] | Some vs \<Rightarrow> vs)"

definition Values :: "header \<Rightarrow> string \<Rightarrow> string list" where
  "Values h k = header_at h (CanonicalHeaderKey k)"

definition Get :: "header \<Rightarrow> string \<Rightarrow> string" where
  "Get h k = (case Values h k of [] \<Rightarrow> [] | v # _ \<Rightarrow> v)"

definition Set :: "header \<Rightarrow> string \<Rightarrow> string \<Rightarrow> header" where
  "Set h k v = AList.update (CanonicalHeaderKey k) [v] h"

definition Add :: "header \<Rightarrow> string \<Rightarrow> string \<Rightarrow> header" where
  "Add h k v = AList.update (CanonicalHeaderKey k) (Values h k @ [v]) h"

definition Del :: "header \<Rightarrow> string \<Rightarrow> header" where
  "Del h k = AList.delete (CanonicalHeaderKey k) h"

text \<open>The keys of a raw header map that name a field, in the order of \<^verbatim>\<open>sort.Strings\<close>.\<close>

definition fold_keys :: "header \<Rightarrow> string \<Rightarrow> string list" where
  "fold_keys h name = sort (filter (\<lambda>k. EqualFold k name) (map_keys h))"

definition field_lines :: "header \<Rightarrow> string \<Rightarrow> string list" where
  "field_lines h name = concat (map (header_at h) (fold_keys h name))"

definition combinedHeaderValues :: "header \<Rightarrow> string \<Rightarrow> string" where
  "combinedHeaderValues h name = Join (field_lines h name) '', ''"

subsection \<open>Typed fields\<close>

datatype header_error = ErrNoHeader | ErrParse

definition timeHeader :: "goenv \<Rightarrow> string \<Rightarrow> header \<Rightarrow> header_error + time" where
  "timeHeader e key h =
     (let v = Get h key
      in if v \<noteq> [] then (case ParseTime e v of None \<Rightarrow> Inl ErrParse | Some t \<Rightarrow> Inr t)
         else Inl ErrNoHeader)"

definition intHeader :: "string \<Rightarrow> header \<Rightarrow> header_error + int" where
  "intHeader key h =
     (let v = Get h key
      in if v \<noteq> [] then (case ParseInt v of None \<Rightarrow> Inl ErrParse | Some n \<Rightarrow> Inr n)
         else Inl ErrNoHeader)"

subsection \<open>Facts\<close>

lemma lower_char_eq:
  assumes "\<not> (97 \<le> code d \<and> code d \<le> 122)" and "\<not> (65 \<le> code d \<and> code d \<le> 90)"
  shows "lower_char c = d \<longleftrightarrow> c = d" "upper_char c = d \<longleftrightarrow> c = d"
  using assms by (auto simp only: char_code_eq char_codes split: if_splits)

lemma case_char_dash [simp]:
  "upper_char c = CHR ''-'' \<longleftrightarrow> c = CHR ''-''" "lower_char c = CHR ''-'' \<longleftrightarrow> c = CHR ''-''"
  by (rule lower_char_eq; simp)+

lemma is_letter_lower [simp]: "is_letter (lower_char c) \<longleftrightarrow> is_letter c"
  and is_letter_upper [simp]: "is_letter (upper_char c) \<longleftrightarrow> is_letter c"
  by (auto simp: is_letter_def char_codes split: if_splits)

lemma valid_field_byte_case [simp]:
  "valid_field_byte (lower_char c) \<longleftrightarrow> valid_field_byte c"
  "valid_field_byte (upper_char c) \<longleftrightarrow> valid_field_byte c"
proof -
  have *: "lower_char c = c \<and> upper_char c = c" if "\<not> is_letter c"
    using that by (auto simp only: char_code_eq char_codes is_letter_def split: if_splits)
  show "valid_field_byte (lower_char c) \<longleftrightarrow> valid_field_byte c"
    "valid_field_byte (upper_char c) \<longleftrightarrow> valid_field_byte c"
    by (cases "is_letter c"; simp add: valid_field_byte_def *)+
qed

lemma canon_bytes_valid [simp]: "list_all valid_field_byte (canon_bytes up s) \<longleftrightarrow> list_all valid_field_byte s"
  by (induction s arbitrary: up) auto

lemma canon_bytes_idem [simp]: "canon_bytes up (canon_bytes up s) = canon_bytes up s"
  by (induction s arbitrary: up) auto

lemma CanonicalHeaderKey_idem [simp]: "CanonicalHeaderKey (CanonicalHeaderKey s) = CanonicalHeaderKey s"
  by (simp add: CanonicalHeaderKey_def)

lemma canon_bytes_fold: "ToLower s = ToLower t \<Longrightarrow> canon_bytes up s = canon_bytes up t"
proof (induction s arbitrary: t up)
  case Nil
  then show ?case by (metis ToLower_Nil ToLower_eq_Nil)
next
  case (Cons c s)
  then obtain d u where t: "t = d # u" and cd: "lower_char c = lower_char d" and r: "ToLower s = ToLower u"
    by (cases t) (auto simp: ToLower_def)
  have "c = CHR ''-'' \<longleftrightarrow> d = CHR ''-''" "upper_char c = upper_char d"
    using cd by (metis case_char_dash(2), metis upper_lower_char)
  then show ?case
    using Cons.IH [OF r] cd t by simp
qed

lemma valid_field_fold: "ToLower s = ToLower t \<Longrightarrow> list_all valid_field_byte s \<longleftrightarrow> list_all valid_field_byte t"
proof -
  have *: "list_all valid_field_byte (ToLower s) \<longleftrightarrow> list_all valid_field_byte s" for s
    by (simp add: ToLower_def list_all_iff)
  show "ToLower s = ToLower t \<Longrightarrow> ?thesis" by (metis *)
qed

lemma ToLower_canon_bytes [simp]: "ToLower (canon_bytes up s) = ToLower s"
  by (induction s arbitrary: up) (auto simp: ToLower_def)

lemma EqualFold_CanonicalHeaderKey [simp]: "EqualFold (CanonicalHeaderKey s) s"
  by (simp add: CanonicalHeaderKey_def EqualFold_def)

lemma CanonicalHeaderKey_fold:
  assumes "list_all valid_field_byte s"
  shows "CanonicalHeaderKey s = CanonicalHeaderKey t \<longleftrightarrow> EqualFold s t"
proof
  assume "EqualFold s t"
  then have f: "ToLower s = ToLower t" by (simp add: EqualFold_def)
  show "CanonicalHeaderKey s = CanonicalHeaderKey t"
    using assms canon_bytes_fold [OF f, of True] valid_field_fold [OF f]
    by (simp add: CanonicalHeaderKey_def)
next
  assume "CanonicalHeaderKey s = CanonicalHeaderKey t"
  then show "EqualFold s t"
    by (metis EqualFold_CanonicalHeaderKey EqualFold_sym EqualFold_trans)
qed

subsection \<open>What the accessors promise\<close>

lemma header_at_update [go_map_simps]: "header_at (AList.update k vs h) k' = (if k' = k then vs else header_at h k')"
  by (simp add: header_at_def update_conv')

lemma header_at_delete [go_map_simps]: "header_at (AList.delete k h) k' = (if k' = k then [] else header_at h k')"
  by (simp add: header_at_def delete_conv')

lemma Get_Set [simp]: "Get (Set h k v) k' = (if CanonicalHeaderKey k' = CanonicalHeaderKey k then v else Get h k')"
  by (simp add: Get_def Set_def Values_def go_map_simps)

lemma Get_Del [simp]: "Get (Del h k) k' = (if CanonicalHeaderKey k' = CanonicalHeaderKey k then [] else Get h k')"
  by (simp add: Get_def Del_def Values_def go_map_simps)

lemma go_map_header [simp]:
  "go_map h \<Longrightarrow> go_map (Set h k v)" "go_map h \<Longrightarrow> go_map (Add h k v)" "go_map h \<Longrightarrow> go_map (Del h k)"
  by (simp_all add: Set_def Add_def Del_def)

lemma header_at_cong: "map_of h = map_of h' \<Longrightarrow> header_at h = header_at h'"
  by (simp add: header_at_def fun_eq_iff)

lemma fold_keys_cong:
  assumes "go_map h" "go_map h'" "map_of h = map_of h'"
  shows "fold_keys h name = fold_keys h' name"
  using map_keys_perm [OF assms] unfolding fold_keys_def by (metis filter_sort)

lemma field_lines_cong:
  assumes "go_map h" "go_map h'" "map_of h = map_of h'"
  shows "field_lines h name = field_lines h' name"
  using fold_keys_cong [OF assms] header_at_cong [OF assms(3)] by (simp add: field_lines_def)

lemma fold_keys_EqualFold: "k \<in> set (fold_keys h name) \<longleftrightarrow> k \<in> fst ` set h \<and> EqualFold k name"
  by (auto simp: fold_keys_def map_keys_def)

end
