(* ===== verification/Quote.thy ===== *)
theory Quote
  imports Http_Header
begin

text \<open>
  \<^verbatim>\<open>strconv.Quote\<close>, which \<^verbatim>\<open>src/key.go\<close> and \<^verbatim>\<open>src/cachecontrol.go\<close> use to delimit
  untrusted text: the string is cut into UTF-8 runes and invalid bytes, and each piece is
  escaped on its own. The Unicode table behind \<^verbatim>\<open>strconv.IsPrint\<close> for runes above 255 is
  the argument \<open>tbl\<close>; nothing is assumed of it. The main fact is that quoting is injective
  and that a quoted string followed by anything is still read back uniquely.
\<close>

definition second_ok :: "int \<Rightarrow> int \<Rightarrow> bool" where
  "second_ok b0 b1 \<longleftrightarrow>
     (if b0 = 0xE0 then 0xA0 else if b0 = 0xF0 then 0x90 else 0x80) \<le> b1 \<and>
     b1 \<le> (if b0 = 0xED then 0x9F else if b0 = 0xF4 then 0x8F else 0xBF)"

definition cont :: "char \<Rightarrow> bool" where
  "cont c \<longleftrightarrow> 0x80 \<le> code c \<and> code c \<le> 0xBF"

definition rune_len :: "string \<Rightarrow> nat" where
  \<comment> \<open>width of the rune at the front, 0 where \<open>utf8.DecodeRuneInString\<close> reports \<open>RuneError\<close>\<close>
  "rune_len s = (case s of [] \<Rightarrow> 0
     | c0 # t \<Rightarrow>
        if code c0 < 0x80 then 1
        else if 0xC2 \<le> code c0 \<and> code c0 \<le> 0xDF
          then (case t of c1 # _ \<Rightarrow> if cont c1 then 2 else 0 | _ \<Rightarrow> 0)
        else if 0xE0 \<le> code c0 \<and> code c0 \<le> 0xEF
          then (case t of c1 # c2 # _ \<Rightarrow> if second_ok (code c0) (code c1) \<and> cont c2 then 3 else 0 | _ \<Rightarrow> 0)
        else if 0xF0 \<le> code c0 \<and> code c0 \<le> 0xF4
          then (case t of c1 # c2 # c3 # _ \<Rightarrow>
                  if second_ok (code c0) (code c1) \<and> cont c2 \<and> cont c3 then 4 else 0 | _ \<Rightarrow> 0)
        else 0)"

fun runes :: "string \<Rightarrow> string list" where
  "runes [] = []"
| "runes (c # cs) = (let n = max 1 (rune_len (c # cs)) in take n (c # cs) # runes (drop (n - 1) cs))"

fun rune_of :: "string \<Rightarrow> int" where
  "rune_of [a] = code a"
| "rune_of [a, b] = (code a - 0xC0) * 64 + (code b - 0x80)"
| "rune_of [a, b, c] = ((code a - 0xE0) * 64 + (code b - 0x80)) * 64 + (code c - 0x80)"
| "rune_of [a, b, c, d] =
     (((code a - 0xF0) * 64 + (code b - 0x80)) * 64 + (code c - 0x80)) * 64 + (code d - 0x80)"
| "rune_of _ = 0"

definition is_print :: "(int \<Rightarrow> bool) \<Rightarrow> int \<Rightarrow> bool" where
  "is_print tbl r \<longleftrightarrow>
     (if r \<le> 0xFF then (0x20 \<le> r \<and> r < 0x7F) \<or> (0xA1 \<le> r \<and> r \<noteq> 0xAD) else tbl r)"

datatype esc = Lit string | Bs char | X int | U4 int | U8 int

definition short_escape :: "int \<Rightarrow> char option" where
  "short_escape r = map_of [(7, CHR ''a''), (8, CHR ''b''), (12, CHR ''f''), (10, CHR ''n''),
     (13, CHR ''r''), (9, CHR ''t''), (11, CHR ''v'')] r"

definition escape_rune :: "(int \<Rightarrow> bool) \<Rightarrow> string \<Rightarrow> esc" where
  "escape_rune tbl b =
     (let r = rune_of b in
      if length b = 1 \<and> 0x80 \<le> r then X r
      else if r = 0x22 \<or> r = 0x5C then Bs (char_of r)
      else if is_print tbl r then Lit b
      else case short_escape r of Some c \<Rightarrow> Bs c
      | None \<Rightarrow> if r < 0x20 \<or> r = 0x7F then X r else if r < 0x10000 then U4 r else U8 r)"

definition hexd :: "int \<Rightarrow> char" where
  "hexd n = (if n < 10 then char_of (n + 48) else char_of (n + 87))"

fun hex :: "nat \<Rightarrow> int \<Rightarrow> string" where
  "hex 0 n = []"
| "hex (Suc w) n = hex w (n div 16) @ [hexd (n mod 16)]"

fun render :: "esc \<Rightarrow> string" where
  "render (Lit b) = b"
| "render (Bs c) = [CHR 0x5C, c]"
| "render (X n) = CHR 0x5C # CHR ''x'' # hex 2 n"
| "render (U4 n) = CHR 0x5C # CHR ''u'' # hex 4 n"
| "render (U8 n) = CHR 0x5C # CHR ''U'' # hex 8 n"

definition quote_body :: "(int \<Rightarrow> bool) \<Rightarrow> string \<Rightarrow> string" where
  "quote_body tbl s = concat (map (\<lambda>b. render (escape_rune tbl b)) (runes s))"

definition strconv_Quote :: "(int \<Rightarrow> bool) \<Rightarrow> string \<Rightarrow> string" where
  "strconv_Quote tbl s = CHR 0x22 # quote_body tbl s @ [CHR 0x22]"

subsection \<open>Cutting into runes\<close>

lemma concat_runes [simp]: "concat (runes s) = s"
proof (induction s rule: runes.induct)
  case 1
  then show ?case by simp
next
  case (2 c cs)
  show ?case
    using 2 [OF refl] by (cases "rune_len (c # cs)") (auto simp: Let_def max_def)
qed

definition rune_chunk :: "string \<Rightarrow> bool" where
  "rune_chunk b \<longleftrightarrow> length b = 1 \<or> (rune_len b = length b \<and> 2 \<le> length b)"

lemmas rune_len_splits = if_splits list.splits

lemma rune_len_le: "rune_len s \<le> length s"
  by (auto simp: rune_len_def split: rune_len_splits)

lemma rune_len_take: "rune_len s = n \<Longrightarrow> 2 \<le> n \<Longrightarrow> rune_len (take n s) = n"
  by (auto simp: rune_len_def split: rune_len_splits)

lemma rune_len_append: "rune_len b = length b \<Longrightarrow> b \<noteq> [] \<Longrightarrow> rune_len (b @ r) = length b"
  by (auto simp: rune_len_def split: rune_len_splits)

lemma runes_chunks: "list_all rune_chunk (runes s)"
proof (induction s rule: runes.induct)
  case 1
  then show ?case by simp
next
  case (2 c cs)
  have "rune_chunk (take (max 1 (rune_len (c # cs))) (c # cs))"
    using rune_len_take [of "c # cs", OF refl] rune_len_le [of "c # cs"]
    by (cases "rune_len (c # cs) \<le> 1") (auto simp: rune_chunk_def max_def)
  with 2 [OF refl] show ?case by (simp add: Let_def)
qed

subsection \<open>Escapes form a prefix code\<close>

lemma code_hexd: "0 \<le> n \<Longrightarrow> n < 16 \<Longrightarrow> code (hexd n) = (if n < 10 then n + 48 else n + 87)"
  by (simp add: hexd_def)

lemma hexd_inj:
  assumes "0 \<le> m" "m < 16" "0 \<le> n" "n < 16" "hexd m = hexd n"
  shows "m = n"
proof -
  have "code (hexd m) = code (hexd n)" using assms(5) by simp
  then show ?thesis
    using assms(1-4) by (auto simp: code_hexd split: if_splits)
qed

lemma length_hex [simp]: "length (hex w n) = w"
  by (induction w arbitrary: n) auto

lemma hex_inj: "0 \<le> m \<Longrightarrow> m < 16 ^ w \<Longrightarrow> 0 \<le> n \<Longrightarrow> n < 16 ^ w \<Longrightarrow> hex w m = hex w n \<Longrightarrow> m = n"
proof (induction w arbitrary: m n)
  case 0
  then show ?case by simp
next
  case (Suc w)
  have "m div 16 < 16 ^ w" "n div 16 < 16 ^ w"
    using Suc.prems by (simp_all add: div_less_iff_less_mult mult.commute)
  then have "m div 16 = n div 16"
    using Suc by simp
  moreover have "m mod 16 = n mod 16"
    using Suc.prems hexd_inj [of "m mod 16" "n mod 16"] by simp
  ultimately show ?case
    by (metis div_mult_mod_eq)
qed

definition esc_ok :: "esc \<Rightarrow> bool" where
  "esc_ok f \<longleftrightarrow> (case f of
     Lit b \<Rightarrow> b \<noteq> [] \<and> rune_len b = length b \<and> hd b \<noteq> CHR 0x5C \<and> hd b \<noteq> CHR 0x22
   | Bs c \<Rightarrow> c \<noteq> CHR ''x'' \<and> c \<noteq> CHR ''u'' \<and> c \<noteq> CHR ''U''
   | X n \<Rightarrow> 0 \<le> n \<and> n < 16 ^ 2 | U4 n \<Rightarrow> 0 \<le> n \<and> n < 16 ^ 4 | U8 n \<Rightarrow> 0 \<le> n \<and> n < 16 ^ 8)"

lemma Lit_prefix:
  assumes "b @ r = b' @ r'" "esc_ok (Lit b)" "esc_ok (Lit b')"
  shows "b = b' \<and> r = r'"
proof -
  have "rune_len (b @ r) = length b" "rune_len (b' @ r') = length b'"
    using assms(2,3) by (auto simp: esc_ok_def intro: rune_len_append)
  then have "length b = length b'" using assms(1) by metis
  with assms(1) show ?thesis by simp
qed

lemma hex_width_inj:
  "0 \<le> m \<Longrightarrow> m < 256 \<Longrightarrow> 0 \<le> n \<Longrightarrow> n < 256 \<Longrightarrow> hex 2 m = hex 2 n \<Longrightarrow> m = n"
  "0 \<le> m \<Longrightarrow> m < 65536 \<Longrightarrow> 0 \<le> n \<Longrightarrow> n < 65536 \<Longrightarrow> hex 4 m = hex 4 n \<Longrightarrow> m = n"
  "0 \<le> m \<Longrightarrow> m < 4294967296 \<Longrightarrow> 0 \<le> n \<Longrightarrow> n < 4294967296 \<Longrightarrow> hex 8 m = hex 8 n \<Longrightarrow> m = n"
  using hex_inj [of m 2 n] hex_inj [of m 4 n] hex_inj [of m 8 n]
  by (simp_all del: hex.simps)

lemma render_hd: "esc_ok f \<Longrightarrow> render f \<noteq> [] \<and> (hd (render f) = CHR 0x5C \<longleftrightarrow> (\<forall>b. f \<noteq> Lit b)) \<and> hd (render f) \<noteq> CHR 0x22"
  by (cases f) (auto simp: esc_ok_def)

lemma render_prefix_free:
  assumes eq: "render f @ r = render g @ r'" and f: "esc_ok f" and g: "esc_ok g"
  shows "f = g \<and> r = r'"
proof -
  have ne: "render f \<noteq> []" "render g \<noteq> []"
    using render_hd [OF f] render_hd [OF g] by simp_all
  have "hd (render f @ r) = hd (render g @ r')" using eq by (rule arg_cong)
  then have hds: "hd (render f) = hd (render g)" using ne by simp
  show ?thesis
  proof (cases "\<exists>b. f = Lit b")
    case True
    then have "hd (render f) \<noteq> CHR 0x5C" using render_hd [OF f] by simp
    then obtain b' where b': "g = Lit b'" using hds render_hd [OF g] by auto
    from True obtain b where b: "f = Lit b" by blast
    show ?thesis using Lit_prefix [of b r b' r'] eq f g b b' by simp
  next
    case False
    then have "hd (render f) = CHR 0x5C" using render_hd [OF f] by simp
    then have "\<forall>b. g \<noteq> Lit b" using hds render_hd [OF g] by simp
    with False eq f g show ?thesis
      by (cases f; cases g) (auto simp: esc_ok_def simp del: hex.simps intro: hex_width_inj)
  qed
qed

lemma render_not_quote: "esc_ok f \<Longrightarrow> render f @ s \<noteq> CHR 0x22 # r"
  using render_hd [of f] by (cases "render f") auto

lemma renders_inj:
  assumes "list_all esc_ok fs" "list_all esc_ok gs"
    and "concat (map render fs) @ CHR 0x22 # r = concat (map render gs) @ CHR 0x22 # r'"
  shows "fs = gs \<and> r = r'"
  using assms
proof (induction fs arbitrary: gs)
  case Nil
  then show ?case
    using render_not_quote by (cases gs) (auto, metis)
next
  case (Cons f fs)
  show ?case
  proof (cases gs)
    case Nil
    with Cons.prems render_not_quote [of f] show ?thesis
      by auto
  next
    case (Cons g gs')
    with \<open>list_all esc_ok (f # fs)\<close> \<open>list_all esc_ok gs\<close> Cons.prems(3)
    have "f = g \<and> concat (map render fs) @ CHR 0x22 # r = concat (map render gs') @ CHR 0x22 # r'"
      by (intro render_prefix_free) auto
    with Cons Cons.IH [of gs'] Cons.prems show ?thesis by auto
  qed
qed

subsection \<open>Escaping is injective on runes\<close>

lemma chunk_cases:
  assumes "rune_chunk b"
  obtains (one) a where "b = [a]"
  | (two) a0 a1 where "b = [a0, a1]" "0xC2 \<le> code a0" "code a0 \<le> 0xDF" "cont a1"
  | (three) a0 a1 a2 where "b = [a0, a1, a2]" "0xE0 \<le> code a0" "code a0 \<le> 0xEF"
      "second_ok (code a0) (code a1)" "cont a2"
  | (four) a0 a1 a2 a3 where "b = [a0, a1, a2, a3]" "0xF0 \<le> code a0" "code a0 \<le> 0xF4"
      "second_ok (code a0) (code a1)" "cont a2" "cont a3"
  using assms
  by (auto simp: rune_chunk_def rune_len_def length_Suc_conv split: rune_len_splits)

lemma rune_of_range:
  assumes "rune_chunk b"
  shows "length b = 1 \<longrightarrow> 0 \<le> rune_of b \<and> rune_of b < 256" "length b = 2 \<longrightarrow> 128 \<le> rune_of b \<and> rune_of b < 2048"
    "length b = 3 \<longrightarrow> 2048 \<le> rune_of b \<and> rune_of b < 65536"
    "length b = 4 \<longrightarrow> 65536 \<le> rune_of b \<and> rune_of b < 4294967296" "length b \<in> {1, 2, 3, 4}"
  using assms
  by (auto elim!: chunk_cases simp: cont_def second_ok_def split: if_splits)

lemma base64_inj:
  assumes "x * 64 + p = y * 64 + q" "0 \<le> p" "p < 64" "0 \<le> q" "q < (64 :: int)"
  shows "x = y \<and> p = q"
proof -
  have "(x * 64 + p) div 64 = (y * 64 + q) div 64" using assms(1) by (rule arg_cong)
  then have "x = y" using assms(2-5) by simp
  with assms(1) show ?thesis by simp
qed

lemma cont_diff: "cont c \<Longrightarrow> 0 \<le> code c - 128 \<and> code c - 128 < 64"
  by (auto simp: cont_def)


lemma rune_of_inj:
  assumes b: "rune_chunk b" "rune_chunk b'" and l: "length b = length b'" and eq: "rune_of b = rune_of b'"
  shows "b = b'"
  using b(1)
proof (cases rule: chunk_cases)
  case (one a)
  then obtain d where "b' = [d]" using l by (cases b') auto
  with one eq show ?thesis by simp
next
  case (two a0 a1)
  with b(2) l obtain c0 c1 where c: "b' = [c0, c1]" "0xC2 \<le> code c0" "cont c1"
    by (auto elim!: chunk_cases)
  have "code a0 - 0xC0 = code c0 - 0xC0 \<and> code a1 - 0x80 = code c1 - 0x80"
    using eq two(4) c(3) unfolding two(1) c(1) by (intro base64_inj) (auto dest: cont_diff)
  with two c show ?thesis by simp
next
  case (three a0 a1 a2)
  with b(2) l obtain c0 c1 c2 where c: "b' = [c0, c1, c2]" "0xE0 \<le> code c0"
      "second_ok (code c0) (code c1)" "cont c2"
    by (auto elim!: chunk_cases)
  have k: "cont a1" "cont c1"
    using three c by (auto simp: second_ok_def cont_def split: if_splits)
  have "((code a0 - 0xE0) * 64 + (code a1 - 0x80)) = ((code c0 - 0xE0) * 64 + (code c1 - 0x80))
      \<and> code a2 - 0x80 = code c2 - 0x80"
    using eq three(5) c(4) unfolding three(1) c(1) by (intro base64_inj) (auto dest: cont_diff)
  moreover from this k have "code a0 - 0xE0 = code c0 - 0xE0 \<and> code a1 - 0x80 = code c1 - 0x80"
    by (intro base64_inj) (auto dest: cont_diff)
  ultimately show ?thesis using three c by simp
next
  case (four a0 a1 a2 a3)
  with b(2) l obtain c0 c1 c2 c3 where c: "b' = [c0, c1, c2, c3]" "0xF0 \<le> code c0"
      "second_ok (code c0) (code c1)" "cont c2" "cont c3"
    by (auto elim!: chunk_cases)
  have k: "cont a1" "cont c1"
    using four c by (auto simp: second_ok_def cont_def split: if_splits)
  let ?u = "((code a0 - 0xF0) * 64 + (code a1 - 0x80)) * 64 + (code a2 - 0x80)"
  let ?v = "((code c0 - 0xF0) * 64 + (code c1 - 0x80)) * 64 + (code c2 - 0x80)"
  have 1: "?u = ?v \<and> code a3 - 0x80 = code c3 - 0x80"
    using eq four(6) c(5) unfolding four(1) c(1) by (intro base64_inj) (auto dest: cont_diff)
  then have 2: "(code a0 - 0xF0) * 64 + (code a1 - 0x80) = (code c0 - 0xF0) * 64 + (code c1 - 0x80)
      \<and> code a2 - 0x80 = code c2 - 0x80"
    using four(5) c(4) by (intro base64_inj) (auto dest: cont_diff)
  then have "code a0 - 0xF0 = code c0 - 0xF0 \<and> code a1 - 0x80 = code c1 - 0x80"
    using k by (intro base64_inj) (auto dest: cont_diff)
  with 1 2 show ?thesis using four c by simp
qed

lemma rune_of_inj_multi:
  assumes "rune_chunk b" "rune_chunk b'" "rune_of b = rune_of b'" "length b \<noteq> 1" "length b' \<noteq> 1"
  shows "b = b'"
  using assms rune_of_range [of b] rune_of_range [of b'] by (intro rune_of_inj) auto

lemma rune_of_ascii:
  assumes "rune_chunk b" "rune_of b < 128"
  shows "b = [char_of (rune_of b)]"
  using assms rune_of_range [OF assms(1)] by (cases rule: chunk_cases) auto

definition bs_inv :: "char \<Rightarrow> char" where
  "bs_inv c = (case map_of [(CHR ''a'', 7), (CHR ''b'', 8), (CHR ''f'', 12), (CHR ''n'', 10),
     (CHR ''r'', 13), (CHR ''t'', 9), (CHR ''v'', 11 :: int)] c of None \<Rightarrow> c | Some n \<Rightarrow> char_of n)"

lemma short_escape_cases:
  "short_escape r = Some c \<Longrightarrow> r < 128 \<and> bs_inv c = char_of r \<and> c \<noteq> CHR ''x'' \<and> c \<noteq> CHR ''u'' \<and> c \<noteq> CHR ''U''"
  by (auto simp: short_escape_def bs_inv_def split: if_splits)

lemma escape_rune_inv:
  assumes b: "rune_chunk b"
  shows "case escape_rune tbl b of Lit x \<Rightarrow> b = x | Bs c \<Rightarrow> b = [bs_inv c] | X n \<Rightarrow> b = [char_of n]
    | U4 n \<Rightarrow> length b \<noteq> 1 \<and> rune_of b = n | U8 n \<Rightarrow> length b \<noteq> 1 \<and> rune_of b = n"
proof -
  have one: "b = [char_of (rune_of b)]" if "length b = 1"
    using that by (cases b) auto
  have quote: "bs_inv (char_of (rune_of b)) = char_of (rune_of b)" if "rune_of b = 0x22 \<or> rune_of b = 0x5C"
    using that by (auto simp: bs_inv_def char_of_eq_iff)
  have low: "length b \<noteq> 1 \<longrightarrow> 128 \<le> rune_of b"
    using rune_of_range [OF b] by auto
  show ?thesis
    using one quote low rune_of_ascii [OF b]
    by (auto simp: escape_rune_def is_print_def Let_def split: option.split dest: short_escape_cases)
qed

lemma escape_rune_inj:
  assumes "rune_chunk b" "rune_chunk b'" "escape_rune tbl b = escape_rune tbl b'"
  shows "b = b'"
  using escape_rune_inv [OF assms(1), of tbl] escape_rune_inv [OF assms(2), of tbl] assms
  by (cases "escape_rune tbl b'") (auto intro: rune_of_inj_multi)

lemma escape_rune_ok:
  assumes b: "rune_chunk b"
  shows "esc_ok (escape_rune tbl b)"
proof -
  have r: "0 \<le> rune_of b" "rune_of b < 4294967296"
    using rune_of_range [OF b] by auto
  have ne: "b \<noteq> []"
    using b by (auto simp: rune_chunk_def)
  have lit: "rune_len b = length b \<and> hd b \<noteq> CHR 0x5C \<and> hd b \<noteq> CHR 0x22"
    if "\<not> (length b = 1 \<and> 0x80 \<le> rune_of b)" "rune_of b \<noteq> 0x22" "rune_of b \<noteq> 0x5C"
    using b that by (cases rule: chunk_cases) (auto simp: rune_len_def)
  have low: "length b = 1 \<longrightarrow> 0 \<le> rune_of b \<and> rune_of b < 256"
    using rune_of_range(1) [OF b] .
  show ?thesis
  proof (cases "escape_rune tbl b")
    case (Lit x)
    then have "x = b" "\<not> (length b = 1 \<and> 0x80 \<le> rune_of b)" "rune_of b \<noteq> 0x22" "rune_of b \<noteq> 0x5C"
      by (auto simp: escape_rune_def Let_def split: if_splits option.splits)
    with lit ne Lit show ?thesis by (simp add: esc_ok_def)
  next
    case (Bs c)
    then show ?thesis
      by (auto simp: esc_ok_def escape_rune_def Let_def char_of_eq_iff split: if_splits option.splits
          dest: short_escape_cases)
  next
    case (X n)
    then have "n = rune_of b" "length b = 1 \<or> n < 128"
      by (auto simp: escape_rune_def Let_def split: if_splits option.splits)
    with X low r show ?thesis by (auto simp: esc_ok_def)
  next
    case (U4 n)
    with r show ?thesis
      by (auto simp: esc_ok_def escape_rune_def Let_def split: if_splits option.splits)
  next
    case (U8 n)
    then have "n = rune_of b"
      by (auto simp: escape_rune_def Let_def split: if_splits option.splits)
    with U8 r show ?thesis by (simp add: esc_ok_def)
  qed
qed

lemma map_escape_inj:
  assumes "list_all rune_chunk xs" "list_all rune_chunk ys"
    "map (escape_rune tbl) xs = map (escape_rune tbl) ys"
  shows "xs = ys"
proof (rule map_inj_on [OF assms(3)])
  show "inj_on (escape_rune tbl) (set xs \<union> set ys)"
    using assms(1,2) by (auto simp: list_all_iff inj_on_def intro: escape_rune_inj)
qed

text \<open>A quoted string is read back uniquely whatever follows it.\<close>

lemma quote_unique:
  assumes "strconv_Quote tbl s @ r = strconv_Quote tbl t @ r'"
  shows "s = t \<and> r = r'"
proof -
  let ?f = "map (escape_rune tbl)"
  have ok: "list_all esc_ok (?f (runes u))" for u
    using runes_chunks [of u] by (auto simp: list_all_iff escape_rune_ok)
  have "concat (map render (?f (runes s))) @ CHR 0x22 # r = concat (map render (?f (runes t))) @ CHR 0x22 # r'"
    using assms by (simp add: strconv_Quote_def quote_body_def comp_def)
  from renders_inj [OF ok ok this] have "?f (runes s) = ?f (runes t)" "r = r'" by auto
  moreover from this(1) have "runes s = runes t"
    using map_escape_inj runes_chunks by blast
  then have "s = t" by (metis concat_runes)
  ultimately show ?thesis by simp
qed

lemma Quote_inj [simp]: "strconv_Quote tbl s = strconv_Quote tbl t \<longleftrightarrow> s = t"
  using quote_unique [of tbl s "[]" t "[]"] by auto

end
