(* ===== verification/Cache_Control.thy ===== *)
theory Cache_Control
  imports Quote
begin

text \<open>
  \<^verbatim>\<open>src/cachecontrol.go\<close>: the directive map, its parser and its printer. A
  \<^verbatim>\<open>CacheControl\<close> is a Go map from directive names to argument lists. The parser returns
  no error on any input, so its \<^verbatim>\<open>error\<close> result is left out.
\<close>

type_synonym CacheControl = "(string, string list) gomap"

subsection \<open>The map operations\<close>

definition lookupKey :: "CacheControl \<Rightarrow> string \<Rightarrow> string \<times> bool" where
  "lookupKey cc key =
     (let lower = ToLower key in
      if map_of cc lower \<noteq> None then (lower, True)
      else if map_of cc key \<noteq> None then (key, True)
      else let found = foldl (\<lambda>found candidate.
                 if EqualFold candidate key \<and> (found = [] \<or> candidate < found) then candidate else found)
                 [] (map_keys cc)
           in (found, found \<noteq> []))"

definition cc_at :: "CacheControl \<Rightarrow> string \<Rightarrow> string list" where
  \<comment> \<open>\<open>cc[key]\<close>\<close>
  "cc_at cc key = (case map_of cc key of None \<Rightarrow> [] | Some vs \<Rightarrow> vs)"

definition cc_Get :: "CacheControl \<Rightarrow> string \<Rightarrow> string \<times> bool" where
  "cc_Get cc key =
     (let (storedKey, exists) = lookupKey cc key; v = cc_at cc storedKey in
      if exists \<and> v \<noteq> [] then (hd v, True) else ([], exists))"

definition cc_Add :: "CacheControl \<Rightarrow> string \<Rightarrow> string \<Rightarrow> CacheControl" where
  "cc_Add cc key val =
     (let (storedKey, exists) = lookupKey cc key;
          (key', cc') = (if exists then (storedKey, cc)
                         else (ToLower key, AList.update (ToLower key) [] cc))
      in if val \<noteq> [] then AList.update key' (cc_at cc' key' @ [val]) cc' else cc')"

definition Has :: "CacheControl \<Rightarrow> string \<Rightarrow> bool" where
  "Has cc key = snd (lookupKey cc key)"

subsection \<open>The parser\<close>

definition cc_stop :: "char \<Rightarrow> bool" where
  "cc_stop c \<longleftrightarrow> c \<in> {CHR 0x22, CHR 0x0A, CHR 0x09, CHR 0x0D, CHR '' '', CHR '','', CHR ''=''}"

definition cc_skip :: "char \<Rightarrow> bool" where
  "cc_skip c \<longleftrightarrow> c \<in> {CHR '','', CHR 0x0A, CHR 0x0D, CHR '' '', CHR 0x09}"

function parse_loop :: "CacheControl \<Rightarrow> bool \<Rightarrow> string \<Rightarrow> string \<Rightarrow> CacheControl" where
  "parse_loop cc isValue lastKey [] = cc"
| "parse_loop cc isValue lastKey (c # cs) =
     (if c = CHR 0x22 then
        let token = takeWhile (\<lambda>x. x \<noteq> CHR 0x22) cs; rest = drop (length token + 1) cs in
        if isValue then parse_loop (cc_Add cc lastKey token) False lastKey rest
        else parse_loop (cc_Add cc token []) False token rest
      else if cc_skip c then parse_loop cc isValue lastKey cs
      else if c = CHR ''='' then parse_loop cc True lastKey cs
      else
        let token = c # takeWhile (\<lambda>x. \<not> cc_stop x) cs; rest = dropWhile (\<lambda>x. \<not> cc_stop x) cs in
        if isValue then parse_loop (cc_Add cc lastKey token) False lastKey rest
        else parse_loop (cc_Add cc token []) False token rest)"
  by pat_completeness auto
termination
  by (relation "measure (\<lambda>(cc, isValue, lastKey, s). length s)")
    (auto simp: le_imp_less_Suc length_dropWhile_le)

definition ParseCacheControl :: "string \<Rightarrow> CacheControl" where
  "ParseCacheControl input = parse_loop [] False [] input"

definition ParseCacheControlHeaders :: "header \<Rightarrow> CacheControl" where
  "ParseCacheControlHeaders h =
     (let names = sort (filter (\<lambda>name. EqualFold name ''Cache-Control'') (map_keys h));
          values = concat (map (header_at h) names)
      in ParseCacheControl (Join values '', ''))"

subsection \<open>Durations\<close>

fun leadingInt :: "int \<Rightarrow> string \<Rightarrow> (int \<times> string) option" where
  "leadingInt x [] = Some (x, [])"
| "leadingInt x (c # cs) =
     (if \<not> is_digit c then Some (x, c # cs)
      else if x > 2 ^ 63 div 10 then None
      else let y = x * 10 + digit_val c in if y > 2 ^ 63 then None else leadingInt y cs)"

fun leadingFraction :: "int \<Rightarrow> int \<Rightarrow> bool \<Rightarrow> string \<Rightarrow> int \<times> int \<times> string" where
  "leadingFraction x scale overflow [] = (x, scale, [])"
| "leadingFraction x scale overflow (c # cs) =
     (if \<not> is_digit c then (x, scale, c # cs)
      else if overflow then leadingFraction x scale overflow cs
      else if x > (2 ^ 63 - 1) div 10 then leadingFraction x scale True cs
      else let y = x * 10 + digit_val c in
        if y > 2 ^ 63 then leadingFraction x scale True cs else leadingFraction y (scale * 10) False cs)"

definition unitMap :: "(string \<times> int) list" where
  "unitMap = [(''ns'', 1), (''us'', 1000), ([CHR 0xC2, CHR 0xB5, CHR ''s''], 1000),
     ([CHR 0xCE, CHR 0xBC, CHR ''s''], 1000), (''ms'', 1000000), (''s'', 1000000000),
     (''m'', 60000000000), (''h'', 3600000000000)]"

definition num_char :: "char \<Rightarrow> bool" where
  "num_char c \<longleftrightarrow> c = CHR ''.'' \<or> is_digit c"

text \<open>One round of the loop: a number, an optional fraction and a unit. \<open>None\<close> is an error.\<close>

definition duration_term :: "goenv \<Rightarrow> string \<Rightarrow> (int \<times> string) option" where
  "duration_term e s =
     (if \<not> num_char (hd s) then None else
      case leadingInt 0 s of None \<Rightarrow> None
      | Some (v, s1) \<Rightarrow>
        let pre = (length s1 \<noteq> length s);
            dot = (s1 \<noteq> [] \<and> hd s1 = CHR ''.'');
            (f, scale, s2) = (if dot then leadingFraction 0 1 False (tl s1) else (0, 1, s1));
            post = (dot \<and> length s2 \<noteq> length (tl s1));
            u = takeWhile (\<lambda>c. \<not> num_char c) s2; s3 = dropWhile (\<lambda>c. \<not> num_char c) s2
        in if \<not> pre \<and> \<not> post then None
           else if u = [] then None
           else case map_of unitMap u of None \<Rightarrow> None
           | Some unit \<Rightarrow>
              if v > 2 ^ 63 div unit then None
              else let v2 = v * unit + (if f > 0 then FloatFraction e f scale unit else 0)
                   in if f > 0 \<and> v2 > 2 ^ 63 then None else Some (v2, s3))"

lemma leadingInt_length: "leadingInt x s = Some (v, r) \<Longrightarrow> length r \<le> length s"
  by (induction x s rule: leadingInt.induct) (auto simp: Let_def split: if_splits)

lemma leadingFraction_length: "leadingFraction x sc ov s = (f, sc', r) \<Longrightarrow> length r \<le> length s"
  by (induction x sc ov s rule: leadingFraction.induct) (auto simp: Let_def split: if_splits)

lemma dropWhile_shorter: "takeWhile P s \<noteq> [] \<Longrightarrow> length (dropWhile P s) < length s"
  by (metis append_eq_conv_conj length_append length_greater_0_conv less_add_same_cancel2 takeWhile_dropWhile_id)

lemma duration_term_shorter:
  assumes "duration_term e s = Some (v, r)"
  shows "length r < length s"
proof -
  obtain w s1 where 1: "leadingInt 0 s = Some (w, s1)"
    using assms by (auto simp: duration_term_def split: if_splits option.splits)
  let ?dot = "s1 \<noteq> [] \<and> hd s1 = CHR ''.''"
  obtain f sc s2 where 2: "(if ?dot then leadingFraction 0 1 False (tl s1) else (0, 1, s1)) = (f, sc, s2)"
    by (metis prod_cases3)
  have "takeWhile (\<lambda>c. \<not> num_char c) s2 \<noteq> []" "r = dropWhile (\<lambda>c. \<not> num_char c) s2"
    using assms 1 2 by (auto simp: duration_term_def Let_def split: if_splits option.splits)
  then have "length r < length s2" by (simp add: dropWhile_shorter)
  also have "length s2 \<le> length s1"
    using 2 leadingFraction_length [of 0 1 False "tl s1" f sc s2] by (auto split: if_splits)
  also have "length s1 \<le> length s" using 1 by (rule leadingInt_length)
  finally show ?thesis .
qed

text \<open>The accumulator is a \<^verbatim>\<open>uint64\<close>, so the sum wraps before the overflow check.\<close>

function duration_loop :: "goenv \<Rightarrow> int \<Rightarrow> string \<Rightarrow> int option" where
  "duration_loop e d s =
     (if s = [] then Some d
      else case duration_term e s of None \<Rightarrow> None
      | Some (v, r) \<Rightarrow> let d' = (d + v) mod 2 ^ 64 in if d' > 2 ^ 63 then None else duration_loop e d' r)"
  by pat_completeness auto
termination
  by (relation "measure (\<lambda>(e, d, s). length s)") (auto dest: duration_term_shorter)

declare duration_loop.simps [simp del]

definition ParseDuration :: "goenv \<Rightarrow> string \<Rightarrow> duration option" where
  "ParseDuration e s =
     (let neg = (s \<noteq> [] \<and> hd s = CHR ''-'');
          s' = (if s \<noteq> [] \<and> (hd s = CHR ''-'' \<or> hd s = CHR ''+'') then tl s else s)
      in if s' = ''0'' then Some 0
         else if s' = [] then None
         else case duration_loop e 0 s' of None \<Rightarrow> None
         | Some d \<Rightarrow> if neg then Some (- d) else if d > 2 ^ 63 - 1 then None else Some d)"

definition Duration :: "goenv \<Rightarrow> CacheControl \<Rightarrow> string \<Rightarrow> duration option" where
  "Duration e cc key = ParseDuration e (fst (cc_Get cc key) @ ''s'')"

subsection \<open>The printer\<close>

definition directive_text :: "goenv \<Rightarrow> string \<Rightarrow> string list \<Rightarrow> string" where
  "directive_text e k vals =
     (if vals = [] then k @ '', '' else concat (map (\<lambda>val. k @ ''='' @ strconv_Quote (PrintTable e) val @ '', '') vals))"

definition trim_suffix :: "string \<Rightarrow> string \<Rightarrow> string" where
  "trim_suffix s suf = (if suffix suf s then take (length s - length suf) s else s)"

definition cc_String :: "goenv \<Rightarrow> CacheControl \<Rightarrow> string" where
  "cc_String e cc =
     trim_suffix (concat (map (\<lambda>k. directive_text e k (cc_at cc k)) (sort (map_keys cc)))) '', ''"

subsection \<open>Canonical directive maps\<close>

text \<open>The parser only builds maps whose keys are distinct and lower case; on those the operations are plain map operations.\<close>

definition cc_lower :: "CacheControl \<Rightarrow> bool" where
  "cc_lower cc \<longleftrightarrow> go_map cc \<and> (\<forall>k. map_of cc k \<noteq> None \<longrightarrow> ToLower k = k)"

lemma cc_lower_Nil [simp]: "cc_lower []"
  by (simp add: cc_lower_def)

lemma fold_none:
  "(\<And>x. x \<in> set xs \<Longrightarrow> \<not> P x) \<Longrightarrow> foldl (\<lambda>a x. if P x \<and> Q a x then x else a) b xs = b"
  by (induction xs) auto

lemma lookupKey_lower:
  assumes "cc_lower cc"
  shows "lookupKey cc key = (if map_of cc (ToLower key) \<noteq> None then (ToLower key, True) else ([], False))"
proof (cases "map_of cc (ToLower key) = None")
  case False
  then show ?thesis by (simp add: lookupKey_def)
next
  case True
  have "\<not> EqualFold k key" if "k \<in> set (map_keys cc)" for k
  proof -
    have "map_of cc k \<noteq> None"
      using that by (simp add: map_keys_def map_of_eq_None_iff)
    then show ?thesis
      using assms True by (auto simp: cc_lower_def EqualFold_def)
  qed
  then have "foldl (\<lambda>found c. if EqualFold c key \<and> (found = [] \<or> c < found) then c else found) [] (map_keys cc) = []"
    by (rule fold_none)
  moreover have "map_of cc key = None"
    using assms True by (metis cc_lower_def)
  ultimately show ?thesis
    using True by (simp add: lookupKey_def Let_def)
qed

lemma Has_lower: "cc_lower cc \<Longrightarrow> Has cc key \<longleftrightarrow> map_of cc (ToLower key) \<noteq> None"
  by (simp add: Has_def lookupKey_lower)

lemma cc_Get_lower:
  "cc_lower cc \<Longrightarrow> cc_Get cc key = (case map_of cc (ToLower key) of None \<Rightarrow> ([], False)
     | Some [] \<Rightarrow> ([], True) | Some (v # _) \<Rightarrow> (v, True))"
  by (auto simp: cc_Get_def lookupKey_lower cc_at_def Let_def split: option.split list.split)

lemma cc_Add_map:
  assumes "cc_lower cc"
  shows "map_of (cc_Add cc key val) =
    (map_of cc)(ToLower key \<mapsto> cc_at cc (ToLower key) @ (if val = [] then [] else [val]))"
  using assms by (auto simp: cc_Add_def lookupKey_lower cc_at_def Let_def update_conv' fun_eq_iff)

lemma cc_Add_lower [simp]:
  assumes "cc_lower cc"
  shows "cc_lower (cc_Add cc key val)"
proof -
  have "go_map (cc_Add cc key val)"
    using assms by (auto simp: cc_Add_def cc_lower_def Let_def split: prod.split)
  then show ?thesis
    using assms unfolding cc_lower_def cc_Add_map [OF assms] by simp
qed

lemma parse_loop_lower: "cc_lower cc \<Longrightarrow> cc_lower (parse_loop cc v l s)"
  by (induction cc v l s rule: parse_loop.induct) (simp_all add: Let_def)

lemma ParseCacheControl_lower [simp]: "cc_lower (ParseCacheControl s)"
  by (simp add: ParseCacheControl_def parse_loop_lower)

lemma ParseCacheControlHeaders_lower [simp]: "cc_lower (ParseCacheControlHeaders h)"
  by (simp add: ParseCacheControlHeaders_def Let_def)

text \<open>No later text removes a directive that was already read.\<close>

lemma Has_cc_Add: "cc_lower cc \<Longrightarrow> Has (cc_Add cc key val) k \<longleftrightarrow> EqualFold k key \<or> Has cc k"
  by (auto simp: Has_lower cc_Add_map EqualFold_def)

lemma parse_loop_Has: "cc_lower cc \<Longrightarrow> Has cc k \<Longrightarrow> Has (parse_loop cc v l s) k"
  by (induction cc v l s rule: parse_loop.induct) (simp_all add: Let_def Has_cc_Add)

subsection \<open>Reading back what the printer writes\<close>

definition plain_char :: "char \<Rightarrow> bool" where
  "plain_char c \<longleftrightarrow> 0x20 \<le> code c \<and> code c < 0x7F \<and> c \<noteq> CHR 0x22 \<and> c \<noteq> CHR 0x5C"

definition token_text :: "string \<Rightarrow> bool" where
  "token_text k \<longleftrightarrow> k \<noteq> [] \<and> list_all (\<lambda>c. \<not> cc_stop c) k"

definition printable_cc :: "CacheControl \<Rightarrow> bool" where
  "printable_cc cc \<longleftrightarrow> (\<forall>k vs. map_of cc k = Some vs \<longrightarrow> token_text k \<and> (\<forall>v \<in> set vs. v \<noteq> [] \<and> list_all plain_char v))"

lemma quote_plain: "list_all plain_char v \<Longrightarrow> strconv_Quote tbl v = CHR 0x22 # v @ [CHR 0x22]"
proof -
  have "list_all plain_char v \<Longrightarrow> quote_body tbl v = v"
  proof (induction v)
    case Nil
    then show ?case by (simp add: quote_body_def)
  next
    case (Cons c v)
    then have c: "0x20 \<le> code c" "code c < 0x7F" "code c \<noteq> 0x22" "code c \<noteq> 0x5C"
      by (auto simp: plain_char_def char_code_eq simp del: of_char_eq_iff)
    then have "runes (c # v) = [c] # runes v"
      by (simp add: rune_len_def)
    with Cons c show ?case
      by (simp add: quote_body_def escape_rune_def is_print_def)
  qed
  then show "list_all plain_char v \<Longrightarrow> ?thesis" by (simp add: strconv_Quote_def)
qed

type_synonym atom = "string \<times> string option"

fun atom_text :: "goenv \<Rightarrow> atom \<Rightarrow> string" where
  "atom_text e (k, None) = k"
| "atom_text e (k, Some v) = k @ ''='' @ strconv_Quote (PrintTable e) v"

fun add_atom :: "CacheControl \<Rightarrow> atom \<Rightarrow> CacheControl" where
  "add_atom cc (k, None) = cc_Add cc k []"
| "add_atom cc (k, Some v) = cc_Add (cc_Add cc k []) k v"

fun atom_ok :: "atom \<Rightarrow> bool" where
  "atom_ok (k, None) = token_text k"
| "atom_ok (k, Some v) = (token_text k \<and> v \<noteq> [] \<and> list_all plain_char v)"

definition atoms_of :: "string \<Rightarrow> string list \<Rightarrow> atom list" where
  "atoms_of k vs = (if vs = [] then [(k, None)] else map (\<lambda>v. (k, Some v)) vs)"

lemma directive_text_atoms:
  "directive_text e k vs = concat (map (\<lambda>a. atom_text e a @ '', '') (atoms_of k vs))"
  by (simp add: directive_text_def atoms_of_def comp_def)

lemma Join_concat: "xs \<noteq> [] \<Longrightarrow> concat (map (\<lambda>x. x @ sep) xs) = Join xs sep @ sep"
  by (induction xs sep rule: Join.induct) auto

lemma parse_token:
  assumes "token_text k" and "r = [] \<or> cc_stop (hd r)"
  shows "parse_loop cc False l (k @ r) = parse_loop (cc_Add cc k []) False k r"
proof -
  obtain c k' where k: "k = c # k'" and c: "\<not> cc_stop c" and k': "list_all (\<lambda>c. \<not> cc_stop c) k'"
    using assms(1) by (cases k) (auto simp: token_text_def)
  have "takeWhile (\<lambda>x. \<not> cc_stop x) (k' @ r) = k'" "dropWhile (\<lambda>x. \<not> cc_stop x) (k' @ r) = r"
    using k' assms(2) by (auto simp: list_all_iff takeWhile_append2 dropWhile_append2 takeWhile_eq_Nil_iff
        dropWhile_eq_self_iff)
  with c show ?thesis
    by (simp add: k Let_def cc_stop_def cc_skip_def)
qed

lemma parse_sep: "parse_loop cc v l ('', '' @ r) = parse_loop cc v l r"
  by (simp add: cc_skip_def)

lemma parse_atom:
  assumes "atom_ok a" and "r = [] \<or> prefix '', '' r"
  shows "parse_loop cc False l (atom_text e a @ r) = parse_loop (add_atom cc a) False (fst a) r"
proof (cases a)
  case (Pair k ov)
  have r: "r = [] \<or> cc_stop (hd r)"
    using assms(2) by (auto simp: prefix_def cc_stop_def)
  show ?thesis
  proof (cases ov)
    case None
    with Pair assms(1) parse_token [OF _ r] show ?thesis by simp
  next
    case (Some v)
    with Pair assms(1) have k: "token_text k" and v: "v \<noteq> []" "list_all plain_char v" by auto
    have "takeWhile (\<lambda>x. x \<noteq> CHR 0x22) (v @ CHR 0x22 # r) = v"
      using v(2) by (subst takeWhile_append2) (auto simp: list_all_iff plain_char_def)
    then show ?thesis
      using v Pair Some parse_token [OF k, of "''='' @ strconv_Quote (PrintTable e) v @ r" cc l]
      by (simp add: quote_plain cc_stop_def cc_skip_def Let_def)
  qed
qed

lemma parse_atoms:
  assumes "list_all atom_ok as"
  shows "parse_loop cc False l (Join (map (atom_text e) as) '', '') = foldl add_atom cc as"
  using assms
proof (induction as arbitrary: cc l)
  case Nil
  then show ?case by simp
next
  case (Cons a as)
  show ?case
  proof (cases as)
    case Nil
    with Cons.prems parse_atom [of a "[]" cc l e] show ?thesis by simp
  next
    case (Cons b bs)
    have "parse_loop cc False l (atom_text e a @ '', '' @ Join (map (atom_text e) as) '', '')
      = parse_loop (add_atom cc a) False (fst a) ('', '' @ Join (map (atom_text e) as) '', '')"
      using \<open>list_all atom_ok (a # as)\<close> by (intro parse_atom) auto
    also have "\<dots> = foldl add_atom (add_atom cc a) as"
      using Cons.IH \<open>list_all atom_ok (a # as)\<close> by (simp only: parse_sep) simp
    finally show ?thesis by (simp add: Cons)
  qed
qed

lemma add_atom_lower [simp]: "cc_lower cc \<Longrightarrow> cc_lower (add_atom cc a)"
  by (cases a; cases "snd a") auto

lemma foldl_add_atom_lower [simp]: "cc_lower cc \<Longrightarrow> cc_lower (foldl add_atom cc as)"
  by (induction as arbitrary: cc) auto

lemma add_atoms_map:
  assumes "cc_lower cc" and "ToLower k = k" and "[] \<notin> set vs"
  shows "map_of (foldl add_atom cc (atoms_of k vs)) = (map_of cc)(k \<mapsto> cc_at cc k @ vs)"
proof -
  have *: "map_of (foldl add_atom cc (map (\<lambda>v. (k, Some v)) vs)) =
      (if vs = [] then map_of cc else (map_of cc)(k \<mapsto> cc_at cc k @ vs))"
    if "cc_lower cc" "[] \<notin> set vs" for cc vs
    using that assms(2)
    by (induction vs arbitrary: cc) (auto simp: cc_Add_map cc_at_def fun_eq_iff)
  show ?thesis
    using * [OF assms(1,3)] assms(1,2) by (simp add: atoms_of_def cc_Add_map)
qed

lemma add_all_atoms_map:
  assumes "cc_lower acc" "distinct ks" "\<forall>k \<in> set ks. ToLower k = k \<and> map_of acc k = None \<and> [] \<notin> set (f k)"
  shows "map_of (foldl add_atom acc (concat (map (\<lambda>k. atoms_of k (f k)) ks))) x =
    (if x \<in> set ks then Some (f x) else map_of acc x)"
  using assms
proof (induction ks arbitrary: acc)
  case Nil
  then show ?case by simp
next
  case (Cons k ks)
  let ?acc = "foldl add_atom acc (atoms_of k (f k))"
  have m: "map_of ?acc = (map_of acc)(k \<mapsto> f k)"
    using Cons.prems add_atoms_map [of acc k "f k"] by (simp add: cc_at_def)
  have "map_of (foldl add_atom ?acc (concat (map (\<lambda>k. atoms_of k (f k)) ks))) x =
    (if x \<in> set ks then Some (f x) else map_of ?acc x)"
    using Cons.prems m by (intro Cons.IH) auto
  with m Cons.prems show ?case by auto
qed

lemma trim_suffix_append [simp]: "trim_suffix (s @ t) t = s"
  by (simp add: trim_suffix_def suffix_def)

lemma concat_map_concat: "concat (map (\<lambda>k. concat (map f (g k))) ks) = concat (map f (concat (map g ks)))"
  by (induction ks) auto

lemma cc_String_atoms:
  assumes "cc \<noteq> []"
  shows "cc_String e cc =
    Join (map (atom_text e) (concat (map (\<lambda>k. atoms_of k (cc_at cc k)) (sort (map_keys cc))))) '', ''"
proof -
  let ?as = "concat (map (\<lambda>k. atoms_of k (cc_at cc k)) (sort (map_keys cc)))"
  have ne: "map (atom_text e) ?as \<noteq> []"
  proof -
    obtain k ks where "sort (map_keys cc) = k # ks"
      using assms by (cases "sort (map_keys cc)") (auto simp: map_keys_def dest: arg_cong [where f = set])
    then show ?thesis by (simp add: atoms_of_def)
  qed
  have "concat (map (\<lambda>k. directive_text e k (cc_at cc k)) (sort (map_keys cc)))
      = concat (map (\<lambda>x. x @ '', '') (map (atom_text e) ?as))"
    by (simp add: directive_text_atoms concat_map_concat comp_def)
  also have "\<dots> = Join (map (atom_text e) ?as) '', '' @ '', ''"
    using ne by (rule Join_concat)
  finally show ?thesis by (simp add: cc_String_def)
qed

text \<open>
  C40: printing a directive map and parsing the text gives the map back: every directive, with
  its arguments in order. It holds for the maps the parser builds (distinct lower-case names
  that are tokens) whose arguments are printable text without quotes or backslashes.
\<close>

theorem cc_roundtrip:
  assumes "cc_lower cc" "printable_cc cc"
  shows "map_of (ParseCacheControl (cc_String e cc)) = map_of cc"
proof (cases "cc = []")
  case True
  then show ?thesis
    by (simp add: cc_String_def map_keys_def trim_suffix_def ParseCacheControl_def)
next
  case False
  let ?ks = "sort (map_keys cc)"
  let ?as = "concat (map (\<lambda>k. atoms_of k (cc_at cc k)) ?ks)"
  have keys: "map_of cc k \<noteq> None" if "k \<in> set ?ks" for k
    using that by (simp add: map_keys_def map_of_eq_None_iff)
  have ok: "list_all atom_ok (atoms_of k (cc_at cc k)) \<and> [] \<notin> set (cc_at cc k) \<and> ToLower k = k"
    if k: "k \<in> set ?ks" for k
  proof -
    obtain vs where vs: "map_of cc k = Some vs" using keys [OF k] by blast
    then have "token_text k" "\<forall>v \<in> set vs. v \<noteq> [] \<and> list_all plain_char v"
      using assms(2) unfolding printable_cc_def by blast+
    moreover have "ToLower k = k" using assms(1) vs by (simp add: cc_lower_def)
    ultimately show ?thesis using vs by (auto simp: cc_at_def atoms_of_def list_all_iff)
  qed
  have "ParseCacheControl (cc_String e cc) = foldl add_atom [] ?as"
    unfolding ParseCacheControl_def cc_String_atoms [OF False]
    using ok by (intro parse_atoms) (auto simp: list_all_iff)
  moreover have "map_of (foldl add_atom [] ?as) x = map_of cc x" for x
  proof -
    have "map_of (foldl add_atom [] ?as) x = (if x \<in> set ?ks then Some (cc_at cc x) else map_of [] x)"
      using ok assms(1) by (intro add_all_atoms_map) (auto simp: cc_lower_def go_map_def map_keys_def)
    moreover have "x \<in> set ?ks \<longleftrightarrow> map_of cc x \<noteq> None"
      by (simp add: map_keys_def map_of_eq_None_iff)
    ultimately show ?thesis by (auto simp: cc_at_def)
  qed
  ultimately show ?thesis by (simp add: fun_eq_iff)
qed

lemma cc_roundtrip_witness:
  "map_of (ParseCacheControl (cc_String seconds_env
      [(''max-age'', [''60'']), (''private'', [''Set-Cookie'', ''X-Id'']), (''no-transform'', [])]))
    = map_of [(''max-age'', [''60'']), (''private'', [''Set-Cookie'', ''X-Id'']), (''no-transform'', [])]"
proof (rule cc_roundtrip)
  show "cc_lower [(''max-age'', [''60'']), (''private'', [''Set-Cookie'', ''X-Id'']), (''no-transform'', [])]"
    by (simp add: cc_lower_def go_map_def ToLower_def lower_char_def)
  show "printable_cc [(''max-age'', [''60'']), (''private'', [''Set-Cookie'', ''X-Id'']), (''no-transform'', [])]"
    by (simp add: printable_cc_def token_text_def cc_stop_def plain_char_def)
qed

lemma Has_foldl_add_atom:
  "cc_lower cc \<Longrightarrow> Has (foldl add_atom cc as) k \<longleftrightarrow> Has cc k \<or> (\<exists>a \<in> set as. EqualFold k (fst a))"
proof (induction as arbitrary: cc)
  case Nil
  then show ?case by simp
next
  case (Cons a as)
  have "Has (add_atom cc a) k \<longleftrightarrow> Has cc k \<or> EqualFold k (fst a)"
    using Cons.prems by (cases a; cases "snd a") (auto simp: Has_cc_Add)
  with Cons show ?case by auto
qed

lemma Join_append: "xs \<noteq> [] \<Longrightarrow> ys \<noteq> [] \<Longrightarrow> Join (xs @ ys) sep = Join xs sep @ sep @ Join ys sep"
  by (induction xs sep rule: Join.induct) (auto simp: neq_Nil_conv)

lemma Join_Join: "[] \<notin> set xss \<Longrightarrow> Join (map (\<lambda>xs. Join xs sep) xss) sep = Join (concat xss) sep"
proof (induction xss)
  case Nil
  then show ?case by simp
next
  case (Cons xs xss)
  then show ?case by (cases xss) (auto simp: Join_append)
qed

text \<open>
  several \<^verbatim>\<open>Cache-Control\<close> lines act as one list. When every line is a list of well-formed
  directives, a directive is recognised exactly if some line carries it, whatever the case of
  its name, of the field names and of the looked-up key, and whatever the order of the map.
\<close>

lemma directives_of_all_lines:
  assumes "field_lines h ''Cache-Control'' = map (\<lambda>as. Join (map (atom_text e) as) '', '') ass"
    and "\<forall>as \<in> set ass. as \<noteq> [] \<and> list_all atom_ok as"
  shows "Has (ParseCacheControlHeaders h) k \<longleftrightarrow> (\<exists>as \<in> set ass. \<exists>a \<in> set as. EqualFold k (fst a))"
proof -
  have "Join (field_lines h ''Cache-Control'') '', '' = Join (concat (map (map (atom_text e)) ass)) '', ''"
    unfolding assms(1) using assms(2) Join_Join [of "map (map (atom_text e)) ass" "'', ''"]
    by (auto simp: comp_def)
  then have "ParseCacheControlHeaders h = ParseCacheControl (Join (map (atom_text e) (concat ass)) '', '')"
    by (simp add: ParseCacheControlHeaders_def field_lines_def fold_keys_def Let_def map_concat)
  also have "\<dots> = foldl add_atom [] (concat ass)"
    unfolding ParseCacheControl_def using assms(2) by (intro parse_atoms) (auto simp: list_all_iff)
  finally show ?thesis
    by (simp add: Has_foldl_add_atom) (simp add: Has_lower)
qed

lemma directives_of_all_lines_witness:
  "Has (ParseCacheControlHeaders
      [(''Vary'', [''Accept'']), (''cache-control'', [''No-Store'']), (''Cache-Control'', [''public, max-age=\"60\"''])]) ''no-store''"
proof -
  let ?ass = "[[(''public'', None), (''max-age'', Some ''60'')], [(''No-Store'', None)]] :: atom list list"
  have "field_lines [(''Vary'', [''Accept'']), (''cache-control'', [''No-Store'']), (''Cache-Control'', [''public, max-age=\"60\"''])]
      ''Cache-Control'' = map (\<lambda>as. Join (map (atom_text seconds_env) as) '', '') ?ass"
    by code_simp
  moreover have "\<forall>as \<in> set ?ass. as \<noteq> [] \<and> list_all atom_ok as"
    by code_simp
  moreover have "EqualFold ''no-store'' ''No-Store''"
    by code_simp
  ultimately show ?thesis
    using directives_of_all_lines [of _ seconds_env ?ass "''no-store''"] by auto
qed

text \<open>
  Looking a directive up is insensitive to the case of its name and to Go's map iteration
  order: two header maps with the same content give the same answers for names that differ only
  in case.
\<close>

lemma directive_lookup_stable:
  assumes "go_map h" "go_map h'" "map_of h = map_of h'" "EqualFold k k'"
  shows "Has (ParseCacheControlHeaders h) k = Has (ParseCacheControlHeaders h') k'
    \<and> cc_Get (ParseCacheControlHeaders h) k = cc_Get (ParseCacheControlHeaders h') k'"
proof -
  have "ParseCacheControlHeaders h = ParseCacheControlHeaders h'"
    using field_lines_cong [OF assms(1-3), of "''Cache-Control''"]
    by (simp add: ParseCacheControlHeaders_def field_lines_def fold_keys_def Let_def)
  then show ?thesis
    using assms(4) by (simp add: Has_lower cc_Get_lower EqualFold_def)
qed

lemma directive_lookup_stable_witness:
  "Has (ParseCacheControlHeaders [(''Vary'', []), (''Cache-Control'', [''public'']), (''cache-control'', [''no-store''])]) ''NO-store''
    = Has (ParseCacheControlHeaders [(''cache-control'', [''no-store'']), (''Cache-Control'', [''public'']), (''Vary'', [])]) ''no-store''
   \<and> cc_Get (ParseCacheControlHeaders [(''Vary'', []), (''Cache-Control'', [''public'']), (''cache-control'', [''no-store''])]) ''NO-store''
    = cc_Get (ParseCacheControlHeaders [(''cache-control'', [''no-store'']), (''Cache-Control'', [''public'']), (''Vary'', [])]) ''no-store''"
proof (rule directive_lookup_stable)
  show "EqualFold ''NO-store'' ''no-store''" by code_simp
qed (auto simp: go_map_def fun_eq_iff)

subsection \<open>Delta-seconds\<close>

definition digits_from :: "int \<Rightarrow> string \<Rightarrow> int" where
  "digits_from x ds = foldl (\<lambda>n c. n * 10 + digit_val c) x ds"

lemma digits_from_ge: "0 \<le> x \<Longrightarrow> list_all is_digit ds \<Longrightarrow> x \<le> digits_from x ds"
proof (induction ds arbitrary: x)
  case Nil
  then show ?case by (simp add: digits_from_def)
next
  case (Cons c ds)
  then have "0 \<le> digit_val c" by (simp add: is_digit_def digit_val_def)
  with Cons.prems Cons.IH [of "x * 10 + digit_val c"] show ?case by (simp add: digits_from_def)
qed

lemma leadingInt_digits:
  assumes "0 \<le> x" "x \<le> 2 ^ 63" "list_all is_digit ds" "r = [] \<or> \<not> is_digit (hd r)"
  shows "leadingInt x (ds @ r) = (if digits_from x ds \<le> 2 ^ 63 then Some (digits_from x ds, r) else None)"
  using assms
proof (induction ds arbitrary: x)
  case Nil
  then show ?case by (cases r) (auto simp: digits_from_def)
next
  case (Cons c ds)
  let ?y = "x * 10 + digit_val c"
  have c: "is_digit c" "list_all is_digit ds" using Cons.prems by simp_all
  then have c': "0 \<le> digit_val c" "digit_val c \<le> 9" by (simp_all add: is_digit_def digit_val_def)
  have v: "digits_from x (c # ds) = digits_from ?y ds" by (simp add: digits_from_def)
  have ge: "?y \<le> digits_from ?y ds" using c c' Cons.prems by (intro digits_from_ge) auto
  show ?case
  proof (cases "?y \<le> 2 ^ 63")
    case True
    then show ?thesis using Cons c c' v by simp
  next
    case False
    with ge have "\<not> digits_from ?y ds \<le> 2 ^ 63" by linarith
    with False c c' v show ?thesis by simp
  qed
qed

text \<open>
  A directive whose argument is a decimal number of seconds is read as exactly that many
  seconds, up to the largest number whose nanoseconds fit an \<^verbatim>\<open>int64\<close>; every larger number is
  an error and is never read as another duration.
\<close>

lemma ParseDuration_seconds:
  assumes "0 \<le> n"
  shows "ParseDuration e (decimal n @ ''s'') = (if n \<le> 9223372036 then Some (n * 1000000000) else None)"
proof -
  have d: "decimal n \<noteq> []" "list_all is_digit (decimal n)" "digits_from 0 (decimal n) = n" "is_digit (hd (decimal n))"
    using decimal_digits [OF assms] decimal_hd [OF assms] by (simp_all add: digits_from_def digits_val_def)
  have s: "\<not> is_digit (CHR ''s'')" "\<not> num_char (CHR ''s'')"
    by (simp_all add: is_digit_def num_char_def)
  have li: "leadingInt 0 (decimal n @ ''s'') = (if n \<le> 2 ^ 63 then Some (n, ''s'') else None)"
    using leadingInt_digits [of 0 "decimal n" "''s''"] d s by simp
  have t: "duration_term e (decimal n @ ''s'') = (if n \<le> 9223372036 then Some (n * 1000000000, []) else None)"
    using d s by (simp add: duration_term_def li num_char_def Let_def unitMap_def)
  have nz: "decimal n @ ''s'' \<noteq> ''0''"
    using d(1) by (cases "decimal n") auto
  show ?thesis
    using d t nz assms
    by (simp add: ParseDuration_def Let_def duration_loop.simps is_digit_not_sign)
qed

lemma ParseDuration_seconds_witness:
  "ParseDuration seconds_env (decimal 3600 @ ''s'') = Some 3600000000000
   \<and> ParseDuration seconds_env (decimal 9223372037 @ ''s'') = None"
  using ParseDuration_seconds [of 3600] ParseDuration_seconds [of 9223372037] by simp

end
