(* ===== verification/Resource.thy ===== *)
theory Resource
  imports Cache_Control
begin

text \<open>
  \<^verbatim>\<open>src/resource.go\<close>: a response as the cache handles it, and the metadata it answers for.
  The body is its byte content; \<^verbatim>\<open>Clock()\<close> is the argument \<open>now\<close>. The memo field
  \<^verbatim>\<open>cc\<close> is read as the source reads it; of the operations here only
  \<^verbatim>\<open>RemovePrivateHeaders\<close> changes the resource after filling it. A \<^verbatim>\<open>*headerProvenance\<close> is the
  identity of the header file, on a disk cache, and the fingerprint of its bytes.
\<close>

record resource =
  RequestTime :: time
  ResponseTime :: time
  rheader :: header
  statusCode :: int
  ccMemo :: "CacheControl option"
  stale :: bool
  storedAt :: time
  storedKey :: string
  storageGeneration :: "nat option"
  storageRecord :: "(int option \<times> string) option"
  handlerStoredAt :: time
  rbody :: string

definition NewResource :: "int \<Rightarrow> string \<Rightarrow> header \<Rightarrow> resource" where
  "NewResource status b hdrs =
     \<lparr>RequestTime = 0, ResponseTime = 0, rheader = hdrs, statusCode = status, ccMemo = None,
      stale = False, storedAt = 0, storedKey = [], storageGeneration = None, storageRecord = None,
      handlerStoredAt = 0, rbody = b\<rparr>"

definition IsNonErrorStatus :: "resource \<Rightarrow> bool" where
  "IsNonErrorStatus r \<longleftrightarrow> 200 \<le> statusCode r \<and> statusCode r < 400"

definition MarkStale :: "resource \<Rightarrow> resource" where
  "MarkStale r = r\<lparr>stale := True\<rparr>"

definition markFresh :: "resource \<Rightarrow> resource" where
  "markFresh r = r\<lparr>stale := False\<rparr>"

definition cacheControl :: "resource \<Rightarrow> CacheControl" where
  "cacheControl r = (case ccMemo r of Some c \<Rightarrow> c | None \<Rightarrow> ParseCacheControlHeaders (rheader r))"

definition LastModified :: "goenv \<Rightarrow> resource \<Rightarrow> time" where
  "LastModified e r =
     (let v = Get (rheader r) ''Last-Modified''
      in if v \<noteq> [] then (case ParseTime e v of Some t \<Rightarrow> t | None \<Rightarrow> 0) else 0)"

definition Expires :: "goenv \<Rightarrow> resource \<Rightarrow> time option" where
  "Expires e r = (let v = Get (rheader r) ''Expires'' in if v \<noteq> [] then ParseTime e v else Some 0)"

definition MustValidate :: "bool \<Rightarrow> resource \<Rightarrow> bool" where
  "MustValidate shared r =
     (let cc = cacheControl r in
      if Has cc ''s-maxage'' \<and> shared then True
      else if Has cc ''must-revalidate'' \<or> (Has cc ''proxy-revalidate'' \<and> shared) then True
      else False)"

definition DateAfter :: "goenv \<Rightarrow> resource \<Rightarrow> time \<Rightarrow> bool" where
  "DateAfter e r d =
     (let v = Get (rheader r) ''Date''
      in if v \<noteq> [] then (case ParseTime e v of None \<Rightarrow> False | Some t \<Rightarrow> d < t) else False)"

definition ReceivedAfter :: "goenv \<Rightarrow> resource \<Rightarrow> time \<Rightarrow> bool" where
  "ReceivedAfter e r d =
     (if \<not> isZero (RequestTime r) then d < RequestTime r
      else case timeHeader e ''Proxy-Date'' (rheader r) of Inr t \<Rightarrow> d < t | Inl _ \<Rightarrow> DateAfter e r d)"

definition SetStoredAt :: "resource \<Rightarrow> time \<Rightarrow> resource" where
  "SetStoredAt r t = r\<lparr>storedAt := t\<rparr>"

definition StoredAfter :: "goenv \<Rightarrow> resource \<Rightarrow> time \<Rightarrow> bool" where
  "StoredAfter e r d = (if \<not> isZero (storedAt r) then d < storedAt r else ReceivedAfter e r d)"

definition Age :: "goenv \<Rightarrow> time \<Rightarrow> resource \<Rightarrow> duration option" where
  "Age e now r =
     (let age = (case intHeader ''Age'' (rheader r) of Inr n \<Rightarrow> wrap64 (second * n) | Inl _ \<Rightarrow> 0) in
      case timeHeader e ''Proxy-Date'' (rheader r) of
        Inr proxyDate \<Rightarrow> Some (wrap64 (time_sub now proxyDate + age))
      | Inl _ \<Rightarrow> (case timeHeader e ''Date'' (rheader r) of
          Inr date \<Rightarrow> Some (wrap64 (time_sub now date + age))
        | Inl _ \<Rightarrow> None))"

definition expiresValue :: "resource \<Rightarrow> string option" where
  "expiresValue r =
     (if list_ex (\<lambda>name. EqualFold name ''Expires'') (map_keys (rheader r))
      then Some (combinedHeaderValues (rheader r) ''Expires'') else None)"

definition MaxAge :: "goenv \<Rightarrow> time \<Rightarrow> bool \<Rightarrow> resource \<Rightarrow> duration option" where
  "MaxAge e now shared r =
     (let cc = cacheControl r in
      if Has cc ''s-maxage'' \<and> shared then Duration e cc ''s-maxage''
      else if Has cc ''max-age'' then Duration e cc ''max-age''
      else case expiresValue r of
        Some v \<Rightarrow> (case ParseTime e v of None \<Rightarrow> Some 0
          | Some expires \<Rightarrow>
             let date = (case timeHeader e ''Date'' (rheader r) of Inr d \<Rightarrow> d
               | Inl _ \<Rightarrow> (case timeHeader e ''Proxy-Date'' (rheader r) of Inr d \<Rightarrow> d | Inl _ \<Rightarrow> now))
             in Some (time_sub expires date))
      | None \<Rightarrow> Some 0)"

definition RemovePrivateHeaders :: "resource \<Rightarrow> resource" where
  "RemovePrivateHeaders r =
     (let cc = cacheControl r in
      r\<lparr>rheader := foldl Del (rheader r) (cc_at cc ''private''), ccMemo := Some cc\<rparr>)"

definition HasValidators :: "resource \<Rightarrow> bool" where
  "HasValidators r \<longleftrightarrow> Get (rheader r) ''Last-Modified'' \<noteq> [] \<or> Get (rheader r) ''Etag'' \<noteq> []"

definition hasExplicitExpiration :: "bool \<Rightarrow> resource \<Rightarrow> bool" where
  "hasExplicitExpiration shared r =
     (let cc = cacheControl r in
      if Has cc ''max-age'' then True
      else if shared \<and> Has cc ''s-maxage'' then True
      else expiresValue r \<noteq> None)"

definition heuristicFreshness :: "goenv \<Rightarrow> time \<Rightarrow> bool \<Rightarrow> resource \<Rightarrow> duration" where
  "heuristicFreshness e now shared r =
     (if \<not> hasExplicitExpiration shared r \<and> Get (rheader r) ''Last-Modified'' \<noteq> []
      then quot64 (time_sub now (LastModified e r)) 10 else 0)"

definition Via :: "resource \<Rightarrow> string" where
  "Via r = Join [''1.1 httpcache''] '',''"

subsection \<open>Facts\<close>

lemma header_at_foldl_Del:
  "header_at (foldl Del h ps) k = (if k \<in> CanonicalHeaderKey ` set ps then [] else header_at h k)"
  by (induction ps arbitrary: h) (auto simp: Del_def go_map_simps)

text \<open>
  the fields named by the arguments of \<^verbatim>\<open>private\<close> are removed under any spelling of their case, every
  other field keeps its lines, and the directives of the response are still those read before
  the removal, even when \<^verbatim>\<open>Cache-Control\<close> itself is removed.
\<close>

lemma private_fields_removed:
  "header_at (rheader (RemovePrivateHeaders r)) k =
     (if k \<in> CanonicalHeaderKey ` set (cc_at (cacheControl r) ''private'') then [] else header_at (rheader r) k)
   \<and> cacheControl (RemovePrivateHeaders r) = cacheControl r
   \<and> RemovePrivateHeaders (RemovePrivateHeaders r) = RemovePrivateHeaders r"
proof -
  have "foldl Del (foldl Del h ps) ps = foldl Del h ps" for h ps
  proof -
    have 1: "foldl Del h ps = filter (\<lambda>(k, _). k \<notin> CanonicalHeaderKey ` set ps) h" for h ps
    proof (induction ps arbitrary: h)
      case (Cons p ps)
      show ?case
        unfolding foldl_Cons Cons.IH by (auto simp: Del_def AList.delete_eq intro: filter_cong)
    qed simp
    show ?thesis unfolding 1 by simp
  qed
  then show ?thesis
    by (simp add: RemovePrivateHeaders_def Let_def header_at_foldl_Del cacheControl_def)
qed

end
