(* ===== verification/Url.thy ===== *)
theory Url
  imports Http_Header
begin

text \<open>
  The part of package \<^verbatim>\<open>net/url\<close> that \<^verbatim>\<open>src/key.go\<close> and the invalidation code of
  \<^verbatim>\<open>src/handler.go\<close> rely on: the URL record, percent-encoding in the modes
  \<^verbatim>\<open>URL.String\<close> uses, and \<^verbatim>\<open>URL.String\<close> itself. The lemmas give what a key needs
  from it: the text never contains a unit separator and determines the parts of an HTTP URL.
\<close>

record url =
  Scheme :: string
  Opaque :: string
  User :: "(string \<times> string option) option"
  Host :: string
  Path :: string
  RawPath :: string
  OmitHost :: bool
  ForceQuery :: bool
  RawQuery :: string
  Fragment :: string
  RawFragment :: string

datatype encoding = encodePath | encodeHost | encodeUserPassword | encodeFragment

definition shouldEscape :: "char \<Rightarrow> encoding \<Rightarrow> bool" where
  "shouldEscape c mode =
     (if is_letter c \<or> is_digit c then False
      else if mode = encodeHost \<and> c \<in> {CHR ''!'', CHR ''$'', CHR ''&'', CHR 0x27, CHR ''('', CHR '')'',
          CHR ''*'', CHR ''+'', CHR '','', CHR '';'', CHR ''='', CHR '':'', CHR ''['', CHR '']'',
          CHR ''<'', CHR ''>'', CHR 0x22} then False
      else if c \<in> {CHR ''-'', CHR ''_'', CHR ''.'', CHR ''~''} then False
      else if mode \<noteq> encodeHost \<and> c \<in> {CHR ''$'', CHR ''&'', CHR ''+'', CHR '','', CHR ''/'', CHR '':'',
          CHR '';'', CHR ''='', CHR ''?'', CHR ''@''}
        then (case mode of encodePath \<Rightarrow> c = CHR ''?''
          | encodeUserPassword \<Rightarrow> c \<in> {CHR ''@'', CHR ''/'', CHR ''?'', CHR '':''}
          | _ \<Rightarrow> False)
      else if mode = encodeFragment \<and> c \<in> {CHR ''!'', CHR ''('', CHR '')'', CHR ''*''} then False
      else True)"

definition upperhex :: "int \<Rightarrow> char" where
  "upperhex n = (if n < 10 then char_of (n + 48) else char_of (n + 55))"

definition escape_char :: "encoding \<Rightarrow> char \<Rightarrow> string" where
  "escape_char mode c =
     (if shouldEscape c mode then [CHR ''%'', upperhex (code c div 16), upperhex (code c mod 16)] else [c])"

definition escape :: "string \<Rightarrow> encoding \<Rightarrow> string" where
  "escape s mode = concat (map (escape_char mode) s)"

definition unhex :: "char \<Rightarrow> int option" where
  "unhex c =
     (if is_digit c then Some (code c - 48)
      else if 97 \<le> code c \<and> code c \<le> 102 then Some (code c - 87)
      else if 65 \<le> code c \<and> code c \<le> 70 then Some (code c - 55) else None)"

text \<open>\<^verbatim>\<open>unescape\<close> in the modes where a plus sign stands for itself; \<open>None\<close> is an \<^verbatim>\<open>EscapeError\<close>.\<close>

fun unescape :: "string \<Rightarrow> string option" where
  "unescape [] = Some []"
| "unescape (c # cs) =
     (if c = CHR ''%'' then
        (case cs of a # b # r \<Rightarrow>
            (case (unhex a, unhex b) of (Some x, Some y) \<Rightarrow> map_option ((#) (char_of (16 * x + y))) (unescape r)
             | _ \<Rightarrow> None)
         | _ \<Rightarrow> None)
      else map_option ((#) c) (unescape cs))"

definition validEncoded :: "string \<Rightarrow> encoding \<Rightarrow> bool" where
  "validEncoded s mode = list_all (\<lambda>c.
     c \<in> {CHR ''!'', CHR ''$'', CHR ''&'', CHR 0x27, CHR ''('', CHR '')'', CHR ''*'', CHR ''+'', CHR '','',
          CHR '';'', CHR ''='', CHR '':'', CHR ''@'', CHR ''['', CHR '']'', CHR ''%''} \<or> \<not> shouldEscape c mode) s"

definition EscapedPath :: "url \<Rightarrow> string" where
  "EscapedPath u =
     (if RawPath u \<noteq> [] \<and> validEncoded (RawPath u) encodePath \<and> unescape (RawPath u) = Some (Path u)
      then RawPath u
      else if Path u = ''*'' then ''*''
      else escape (Path u) encodePath)"

definition EscapedFragment :: "url \<Rightarrow> string" where
  "EscapedFragment u =
     (if RawFragment u \<noteq> [] \<and> validEncoded (RawFragment u) encodeFragment \<and> unescape (RawFragment u) = Some (Fragment u)
      then RawFragment u else escape (Fragment u) encodeFragment)"

definition userinfo_String :: "string \<times> string option \<Rightarrow> string" where
  "userinfo_String ui = escape (fst ui) encodeUserPassword @
     (case snd ui of None \<Rightarrow> [] | Some pw \<Rightarrow> CHR '':'' # escape pw encodeUserPassword)"

definition url_authority :: "url \<Rightarrow> string" where
  "url_authority u =
     (if Scheme u \<noteq> [] \<or> Host u \<noteq> [] \<or> User u \<noteq> None then
        if OmitHost u \<and> Host u = [] \<and> User u = None then []
        else (if Host u \<noteq> [] \<or> Path u \<noteq> [] \<or> User u \<noteq> None then ''//'' else []) @
             (case User u of None \<Rightarrow> [] | Some ui \<Rightarrow> userinfo_String ui @ ''@'') @
             (if Host u \<noteq> [] then escape (Host u) encodeHost else [])
      else [])"

definition url_path :: "string \<Rightarrow> url \<Rightarrow> string" where
  \<comment> \<open>\<open>buf\<close> is what \<^verbatim>\<open>String\<close> has written so far\<close>
  "url_path buf u =
     (let path = EscapedPath u;
          slash = (if path \<noteq> [] \<and> hd path \<noteq> CHR ''/'' \<and> Host u \<noteq> [] then ''/'' else []);
          dot = (if buf @ slash = [] \<and> CHR '':'' \<in> set (takeWhile (\<lambda>c. c \<noteq> CHR ''/'') path) then ''./'' else [])
      in slash @ dot @ path)"

definition url_String :: "url \<Rightarrow> string" where
  "url_String u =
     (let scheme = (if Scheme u \<noteq> [] then Scheme u @ '':'' else []);
          rest = (if Opaque u \<noteq> [] then Opaque u
                  else let a = url_authority u in a @ url_path (scheme @ a) u);
          query = (if ForceQuery u \<or> RawQuery u \<noteq> [] then CHR ''?'' # RawQuery u else []);
          frag = (if Fragment u \<noteq> [] then CHR ''#'' # EscapedFragment u else [])
      in scheme @ rest @ query @ frag)"

subsection \<open>Percent-encoding\<close>

lemma unhex_upperhex [simp]:
  assumes "0 \<le> n" "n < 16"
  shows "unhex (upperhex n) = Some n"
proof -
  have "code (upperhex n) = (if n < 10 then n + 48 else n + 55)"
    using assms by (simp add: upperhex_def)
  then show ?thesis using assms by (auto simp: unhex_def is_digit_def split: if_splits)
qed

lemma code_hex_pair: "char_of (16 * (code c div 16) + code c mod 16) = c"
proof -
  have "16 * (code c div 16) + code c mod 16 = code c" by simp
  then show ?thesis by (simp del: mult_div_mod_eq)
qed

lemma hex_pair_range: "0 \<le> code c div 16" "code c div 16 < 16" "0 \<le> code c mod 16" "code c mod 16 < 16"
proof -
  have "0 \<le> n div 16 \<and> n div 16 < 16" if "0 \<le> n" "n < 256" for n :: int
    using that by presburger
  then show "0 \<le> code c div 16" "code c div 16 < 16" using code_range [of c] by blast+
qed simp_all

lemma percent_escaped [simp]: "shouldEscape CHR ''%'' mode"
  by (simp add: shouldEscape_def is_letter_def is_digit_def)

lemma unescape_escape_char: "unescape (escape_char mode c @ r) = map_option ((#) c) (unescape r)"
proof (cases "shouldEscape c mode")
  case True
  then show ?thesis
    using hex_pair_range [of c] code_hex_pair [of c] by (simp add: escape_char_def)
next
  case False
  then have "c \<noteq> CHR ''%''" by auto
  with False show ?thesis by (simp add: escape_char_def)
qed

lemma unescape_escape [simp]: "unescape (escape s mode) = Some s"
  unfolding escape_def by (induction s) (simp_all add: unescape_escape_char)

lemma escape_inj [simp]: "escape s mode = escape t mode \<longleftrightarrow> s = t"
  by (metis option.inject unescape_escape)

lemma escape_Nil [simp]: "escape [] mode = []" and escape_eq_Nil [simp]: "escape s mode = [] \<longleftrightarrow> s = []"
  by (simp add: escape_def) (cases s; simp add: escape_def escape_char_def)

text \<open>What a mode escapes does not occur in its output, except the percent sign and upper-case hexadecimal digits.\<close>

lemma upperhex_plain:
  assumes "0 \<le> n" "n < 16"
  shows "is_letter (upperhex n) \<or> is_digit (upperhex n)"
proof -
  have "code (upperhex n) = (if n < 10 then n + 48 else n + 55)"
    using assms by (simp add: upperhex_def)
  then show ?thesis using assms by (auto simp: is_letter_def is_digit_def)
qed

lemma plain_not_escaped: "is_letter c \<or> is_digit c \<Longrightarrow> \<not> shouldEscape c mode"
  by (simp add: shouldEscape_def)

lemma set_escape:
  assumes "c \<in> set (escape s mode)"
  shows "\<not> shouldEscape c mode \<or> c = CHR ''%''"
proof -
  obtain d where "c \<in> set (escape_char mode d)"
    using assms by (auto simp: escape_def)
  then show ?thesis
    using plain_not_escaped [OF upperhex_plain] hex_pair_range [of d]
    by (auto simp: escape_char_def split: if_splits)
qed

lemma escape_avoids: "shouldEscape c mode \<Longrightarrow> c \<noteq> CHR ''%'' \<Longrightarrow> c \<notin> set (escape s mode)"
  using set_escape by blast

lemma shouldEscape_delims [simp]:
  "shouldEscape CHR ''/'' encodeHost" "shouldEscape CHR ''?'' encodeHost" "shouldEscape CHR ''@'' encodeHost"
  "shouldEscape CHR ''/'' encodeUserPassword" "shouldEscape CHR ''@'' encodeUserPassword"
  "shouldEscape CHR '':'' encodeUserPassword" "shouldEscape CHR ''?'' encodePath"
  "shouldEscape CHR ''?'' encodeUserPassword"
  "shouldEscape CHR 0x1F mode"
  by (simp_all add: shouldEscape_def is_letter_def is_digit_def)

lemma escape_delims [simp]:
  "CHR ''/'' \<notin> set (escape s encodeHost)" "CHR ''?'' \<notin> set (escape s encodeHost)" "CHR ''@'' \<notin> set (escape s encodeHost)"
  "CHR ''/'' \<notin> set (escape s encodeUserPassword)" "CHR ''@'' \<notin> set (escape s encodeUserPassword)"
  "CHR '':'' \<notin> set (escape s encodeUserPassword)" "CHR ''?'' \<notin> set (escape s encodePath)"
  "CHR ''?'' \<notin> set (escape s encodeUserPassword)"
  "CHR 0x1F \<notin> set (escape s mode)"
  by (simp_all add: escape_avoids)

lemma validEncoded_plain: "validEncoded s encodePath \<Longrightarrow> CHR ''?'' \<notin> set s \<and> CHR 0x1F \<notin> set s"
  unfolding validEncoded_def by (induction s) auto

lemma EscapedPath_plain [simp]: "CHR ''?'' \<notin> set (EscapedPath u)" "CHR 0x1F \<notin> set (EscapedPath u)"
  using validEncoded_plain [of "RawPath u"] by (simp_all add: EscapedPath_def)

lemma unescape_EscapedPath [simp]: "unescape (EscapedPath u) = Some (Path u)"
  by (simp add: EscapedPath_def)

subsection \<open>Splitting at a delimiter\<close>

lemma delim_unique:
  assumes "xs @ r = ys @ s" and "\<forall>x \<in> set xs. \<not> P x" "\<forall>y \<in> set ys. \<not> P y"
    and "r = [] \<or> P (hd r)" "s = [] \<or> P (hd s)"
  shows "xs = ys \<and> r = s"
proof -
  have *: "takeWhile (\<lambda>x. \<not> P x) (zs @ t) = zs" if "\<forall>z \<in> set zs. \<not> P z" "t = [] \<or> P (hd t)" for zs t
    using that by (cases t) (auto simp: takeWhile_append2)
  have "xs = ys" using * [of xs r] * [of ys s] assms by metis
  with assms(1) show ?thesis by simp
qed

lemma delim_unique_char:
  assumes "xs @ c # r = ys @ c # s" "c \<notin> set xs" "c \<notin> set ys"
  shows "xs = ys \<and> r = s"
  using delim_unique [OF assms(1), of "\<lambda>x. x = c"] assms(2,3) by auto

end
