(* ===== verification/Key.thy ===== *)
theory Key
  imports Quote Url
begin

text \<open>
  \<^verbatim>\<open>src/key.go\<close>: the key an entry is stored under, its text, and the selecting fields of
  \<^verbatim>\<open>Vary\<close>. A \<^verbatim>\<open>Key\<close> carries a header the source never reads; it is kept as a field.
  Of an \<^verbatim>\<open>http.Request\<close> the record \<open>request\<close> has what the sources read.
\<close>

record request =
  Method :: string
  URL :: url
  Proto :: string
  ProtoMajor :: int
  ProtoMinor :: int
  reqHost :: string
  TLS :: bool
  reqHeader :: header
  RequestURI :: string

record key =
  kmethod :: string
  kheader :: header
  ku :: url
  vary :: "string list"

definition NewKey :: "string \<Rightarrow> url \<Rightarrow> header \<Rightarrow> key" where
  "NewKey method u h = \<lparr>kmethod = method, kheader = h, ku = u, vary = []\<rparr>"

definition NewRequestKey :: "request \<Rightarrow> key" where
  "NewRequestKey r = NewKey (Method r) (URL r) (reqHeader r)"

definition ForMethod :: "key \<Rightarrow> string \<Rightarrow> key" where
  "ForMethod k method = k\<lparr>kmethod := method\<rparr>"

definition parseVary :: "string \<Rightarrow> string list" where
  "parseVary varyHeader =
     filter (\<lambda>h. h \<noteq> []) (map (\<lambda>part. CanonicalHeaderKey (TrimSpace part)) (Split CHR '','' varyHeader))"

definition varyWildcard :: "string \<Rightarrow> bool" where
  "varyWildcard varyHeader = list_ex (\<lambda>h. h = ''*'') (parseVary varyHeader)"

definition varyFieldKey :: "goenv \<Rightarrow> header \<Rightarrow> string \<Rightarrow> string" where
  "varyFieldKey e h name =
     (let keys = sort (filter (\<lambda>k. EqualFold k name) (map_keys h)) in
      if keys = [] then ''missing''
      else ''['' @ Join (concat (map (\<lambda>k. map (strconv_Quote (PrintTable e)) (header_at h k)) keys)) '','' @ '']'')"

definition key_Vary :: "goenv \<Rightarrow> key \<Rightarrow> string \<Rightarrow> request \<Rightarrow> key" where
  "key_Vary e k varyHeader r =
     k\<lparr>vary := vary k @ map (\<lambda>h. h @ ''='' @ varyFieldKey e (reqHeader r) h) (parseVary varyHeader)\<rparr>"

definition canonicalURL :: "url \<Rightarrow> url" where
  "canonicalURL u = u\<lparr>Scheme := ToLower (Scheme u), Host := ToLower (Host u), Fragment := []\<rparr>"

definition varySeparator :: string where
  "varySeparator = [CHR 0x1F]"

definition varyKeyNamespace :: string where
  "varyKeyNamespace = CHR 0x1F # ''HTTPCACHE-VARY/2'' @ [CHR 0x1F]"

definition key_String :: "goenv \<Rightarrow> key \<Rightarrow> string" where
  "key_String e k =
     (if vary k \<noteq> [] then varyKeyNamespace else []) @ kmethod k @ '':'' @ url_String (canonicalURL (ku k)) @
     concat (map (\<lambda>v. varySeparator @ strconv_Quote (PrintTable e) v) (vary k))"

subsection \<open>Request URLs\<close>

text \<open>
  The URLs that \<^verbatim>\<open>net/http\<close> puts into a request: hierarchical, in origin form or with a scheme and
  a host, the path empty or absolute, and no control byte in the parts that are written as they
  are (\<^verbatim>\<open>url.Parse\<close> rejects control bytes anywhere).
\<close>

definition http_url :: "url \<Rightarrow> bool" where
  "http_url u \<longleftrightarrow> Opaque u = [] \<and> \<not> OmitHost u
     \<and> (Scheme u = [] \<and> Host u = [] \<and> User u = None \<or> Scheme u \<noteq> [] \<and> Host u \<noteq> [])
     \<and> list_all (\<lambda>c. c \<noteq> CHR '':'' \<and> c \<noteq> CHR ''/'' \<and> c \<noteq> CHR ''?'' \<and> c \<noteq> CHR 0x1F) (Scheme u)
     \<and> (Path u = [] \<or> hd (Path u) = CHR ''/'') \<and> (RawPath u = [] \<or> hd (RawPath u) = CHR ''/'')
     \<and> CHR 0x1F \<notin> set (RawQuery u)"

lemma lower_char_delims [simp]:
  "lower_char c = CHR '':'' \<longleftrightarrow> c = CHR '':''" "lower_char c = CHR ''/'' \<longleftrightarrow> c = CHR ''/''"
  "lower_char c = CHR ''?'' \<longleftrightarrow> c = CHR ''?''" "lower_char c = CHR 0x1F \<longleftrightarrow> c = CHR 0x1F"
  by (rule lower_char_eq; simp)+

lemma ToLower_delim: "CHR '':'' \<in> set (ToLower s) \<longleftrightarrow> CHR '':'' \<in> set s" "CHR 0x1F \<in> set (ToLower s) \<longleftrightarrow> CHR 0x1F \<in> set s"
  by (metis (no_types, lifting) ToLower_def imageE image_eqI list.set_map lower_char_delims)+

lemma http_url_canonical: "http_url u \<Longrightarrow> http_url (canonicalURL u)"
  by (auto simp: http_url_def canonicalURL_def ToLower_def list_all_iff)

lemma EscapedPath_absolute: "http_url u \<Longrightarrow> EscapedPath u = [] \<or> hd (EscapedPath u) = CHR ''/''"
proof -
  have "escape (CHR ''/'' # p) encodePath = CHR ''/'' # escape p encodePath" for p
    by (simp add: escape_def escape_char_def shouldEscape_def is_letter_def is_digit_def)
  then show "http_url u \<Longrightarrow> ?thesis"
    by (cases "Path u") (auto simp: http_url_def EscapedPath_def)
qed

definition query_part :: "url \<Rightarrow> string" where
  "query_part u = (if ForceQuery u \<or> RawQuery u \<noteq> [] then CHR ''?'' # RawQuery u else [])"

definition authority_part :: "url \<Rightarrow> string" where
  "authority_part u = (case User u of None \<Rightarrow> [] | Some ui \<Rightarrow> userinfo_String ui @ ''@'') @ escape (Host u) encodeHost"

lemma url_String_http:
  assumes "http_url u"
  shows "url_String (canonicalURL u) =
    (if Scheme u = [] then [] else ToLower (Scheme u) @ ''://'' @ authority_part (canonicalURL u))
      @ EscapedPath u @ query_part u"
proof -
  have p: "EscapedPath (canonicalURL u) = EscapedPath u"
    by (simp add: EscapedPath_def canonicalURL_def)
  have q: "path = [] \<or> hd path = CHR ''/'' \<Longrightarrow> takeWhile (\<lambda>c. c \<noteq> CHR ''/'') path = []" for path
    by (cases path) auto
  show ?thesis
    using assms EscapedPath_absolute [OF assms] q [of "EscapedPath u"] p
    by (auto simp: url_String_def url_path_def url_authority_def http_url_def canonicalURL_def
        authority_part_def query_part_def Let_def)
qed

lemma userinfo_delims [simp]:
  "CHR ''/'' \<notin> set (userinfo_String ui)" "CHR ''@'' \<notin> set (userinfo_String ui)"
  "CHR 0x1F \<notin> set (userinfo_String ui)" "CHR ''?'' \<notin> set (userinfo_String ui)"
  by (auto simp: userinfo_String_def split: option.split)

lemma authority_delims [simp]: "CHR ''/'' \<notin> set (authority_part u)" "CHR 0x1F \<notin> set (authority_part u)"
  "CHR ''?'' \<notin> set (authority_part u)"
  by (auto simp: authority_part_def split: option.split)

lemma userinfo_inj:
  assumes "userinfo_String ui = userinfo_String vi"
  shows "ui = vi"
proof -
  let ?pw = "\<lambda>i. case i of None \<Rightarrow> [] | Some pw \<Rightarrow> CHR '':'' # escape pw encodeUserPassword"
  have "escape (fst ui) encodeUserPassword @ ?pw (snd ui) = escape (fst vi) encodeUserPassword @ ?pw (snd vi)"
    using assms by (simp add: userinfo_String_def)
  then have "escape (fst ui) encodeUserPassword = escape (fst vi) encodeUserPassword \<and> ?pw (snd ui) = ?pw (snd vi)"
    by (rule delim_unique [where P = "\<lambda>c. c = CHR '':''"])
      (auto split: option.split dest: escape_delims(6) [THEN notE])
  then show ?thesis
    by (auto simp: prod_eq_iff split: option.splits)
qed

lemma authority_inj:
  assumes "authority_part u = authority_part v"
  shows "User u = User v \<and> Host u = Host v"
proof (cases "User u = None \<longleftrightarrow> User v = None")
  case True
  show ?thesis
  proof (cases "User u")
    case None
    with True assms show ?thesis by (simp add: authority_part_def)
  next
    case (Some ui)
    with True obtain vi where "User v = Some vi" by auto
    with Some assms show ?thesis
      using delim_unique_char [of "userinfo_String ui" "CHR ''@''" "escape (Host u) encodeHost"
          "userinfo_String vi" "escape (Host v) encodeHost"] userinfo_inj [of ui vi]
      by (auto simp: authority_part_def)
  qed
next
  case False
  have "CHR ''@'' \<in> set (authority_part w) \<longleftrightarrow> User w \<noteq> None" for w
    by (cases "User w") (auto simp: authority_part_def)
  with False assms show ?thesis by metis
qed

lemma path_query_inj:
  assumes "EscapedPath u @ query_part u = EscapedPath v @ query_part v"
  shows "Path u = Path v \<and> RawQuery u = RawQuery v"
proof -
  have "EscapedPath u = EscapedPath v \<and> query_part u = query_part v"
    using assms
  proof (rule delim_unique [where P = "\<lambda>c. c = CHR ''?''"])
    show "\<forall>x \<in> set (EscapedPath u). x \<noteq> CHR ''?''" "\<forall>x \<in> set (EscapedPath v). x \<noteq> CHR ''?''"
      using EscapedPath_plain(1) by metis+
  qed (auto simp: query_part_def)
  then have "EscapedPath u = EscapedPath v" "query_part u = query_part v" by auto
  then show ?thesis
    using unescape_EscapedPath [of u] unescape_EscapedPath [of v]
    by (auto simp: query_part_def split: if_splits)
qed

text \<open>The parts of a request URL that its canonical text determines.\<close>

definition url_identity :: "url \<Rightarrow> string \<times> string \<times> (string \<times> string option) option \<times> string \<times> string" where
  "url_identity u = (ToLower (Scheme u), ToLower (Host u), User u, Path u, RawQuery u)"

lemma origin_form_text: "http_url u \<Longrightarrow> s = EscapedPath u @ query_part u \<Longrightarrow> s = [] \<or> hd s = CHR ''/'' \<or> hd s = CHR ''?''"
  using EscapedPath_absolute [of u] by (cases "EscapedPath u") (auto simp: query_part_def)

lemma url_text_inj:
  assumes u: "http_url u" and v: "http_url v" and eq: "url_String (canonicalURL u) = url_String (canonicalURL v)"
  shows "url_identity u = url_identity v"
proof -
  let ?pq = "\<lambda>u. EscapedPath u @ query_part u"
  have scheme: "Scheme u = [] \<or> hd (url_String (canonicalURL u)) \<notin> {CHR ''/'', CHR ''?''} \<and> url_String (canonicalURL u) \<noteq> []"
    if "http_url u" for u
    using that by (cases "Scheme u") (auto simp: url_String_http http_url_def ToLower_def)
  have same: "Scheme u = [] \<longleftrightarrow> Scheme v = []"
    using scheme [OF u] scheme [OF v] origin_form_text [OF u refl] origin_form_text [OF v refl] eq
    by (auto simp: url_String_http [OF u] url_String_http [OF v] split: if_splits)
  show ?thesis
  proof (cases "Scheme u = []")
    case True
    then have "?pq u = ?pq v"
      using eq same unfolding url_String_http [OF u] url_String_http [OF v] by simp
    moreover have "Scheme w = [] \<Longrightarrow> Host w = [] \<and> User w = None" if "http_url w" for w
      using that by (auto simp: http_url_def)
    ultimately show ?thesis
      using True same u v path_query_inj [of u v] by (simp add: url_identity_def)
  next
    case False
    have s: "CHR '':'' \<notin> set (ToLower (Scheme w))" if "http_url w" for w
      using that by (simp add: http_url_def ToLower_delim) (auto simp: list_all_iff)
    let ?rest = "\<lambda>u. ''//'' @ authority_part (canonicalURL u) @ ?pq u"
    have "ToLower (Scheme u) @ CHR '':'' # ?rest u = ToLower (Scheme v) @ CHR '':'' # ?rest v"
      using eq False same unfolding url_String_http [OF u] url_String_http [OF v] by simp
    from delim_unique_char [OF this s [OF u] s [OF v]]
    have 1: "ToLower (Scheme u) = ToLower (Scheme v) \<and> ?rest u = ?rest v" .
    have "authority_part (canonicalURL u) = authority_part (canonicalURL v) \<and> ?pq u = ?pq v"
    proof (rule delim_unique [where P = "\<lambda>c. c = CHR ''/'' \<or> c = CHR ''?''"])
      show "authority_part (canonicalURL u) @ ?pq u = authority_part (canonicalURL v) @ ?pq v"
        using 1 by simp
      show "?pq u = [] \<or> hd (?pq u) = CHR ''/'' \<or> hd (?pq u) = CHR ''?''"
        "?pq v = [] \<or> hd (?pq v) = CHR ''/'' \<or> hd (?pq v) = CHR ''?''"
        using origin_form_text [OF u refl] origin_form_text [OF v refl] .
    qed (use authority_delims in metis)+
    with 1 authority_inj [of "canonicalURL u" "canonicalURL v"] path_query_inj [of u v] show ?thesis
      by (simp add: url_identity_def canonicalURL_def)
  qed
qed

subsection \<open>Key texts\<close>

lemma vary_texts_inj:
  assumes "concat (map (\<lambda>v. varySeparator @ strconv_Quote tbl v) vs) = concat (map (\<lambda>v. varySeparator @ strconv_Quote tbl v) ws)"
  shows "vs = ws"
  using assms
proof (induction vs arbitrary: ws)
  case Nil
  then show ?case by (cases ws) (simp_all add: varySeparator_def)
next
  case (Cons v vs)
  then obtain w ws' where ws: "ws = w # ws'" by (cases ws) (simp_all add: varySeparator_def)
  with Cons show ?case
    using quote_unique [of tbl v _ w] by (simp add: varySeparator_def)
qed

lemma url_text_no_separator: "http_url u \<Longrightarrow> CHR 0x1F \<notin> set (url_String (canonicalURL u))"
  by (simp add: url_String_http http_url_def ToLower_delim query_part_def list_all_iff) blast

text \<open>
  C15: the text of a key identifies what is stored under it. Two keys of HTTP requests (a method
  that is a token, a URL as \<^verbatim>\<open>net/http\<close> parses it) have the same text only if they agree on the method,
  the scheme and host up to case, the user, the decoded path, the query and every varied
  field: a URL cannot be crafted to reproduce another entry's varied key.
\<close>

theorem key_text_identifies:
  assumes "list_all valid_field_byte (kmethod k)" "list_all valid_field_byte (kmethod k')"
    and "http_url (ku k)" "http_url (ku k')" and eq: "key_String e k = key_String e k'"
  shows "kmethod k = kmethod k' \<and> url_identity (ku k) = url_identity (ku k') \<and> vary k = vary k'"
proof -
  have tok: "\<not> valid_field_byte (CHR 0x1F)" "\<not> valid_field_byte (CHR '':'')"
    by (simp_all add: valid_field_byte_def is_letter_def is_digit_def)
  have m: "CHR '':'' \<notin> set (kmethod k)" "CHR '':'' \<notin> set (kmethod k')"
    using assms(1,2) tok(2) by (auto simp: list_all_iff)
  let ?ns = "\<lambda>k. if vary k \<noteq> [] then varyKeyNamespace else []"
  let ?v = "\<lambda>k. concat (map (\<lambda>v. varySeparator @ strconv_Quote (PrintTable e) v) (vary k))"
  let ?t = "\<lambda>k. kmethod k @ CHR '':'' # url_String (canonicalURL (ku k)) @ ?v k"
  have parts: "key_String e k = ?ns k @ ?t k" for k
    by (simp add: key_String_def)
  have hd: "hd (?t j) \<noteq> CHR 0x1F" if "list_all valid_field_byte (kmethod j)" for j
    using that tok(1) by (cases "kmethod j") auto
  have "hd (key_String e j) = CHR 0x1F \<longleftrightarrow> vary j \<noteq> []" if "list_all valid_field_byte (kmethod j)" for j
    using hd [OF that] unfolding parts by (cases "vary j") (simp_all add: varyKeyNamespace_def)
  then have "vary k = [] \<longleftrightarrow> vary k' = []"
    using eq assms(1,2) by metis
  then have "?t k = ?t k'" using eq unfolding parts by auto
  from delim_unique_char [OF this m]
  have meth: "kmethod k = kmethod k'" and
    rest: "url_String (canonicalURL (ku k)) @ ?v k = url_String (canonicalURL (ku k')) @ ?v k'" by auto
  have sep: "?v j = [] \<or> hd (?v j) = CHR 0x1F" for j
    by (cases "vary j") (simp_all add: varySeparator_def)
  have "url_String (canonicalURL (ku k)) = url_String (canonicalURL (ku k')) \<and> ?v k = ?v k'"
    using rest
  proof (rule delim_unique [where P = "\<lambda>c. c = CHR 0x1F"])
    show "\<forall>x \<in> set (url_String (canonicalURL (ku k))). x \<noteq> CHR 0x1F"
      "\<forall>x \<in> set (url_String (canonicalURL (ku k'))). x \<noteq> CHR 0x1F"
      using url_text_no_separator [OF assms(3)] url_text_no_separator [OF assms(4)] by metis+
  qed (use sep in simp_all)
  then show ?thesis
    using meth url_text_inj [OF assms(3,4)] vary_texts_inj by blast
qed

definition example_url :: "string \<Rightarrow> string \<Rightarrow> url" where
  "example_url host path = \<lparr>Scheme = ''http'', Opaque = [], User = None, Host = host, Path = path, RawPath = [],
     OmitHost = False, ForceQuery = False, RawQuery = ''q=1'', Fragment = ''top'', RawFragment = []\<rparr>"

lemma key_text_identifies_witness:
  "key_String seconds_env (NewKey ''GET'' (example_url ''Example.org'' ''/a b'') []) = ''GET:http://example.org/a%20b?q=1''
   \<and> url_identity (example_url ''Example.org'' ''/a b'') = url_identity (example_url ''EXAMPLE.org'' ''/a b'')"
proof -
  have "key_String seconds_env (NewKey ''GET'' (example_url ''Example.org'' ''/a b'') []) = ''GET:http://example.org/a%20b?q=1''"
    "key_String seconds_env (NewKey ''GET'' (example_url ''EXAMPLE.org'' ''/a b'') []) = ''GET:http://example.org/a%20b?q=1''"
    by code_simp+
  moreover have "http_url (example_url ''Example.org'' ''/a b'')" "http_url (example_url ''EXAMPLE.org'' ''/a b'')"
    by code_simp+
  moreover have "list_all valid_field_byte ''GET''" by code_simp
  ultimately show ?thesis
    using key_text_identifies [of "NewKey ''GET'' (example_url ''Example.org'' ''/a b'') []"
        "NewKey ''GET'' (example_url ''EXAMPLE.org'' ''/a b'') []" seconds_env]
    by (simp add: NewKey_def)
qed

subsection \<open>Selecting fields\<close>

lemma Join_quotes_inj:
  assumes "Join (map (strconv_Quote tbl) xs) '','' @ '']'' = Join (map (strconv_Quote tbl) ys) '','' @ '']''"
  shows "xs = ys"
  using assms
proof (induction xs arbitrary: ys)
  case Nil
  then show ?case
    by (cases ys rule: remdups_adj.cases) (simp_all add: strconv_Quote_def)
next
  case (Cons x xs)
  then obtain y ys' where ys: "ys = y # ys'"
    by (cases ys; cases xs) (simp_all add: strconv_Quote_def)
  let ?tail = "\<lambda>zs. (if zs = [] then [] else CHR '','' # Join (map (strconv_Quote tbl) zs) '','') @ '']''"
  have *: "Join (map (strconv_Quote tbl) (z # zs)) '','' @ '']'' = strconv_Quote tbl z @ ?tail zs" for z zs
    by (cases zs) simp_all
  have "x = y \<and> ?tail xs = ?tail ys'"
    using Cons.prems unfolding ys * by (rule quote_unique)
  with Cons.IH ys show ?case
    by (auto split: if_splits)
qed

lemma varyFieldKey_eq:
  "varyFieldKey e h name = (if fold_keys h name = [] then ''missing''
     else ''['' @ Join (map (strconv_Quote (PrintTable e)) (field_lines h name)) '','' @ '']'')"
  by (simp add: varyFieldKey_def fold_keys_def [symmetric] field_lines_def map_concat comp_def)

lemma varyFieldKey_inj:
  "varyFieldKey e h name = varyFieldKey e h' name \<longleftrightarrow>
     (fold_keys h name = [] \<longleftrightarrow> fold_keys h' name = []) \<and> field_lines h name = field_lines h' name"
  using Join_quotes_inj [of "PrintTable e" "field_lines h name" "field_lines h' name"]
  by (auto simp: varyFieldKey_eq field_lines_def)

text \<open>
  C39: under one \<^verbatim>\<open>Vary\<close> header, two requests for the same URL share a varied key exactly if they agree
  on every selecting field: on whether it is present and on its field lines, in order and with
  their boundaries (one line \<open>"a, b"\<close> is not two lines \<open>"a"\<close> and \<open>"b"\<close>, an empty field is not a
  missing one).
\<close>

theorem varied_key_selects:
  "key_String e (key_Vary e k v r) = key_String e (key_Vary e k v r') \<longleftrightarrow>
     (\<forall>f \<in> set (parseVary v). (fold_keys (reqHeader r) f = [] \<longleftrightarrow> fold_keys (reqHeader r') f = [])
        \<and> field_lines (reqHeader r) f = field_lines (reqHeader r') f)"
proof -
  let ?ent = "\<lambda>r. map (\<lambda>h. h @ ''='' @ varyFieldKey e (reqHeader r) h) (parseVary v)"
  have "key_String e (key_Vary e k v r) = key_String e (key_Vary e k v r') \<longleftrightarrow> ?ent r = ?ent r'"
  proof
    assume "key_String e (key_Vary e k v r) = key_String e (key_Vary e k v r')"
    then have "concat (map (\<lambda>v. varySeparator @ strconv_Quote (PrintTable e) v) (?ent r))
      = concat (map (\<lambda>v. varySeparator @ strconv_Quote (PrintTable e) v) (?ent r'))"
      by (auto simp: key_String_def key_Vary_def)
    then show "?ent r = ?ent r'" by (rule vary_texts_inj)
  next
    assume "?ent r = ?ent r'"
    then show "key_String e (key_Vary e k v r) = key_String e (key_Vary e k v r')"
      by (simp only: key_Vary_def)
  qed
  also have "\<dots> \<longleftrightarrow> (\<forall>f \<in> set (parseVary v). varyFieldKey e (reqHeader r) f = varyFieldKey e (reqHeader r') f)"
    by auto
  finally show ?thesis by (simp add: varyFieldKey_inj)
qed

definition example_request :: "header \<Rightarrow> request" where
  "example_request h = \<lparr>Method = ''GET'', URL = example_url ''example.org'' ''/a'', Proto = ''HTTP/1.1'', ProtoMajor = 1, ProtoMinor = 1,
     reqHost = ''example.org'', TLS = False, reqHeader = h, RequestURI = ''/a''\<rparr>"

lemma varied_key_selects_witness:
  "key_String seconds_env (key_Vary seconds_env (NewRequestKey (example_request [(''Accept'', [''a, b''])])) ''accept''
       (example_request [(''Accept'', [''a, b'']), (''Cookie'', [''x''])]))
   \<noteq> key_String seconds_env (key_Vary seconds_env (NewRequestKey (example_request [(''Accept'', [''a, b''])])) ''accept''
       (example_request [(''Accept'', [''a'', ''b''])]))"
proof -
  have "''Accept'' \<in> set (parseVary ''accept'')" by code_simp
  moreover have "field_lines [(''Accept'', [''a, b'']), (''Cookie'', [''x''])] ''Accept''
      \<noteq> field_lines [(''Accept'', [''a'', ''b''])] ''Accept''" by code_simp
  ultimately show ?thesis
    unfolding varied_key_selects by (auto simp: example_request_def)
qed

end
