(* ===== verification/Validator.thy ===== *)
theory Validator
  imports Resource Key
begin

text \<open>
  \<^verbatim>\<open>src/validator.go\<close>: turning a request into a conditional one, and updating a stored
  response from a 304. \<^verbatim>\<open>correctedAge\<close> of \<^verbatim>\<open>src/handler.go\<close> is here because the update uses
  it. Where the source reads \<^verbatim>\<open>Clock()\<close> several times, the readings are separate arguments.
\<close>

subsection \<open>Header generations\<close>

definition canonicalValidationHeaders :: "header \<Rightarrow> header" where
  "canonicalValidationHeaders h =
     foldl (\<lambda>canonical name. let key = CanonicalHeaderKey name
              in AList.update key (header_at canonical key @ header_at h name) canonical)
       [] (sort (map_keys h))"

definition validationHeaders :: "string list" where
  "validationHeaders = [''ETag'', ''Content-MD5'', ''Last-Modified'', ''Content-Length'', ''Content-Encoding'']"

definition headersEqual :: "header \<Rightarrow> header \<Rightarrow> bool" where
  "headersEqual h1 h2 = list_all (\<lambda>name.
     let v = Get h2 name in
     v \<noteq> [] \<longrightarrow> \<not> (Get h1 name \<noteq> v \<and> (name \<noteq> ''Content-Encoding'' \<or> \<not> EqualFold (Get h1 name) v)))
     validationHeaders"

subsection \<open>Conditional requests\<close>

definition cloneRequest :: "request \<Rightarrow> request" where
  "cloneRequest r = r"

definition varyUsesClientValidators :: "string \<Rightarrow> bool" where
  "varyUsesClientValidators v =
     list_ex (\<lambda>field. field = ''If-None-Match'' \<or> field = ''If-Modified-Since'') (parseVary v)"

definition varyChangedClientValidators :: "goenv \<Rightarrow> string \<Rightarrow> request \<Rightarrow> request \<Rightarrow> bool" where
  "varyChangedClientValidators e v original validation =
     list_ex (\<lambda>field. (field = ''If-None-Match'' \<or> field = ''If-Modified-Since'') \<and>
        varyFieldKey e (reqHeader original) field \<noteq> varyFieldKey e (reqHeader validation) field) (parseVary v)"

definition conditionalRequest :: "request \<Rightarrow> resource \<Rightarrow> request option" where
  "conditionalRequest req res =
     (if varyUsesClientValidators (combinedHeaderValues (rheader res) ''Vary'') then None
      else let outreq = cloneRequest req; headers = canonicalValidationHeaders (rheader res) in
        if Get headers ''Etag'' \<noteq> [] then
          Some (outreq\<lparr>reqHeader := Set (reqHeader outreq) ''If-None-Match'' (Get headers ''Etag'')\<rparr>)
        else if Get headers ''Last-Modified'' \<noteq> [] then
          Some (outreq\<lparr>reqHeader := Set (reqHeader outreq) ''If-Modified-Since'' (Get headers ''Last-Modified'')\<rparr>)
        else None)"

subsection \<open>Warnings\<close>

fun split_warning :: "string \<Rightarrow> bool \<Rightarrow> bool \<Rightarrow> string \<Rightarrow> string list" where
  \<comment> \<open>\<open>cur\<close> is \<open>field[start:i]\<close>\<close>
  "split_warning cur quoted escaped [] = [cur]"
| "split_warning cur quoted escaped (c # cs) =
     (if escaped then split_warning (cur @ [c]) quoted False cs
      else if quoted \<and> c = CHR 0x5C then split_warning (cur @ [c]) quoted True cs
      else if c = CHR 0x22 then split_warning (cur @ [c]) (\<not> quoted) False cs
      else if c = CHR '','' \<and> \<not> quoted then cur # split_warning [] quoted False cs
      else split_warning (cur @ [c]) quoted False cs)"

definition splitWarningValues :: "string \<Rightarrow> string list" where
  "splitWarningValues field = split_warning [] False False field"

definition isTransientWarning :: "string \<Rightarrow> bool" where
  "isTransientWarning v \<longleftrightarrow> length v \<ge> 4 \<and> v ! 0 = CHR ''1'' \<and> is_digit (v ! 1) \<and> is_digit (v ! 2)
     \<and> (v ! 3 = CHR '' '' \<or> v ! 3 = CHR 0x09)"

fun retain_warnings :: "string list \<Rightarrow> string list \<Rightarrow> string list \<times> string list" where
  \<comment> \<open>the inner loop: the values of one field, given the values seen so far\<close>
  "retain_warnings seen [] = ([], seen)"
| "retain_warnings seen (x # xs) =
     (let value = trim_by is_blank x in
      if value = [] \<or> isTransientWarning value then retain_warnings seen xs
      else if value \<in> set seen then retain_warnings seen xs
      else let (vs, seen') = retain_warnings (value # seen) xs in (value # vs, seen'))"

fun validated_loop :: "string list \<Rightarrow> string list \<Rightarrow> string list" where
  "validated_loop seen [] = []"
| "validated_loop seen (field # rest) =
     (let (retained, seen') = retain_warnings seen (splitWarningValues field)
      in (if retained \<noteq> [] then [Join retained '', ''] else []) @ validated_loop seen' rest)"

definition validatedWarningValues :: "string list \<Rightarrow> string list" where
  "validatedWarningValues lines = validated_loop [] lines"

subsection \<open>Ages\<close>

definition correctedAge :: "goenv \<Rightarrow> time \<Rightarrow> header \<Rightarrow> time \<Rightarrow> time \<Rightarrow> header_error + duration" where
  "correctedAge e now h reqTime respTime =
     (case timeHeader e ''Date'' h of Inl err \<Rightarrow> Inl err
      | Inr date \<Rightarrow>
        let apparentAge = max 0 (time_sub respTime date); respDelay = time_sub respTime reqTime in
        case intHeader ''Age'' h of Inl err \<Rightarrow> Inl err
        | Inr ageSeconds \<Rightarrow>
          let age = wrap64 (second * ageSeconds);
              corrected = max (wrap64 (age + respDelay)) apparentAge;
              residentTime = time_sub now respTime
          in Inr (wrap64 (corrected + residentTime)))"

subsection \<open>Applying a 304\<close>

definition merge_fields :: "header \<Rightarrow> header \<Rightarrow> header" where
  "merge_fields stored response =
     foldl (\<lambda>merged (name, values). if name = ''Warning'' then merged else AList.update name values merged)
       (Del stored ''Age'') response"

definition merge_warnings :: "header \<Rightarrow> header \<Rightarrow> header \<Rightarrow> header" where
  "merge_warnings stored response merged =
     (let warnings = validatedWarningValues (Values stored ''Warning'' @ Values response ''Warning'')
      in if warnings \<noteq> [] then AList.update ''Warning'' warnings merged else Del merged ''Warning'')"

definition applyValidationResponse ::
  "goenv \<Rightarrow> (time \<times> time \<times> time \<times> time) \<Rightarrow> bool \<Rightarrow> resource \<Rightarrow> int \<Rightarrow> header \<Rightarrow> time \<Rightarrow> bool \<times> resource" where
  \<comment> \<open>\<open>cancelled\<close> is \<^verbatim>\<open>req.Context().Err() != nil\<close> at the call\<close>
  "applyValidationResponse e clocks cancelled res status h t =
     (let (nowDate, nowResp, nowAge, nowProxy) = clocks;
          resHeaders = canonicalValidationHeaders (rheader res);
          responseHeaders = canonicalValidationHeaders h
      in if cancelled \<or> status \<noteq> 304 \<or> \<not> headersEqual resHeaders responseHeaders then (False, res)
         else
           let merged = merge_warnings resHeaders responseHeaders (merge_fields resHeaders responseHeaders);
               merged = (if Get responseHeaders ''Date'' = [] then Set merged ''Date'' (FormatTime e nowDate) else merged);
               merged = (case correctedAge e nowAge merged t nowResp of
                           Inr age \<Rightarrow> Set merged ''Age'' (FormatSeconds e age) | Inl _ \<Rightarrow> merged)
           in (True, res\<lparr>rheader := Set merged ''Proxy-Date'' (FormatTime e nowProxy), ccMemo := None, RequestTime := t\<rparr>))"

subsection \<open>The recording writer of \<^verbatim>\<open>Validate\<close>\<close>

record validationResponse =
  vheader :: header
  vstatus :: int

definition vr_WriteHeader :: "int \<Rightarrow> validationResponse \<Rightarrow> validationResponse" where
  "vr_WriteHeader status w = (if status < 200 \<or> vstatus w \<noteq> 0 then w else w\<lparr>vstatus := status\<rparr>)"

definition vr_Write :: "string \<Rightarrow> validationResponse \<Rightarrow> int \<times> validationResponse" where
  "vr_Write p w = (int (length p), if vstatus w = 0 then vr_WriteHeader 200 w else w)"

definition vr_Flush :: "validationResponse \<Rightarrow> validationResponse" where
  "vr_Flush w = (if vstatus w = 0 then vr_WriteHeader 200 w else w)"

text \<open>An \<^verbatim>\<open>http.Handler\<close> acts on a response writer through these calls; it edits the header map in place.\<close>

datatype writer_call = EditHeader "header \<Rightarrow> header" | WriteHeader int | Write string | is_Flush: Flush

fun vr_call :: "writer_call \<Rightarrow> validationResponse \<Rightarrow> validationResponse" where
  "vr_call (EditHeader f) w = w\<lparr>vheader := f (vheader w)\<rparr>"
| "vr_call (WriteHeader s) w = vr_WriteHeader s w"
| "vr_call (Write p) w = snd (vr_Write p w)"
| "vr_call Flush w = vr_Flush w"

definition Validate ::
  "(request \<Rightarrow> writer_call list) \<Rightarrow> goenv \<Rightarrow> time \<Rightarrow> (time \<times> time \<times> time \<times> time) \<Rightarrow> bool \<Rightarrow> bool
    \<Rightarrow> request \<Rightarrow> resource \<Rightarrow> bool \<times> resource" where
  \<comment> \<open>the context can be cancelled before the call and again while the handler runs\<close>
  "Validate handler e t clocks cancelled cancelledAfter req res =
     (if cancelled then (False, res)
      else case conditionalRequest req res of None \<Rightarrow> (False, res)
      | Some outreq \<Rightarrow>
        let resp = foldl (\<lambda>w c. vr_call c w) \<lparr>vheader = [], vstatus = 0\<rparr> (handler outreq)
        in applyValidationResponse e clocks cancelledAfter res (vstatus resp) (vheader resp) t)"

subsection \<open>Canonical header generations\<close>

lemma header_at_None: "map_of h k = None \<Longrightarrow> header_at h k = []"
  by (simp add: header_at_def)

lemma canonical_fold:
  fixes acc h :: header
  defines "step \<equiv> \<lambda>c name. let key = CanonicalHeaderKey name in AList.update key (header_at c key @ header_at h name) c"
  shows "go_map acc \<Longrightarrow> go_map (foldl step acc ns)"
    and "header_at (foldl step acc ns) k = header_at acc k @ concat (map (header_at h) (filter (\<lambda>n. CanonicalHeaderKey n = k) ns))"
    and "map_of (foldl step acc ns) k \<noteq> None \<longleftrightarrow> map_of acc k \<noteq> None \<or> (\<exists>n \<in> set ns. CanonicalHeaderKey n = k)"
  by (induction ns arbitrary: acc) (auto simp: step_def Let_def go_map_simps)

lemma go_map_canonical [simp]: "go_map (canonicalValidationHeaders h)"
  by (simp add: canonicalValidationHeaders_def canonical_fold(1))

lemma header_at_canonical:
  "header_at (canonicalValidationHeaders h) k =
     concat (map (header_at h) (filter (\<lambda>n. CanonicalHeaderKey n = k) (sort (map_keys h))))"
  unfolding canonicalValidationHeaders_def canonical_fold(2) by (simp add: header_at_None)

lemma canonical_keys:
  "map_of (canonicalValidationHeaders h) k \<noteq> None \<longleftrightarrow> (\<exists>n \<in> fst ` set h. CanonicalHeaderKey n = k)"
  unfolding canonicalValidationHeaders_def canonical_fold(3) by (auto simp: map_keys_def)

lemma canonical_key_fixed: "map_of (canonicalValidationHeaders h) k \<noteq> None \<Longrightarrow> CanonicalHeaderKey k = k"
  unfolding canonical_keys by auto

lemma merge_fold:
  assumes "go_map response"
  shows "header_at (foldl (\<lambda>m (n, vs). if n = w then m else AList.update n vs m) acc response) k =
    (if k \<noteq> w \<and> map_of response k \<noteq> None then header_at response k else header_at acc k)"
  using assms
proof (induction response arbitrary: acc)
  case Nil
  then show ?case by simp
next
  case (Cons a r)
  obtain n vs where a: "a = (n, vs)" by (cases a)
  with Cons.prems have g: "go_map r" and n: "map_of r n = None"
    by (auto simp: go_map_def map_of_eq_None_iff)
  have "header_at (a # r) k = (if k = n then vs else header_at r k)"
    by (simp add: a header_at_def)
  with Cons.IH [OF g] n show ?case by (auto simp: a go_map_simps)
qed

lemma header_at_Set: "header_at (Set h k v) k' = (if k' = CanonicalHeaderKey k then [v] else header_at h k')"
  by (simp add: Set_def go_map_simps)

lemma header_at_Del: "header_at (Del h k) k' = (if k' = CanonicalHeaderKey k then [] else header_at h k')"
  by (simp add: Del_def go_map_simps)

lemma canonical_names [simp]:
  "CanonicalHeaderKey ''Age'' = ''Age''" "CanonicalHeaderKey ''Date'' = ''Date''"
  "CanonicalHeaderKey ''Warning'' = ''Warning''" "CanonicalHeaderKey ''Proxy-Date'' = ''Proxy-Date''"
  "CanonicalHeaderKey ''ETag'' = ''Etag''" "CanonicalHeaderKey ''Etag'' = ''Etag''"
  "CanonicalHeaderKey ''Last-Modified'' = ''Last-Modified''"
  "CanonicalHeaderKey ''If-None-Match'' = ''If-None-Match''"
  "CanonicalHeaderKey ''If-Modified-Since'' = ''If-Modified-Since''"
  by code_simp+

lemma header_at_merge_fields:
  assumes "go_map response"
  shows "header_at (merge_fields stored response) k =
    (if k \<noteq> ''Warning'' \<and> map_of response k \<noteq> None then header_at response k
     else if k = ''Age'' then [] else header_at stored k)"
  by (simp add: merge_fields_def merge_fold [OF assms] header_at_Del)

lemma header_at_merge_warnings:
  "header_at (merge_warnings stored response m) k =
     (if k = ''Warning'' then validatedWarningValues (header_at stored ''Warning'' @ header_at response ''Warning'')
      else header_at m k)"
  by (simp add: merge_warnings_def Let_def go_map_simps Del_def Values_def)

lemma correctedAge_no_age: "Get h ''Age'' = [] \<Longrightarrow> \<exists>x. correctedAge e now h reqTime respTime = Inl x"
  by (simp add: correctedAge_def intHeader_def Let_def split: sum.split)

subsection \<open>What a 304 does to the stored response\<close>


definition example_resource :: "header \<Rightarrow> resource" where
  "example_resource h = NewResource 200 ''body'' h"


subsection \<open>Warnings after a validation\<close>

text \<open>The scanner's state after a text: inside a quoted string, after a backslash there.\<close>

fun wstate :: "bool \<times> bool \<Rightarrow> string \<Rightarrow> bool \<times> bool" where
  "wstate st [] = st"
| "wstate (q, es) (c # cs) = wstate
     (if es then (q, False) else if q \<and> c = CHR 0x5C then (q, True) else if c = CHR 0x22 then (\<not> q, False) else (q, False)) cs"

fun no_comma :: "bool \<times> bool \<Rightarrow> string \<Rightarrow> bool" where
  "no_comma st [] = True"
| "no_comma (q, es) (c # cs) =
     ((es \<or> q \<or> c \<noteq> CHR '','') \<and> no_comma (wstate (q, es) [c]) cs)"

lemma wstate_append [simp]: "wstate st (s @ t) = wstate (wstate st s) t"
  by (induction s arbitrary: st) (simp, case_tac st, simp)

lemma no_comma_append [simp]: "no_comma st (s @ t) \<longleftrightarrow> no_comma st s \<and> no_comma (wstate st s) t"
  by (induction s arbitrary: st) (simp, case_tac st, simp)

lemma split_no_comma: "no_comma (q, es) s \<Longrightarrow> wstate (q, es) s = (q', es') \<Longrightarrow>
    split_warning cur q es (s @ t) = split_warning (cur @ s) q' es' t"
  by (induction s arbitrary: cur q es) (auto split: if_splits)

text \<open>Values that can stand in one list: all but the last leave no quoted string open.\<close>

fun listable :: "string list \<Rightarrow> bool" where
  "listable [] = True"
| "listable (v # vs) = (no_comma (False, False) v \<and> (vs \<noteq> [] \<longrightarrow> wstate (False, False) v = (False, False)) \<and> listable vs)"

lemma split_listable_aux:
  assumes "no_comma (False, False) cur" "wstate (False, False) cur = (q, es)" "es \<longrightarrow> q"
  shows "listable (split_warning cur q es s)"
  using assms
proof (induction cur q es s rule: split_warning.induct)
  case (1 cur q es)
  then show ?case by simp
next
  case (2 cur q es c cs)
  then show ?case by (cases q; cases es) (auto)
qed

lemma split_listable: "listable (splitWarningValues s)"
  by (simp add: splitWarningValues_def split_listable_aux)

lemma wstate_blanks: "list_all is_blank b \<Longrightarrow> b \<noteq> [] \<Longrightarrow> wstate (q, es) b = (q, False)"
proof (induction b arbitrary: es)
  case Nil
  then show ?case by simp
next
  case (Cons c b)
  then have c: "c \<noteq> CHR 0x22" "c \<noteq> CHR 0x5C" by (auto simp: is_blank_def)
  with Cons show ?case by (cases "b = []") auto
qed

lemma wstate_escape: "wstate (q, es) s = (q', es') \<Longrightarrow> (es \<longrightarrow> q) \<Longrightarrow> es' \<longrightarrow> q'"
  by (induction s arbitrary: q es) (auto split: if_splits)

lemma trim_by_decomp: "\<exists>a b. s = a @ trim_by P s @ b \<and> list_all P a \<and> list_all P b"
proof -
  let ?a = "takeWhile P s" and ?u = "dropWhile P s"
  have "?u = trim_by P s @ rev (takeWhile P (rev ?u))"
    by (metis rev_append rev_rev_ident takeWhile_dropWhile_id trim_by_def)
  then have "s = ?a @ trim_by P s @ rev (takeWhile P (rev ?u))"
    by (metis takeWhile_dropWhile_id)
  moreover have "list_all P ?a" "list_all P (rev (takeWhile P (rev ?u)))"
    by (auto simp: list_all_iff dest: set_takeWhileD)
  ultimately show ?thesis by blast
qed

lemma trim_scan:
  assumes "no_comma (False, False) v"
  shows "no_comma (False, False) (trim_by is_blank v)"
    and "wstate (False, False) v = (False, False) \<Longrightarrow> wstate (False, False) (trim_by is_blank v) = (False, False)"
proof -
  obtain a b where v: "v = a @ trim_by is_blank v @ b" and ab: "list_all is_blank a" "list_all is_blank b"
    using trim_by_decomp by blast
  have a: "wstate (False, False) a = (False, False)"
    using wstate_blanks [OF ab(1)] by (cases "a = []") auto
  have "no_comma (False, False) (a @ trim_by is_blank v @ b)" using assms v by simp
  with a show "no_comma (False, False) (trim_by is_blank v)" by simp
  obtain q es where st: "wstate (False, False) (trim_by is_blank v) = (q, es)" by (rule prod.exhaust)
  assume "wstate (False, False) v = (False, False)"
  then have "wstate (q, es) b = (False, False)"
    using v a st by (metis wstate_append)
  then show "wstate (False, False) (trim_by is_blank v) = (False, False)"
    using st wstate_blanks [OF ab(2)] wstate_escape [OF st] by (cases "b = []") auto
qed

lemma retain_listable:
  "listable xs \<Longrightarrow> listable (fst (retain_warnings seen xs)) \<and> (fst (retain_warnings seen xs) \<noteq> [] \<longrightarrow> xs \<noteq> [])"
proof (induction seen xs rule: retain_warnings.induct)
  case (1 seen)
  then show ?case by simp
next
  case (2 seen x xs)
  then show ?case
    using trim_scan [of x] by (auto simp: Let_def split: prod.split)
qed

definition listed :: "string \<Rightarrow> string list" where
  "listed field = filter (\<lambda>v. v \<noteq> []) (map (trim_by is_blank) (splitWarningValues field))"

lemma blank_char [simp]: "is_blank CHR '' ''" "\<not> is_blank CHR '',''"
  by (simp_all add: is_blank_def)

lemma trim_blank_Cons: "trim_by is_blank (CHR '' '' # v) = trim_by is_blank v"
  by (simp add: trim_by_def)

lemma split_Join:
  assumes "listable vs" "vs \<noteq> []"
  shows "map (trim_by is_blank) (split_warning cur False False (Join vs '', '')) =
    trim_by is_blank (cur @ hd vs) # map (trim_by is_blank) (tl vs)"
  using assms
proof (induction vs arbitrary: cur)
  case Nil
  then show ?case by simp
next
  case (Cons v vs)
  show ?case
  proof (cases vs)
    case Nil
    obtain q es where "wstate (False, False) v = (q, es)" by (rule prod.exhaust)
    with Cons.prems Nil show ?thesis
      using split_no_comma [of False False v q es cur "[]"] by simp
  next
    case (Cons w ws)
    have "split_warning cur False False (v @ '', '' @ Join vs '', '') =
        (cur @ v) # split_warning '' '' False False (Join vs '', '')"
      using Cons Cons.prems \<open>listable (v # vs)\<close>
        split_no_comma [of False False v False False cur "'', '' @ Join vs '', ''"] by simp
    moreover have "map (trim_by is_blank) (split_warning '' '' False False (Join vs '', '')) =
        trim_by is_blank ('' '' @ hd vs) # map (trim_by is_blank) (tl vs)"
      using Cons \<open>listable (v # vs)\<close> by (intro Cons.IH) auto
    ultimately show ?thesis using Cons by (simp add: trim_blank_Cons)
  qed
qed

lemma trim_by_idem [simp]: "trim_by P (trim_by P s) = trim_by P s"
proof (rule trim_by_id)
  define u where "u = dropWhile P s"
  define w where "w = dropWhile P (rev u)"
  have t: "trim_by P s = rev w" by (simp add: trim_by_def u_def w_def)
  show "trim_by P s = [] \<or> \<not> P (hd (trim_by P s)) \<and> \<not> P (last (trim_by P s))"
  proof (cases "w = []")
    case True
    then show ?thesis by (simp add: t)
  next
    case False
    have "rev u = takeWhile P (rev u) @ w" by (simp add: w_def)
    then have "last (rev u) = last w" using False by (metis last_appendR)
    then have "last w = hd u" by (simp add: last_rev)
    moreover have "\<not> P (hd w)" using False hd_dropWhile [of P "rev u"] by (simp add: w_def)
    moreover have "u \<noteq> []" using False by (auto simp: w_def)
    then have "\<not> P (hd u)" using hd_dropWhile [of P s] by (simp add: u_def)
    ultimately show ?thesis by (simp add: t hd_rev last_rev)
  qed
qed

text \<open>The first occurrence of each element, in order, of those not seen before.\<close>

fun firsts :: "'a list \<Rightarrow> 'a list \<Rightarrow> 'a list" where
  "firsts seen [] = []"
| "firsts seen (x # xs) = (if x \<in> set seen then firsts seen xs else x # firsts (x # seen) xs)"

lemma firsts_append: "firsts seen (xs @ ys) = firsts seen xs @ firsts (rev (firsts seen xs) @ seen) ys"
  by (induction seen xs rule: firsts.induct) auto

lemma firsts_cong: "set seen = set seen' \<Longrightarrow> firsts seen xs = firsts seen' xs"
  by (induction xs arbitrary: seen seen') (simp, metis firsts.simps(2) list.simps(15))

lemma firsts_set: "set (firsts seen xs) = set xs - set seen" and firsts_distinct: "distinct (firsts seen xs)"
  by (induction seen xs rule: firsts.induct) (auto simp: insert_Diff_if)

abbreviation persistent :: "string list \<Rightarrow> string list" where
  "persistent vs \<equiv> filter (\<lambda>v. \<not> isTransientWarning v) vs"

lemma retain_eq:
  "retain_warnings seen xs =
     (let new = firsts seen (persistent (filter (\<lambda>v. v \<noteq> []) (map (trim_by is_blank) xs))) in (new, rev new @ seen))"
  by (induction seen xs rule: retain_warnings.induct) (auto simp: Let_def)

lemma listed_Join:
  assumes "listable vs" "vs \<noteq> []" "\<forall>v \<in> set vs. v \<noteq> [] \<and> trim_by is_blank v = v"
  shows "listed (Join vs '', '') = vs"
proof -
  have "map (trim_by is_blank) (splitWarningValues (Join vs '', '')) = vs"
    using split_Join [OF assms(1,2), of "[]"] assms(2,3)
    by (cases vs) (auto simp: splitWarningValues_def intro: map_idI)
  then show ?thesis using assms(3) by (simp add: listed_def)
qed

lemma listed_retained:
  assumes "fst (retain_warnings seen (splitWarningValues field)) = new" "new \<noteq> []"
  shows "listed (Join new '', '') = new"
proof (rule listed_Join)
  show "listable new" using retain_listable [OF split_listable] assms(1) by blast
  show "\<forall>v \<in> set new. v \<noteq> [] \<and> trim_by is_blank v = v"
    using assms(1) by (auto simp: retain_eq Let_def firsts_set)
qed (rule assms(2))

lemma validated_loop_listed:
  "concat (map listed (validated_loop seen ws)) = firsts seen (persistent (concat (map listed ws)))"
proof (induction ws arbitrary: seen)
  case Nil
  then show ?case by simp
next
  case (Cons w ws)
  let ?new = "firsts seen (persistent (listed w))"
  have r: "retain_warnings seen (splitWarningValues w) = (?new, rev ?new @ seen)"
    by (simp add: retain_eq listed_def Let_def)
  have "listed (Join ?new '', '') = ?new" if "?new \<noteq> []"
    using that listed_retained [of seen w ?new] r by simp
  with Cons.IH [of "rev ?new @ seen"] show ?case
    by (simp add: r firsts_append)
qed

text \<open>
  After a validation the stored warnings are exactly the persistent (not 1xx) warnings of the
  stored and the new lines, each once and in order, with their quoted text intact: reading the
  stored lines again gives that list. So validating again with warnings already stored changes
  nothing, however often it happens.
\<close>

lemma warnings_after_validation:
  "concat (map listed (validatedWarningValues ws)) = firsts [] (persistent (concat (map listed ws)))
   \<and> (set (persistent (concat (map listed gs))) \<subseteq> set (persistent (concat (map listed ws))) \<longrightarrow>
      concat (map listed (validatedWarningValues (validatedWarningValues ws @ gs))) = concat (map listed (validatedWarningValues ws)))"
proof -
  let ?p = "\<lambda>ws. persistent (concat (map listed ws))"
  have 1: "concat (map listed (validatedWarningValues ws)) = firsts [] (?p ws)" for ws
    by (simp add: validatedWarningValues_def validated_loop_listed)
  have new: "persistent (firsts [] (?p ws)) = firsts [] (?p ws)"
    by (auto simp: filter_id_conv firsts_set)
  have idem: "firsts seen xs = xs" if "distinct xs" "set xs \<inter> set seen = {}" for seen and xs :: "string list"
    using that by (induction seen xs rule: firsts.induct) auto
  have none: "firsts seen xs = []" if "set xs \<subseteq> set seen" for seen and xs :: "string list"
    using firsts_set [of seen xs] that by (metis Diff_eq_empty_iff set_empty)
  show ?thesis
    by (simp add: 1 new firsts_append idem firsts_distinct none firsts_set)
qed

lemma warnings_after_validation_witness:
  "concat (map listed (validatedWarningValues (validatedWarningValues [''214 a \"x, y\", 110 b \"stale\"''] @ [''214 a \"x, y\"''])))
    = [''214 a \"x, y\"'']"
proof -
  have "set (persistent (concat (map listed [''214 a \"x, y\"'']))) \<subseteq>
      set (persistent (concat (map listed [''214 a \"x, y\", 110 b \"stale\"''])))" by code_simp
  moreover have "concat (map listed (validatedWarningValues [''214 a \"x, y\", 110 b \"stale\"''])) = [''214 a \"x, y\"'']"
    by code_simp
  ultimately show ?thesis
    using warnings_after_validation [of "[''214 a \"x, y\", 110 b \"stale\"'']" "[''214 a \"x, y\"'']"] by simp
qed

end
