(* ===== verification/Policy.thy ===== *)
theory Policy
  imports Validator
begin

text \<open>
  The decisions of \<^verbatim>\<open>src/handler.go\<close> that depend only on a request and a response: which
  responses are stored, how long they are fresh, when they need validation. \<open>shared\<close> is the
  handler's \<^verbatim>\<open>Shared\<close> field. A decision reads the clock several times; the readings are a tuple
  of arguments, in the order of the calls (for the expiration, the age, the heuristic).
\<close>

record cacheRequest =
  Request :: request
  rKey :: key
  rTime :: time
  rCC :: CacheControl
  discoveryKey :: string
  servedKey :: string

datatype request_error = ErrEmptyHost

definition newCacheRequest :: "time \<Rightarrow> request \<Rightarrow> request_error + cacheRequest" where
  "newCacheRequest now r =
     (if Proto r = ''HTTP/1.1'' \<and> reqHost r = [] then Inl ErrEmptyHost
      else Inr \<lparr>Request = r, rKey = NewRequestKey r, rTime = now, rCC = ParseCacheControlHeaders (reqHeader r),
                discoveryKey = [], servedKey = []\<rparr>)"

subsection \<open>Requests\<close>

definition isStateChanging :: "cacheRequest \<Rightarrow> bool" where
  "isStateChanging r \<longleftrightarrow> Method (Request r) \<notin> {''GET'', ''HEAD'', ''OPTIONS'', ''TRACE''}"

definition request_isCacheable :: "cacheRequest \<Rightarrow> bool" where
  "request_isCacheable r =
     (let h = reqHeader (Request r) in
      if Method (Request r) \<noteq> ''GET'' \<and> Method (Request r) \<noteq> ''HEAD'' then False
      else if Get h ''If-Match'' \<noteq> [] \<or> Get h ''If-Unmodified-Since'' \<noteq> [] \<or> Get h ''If-Range'' \<noteq> [] then False
      else if cc_Get (rCC r) ''max-age'' = (''0'', True) then False
      else if Has (rCC r) ''no-store'' \<or> Has (rCC r) ''no-cache'' then False
      else True)"

subsection \<open>Freshness\<close>

type_synonym clocks = "time \<times> time \<times> time"

definition freshness :: "goenv \<Rightarrow> clocks \<Rightarrow> bool \<Rightarrow> resource \<Rightarrow> cacheRequest \<Rightarrow> duration option" where
  "freshness e clk shared res r =
     (let (nowMax, nowAge, nowHeur) = clk in
      case MaxAge e nowMax shared res of None \<Rightarrow> None
      | Some maxAge \<Rightarrow>
        case (if Has (rCC r) ''max-age'' then map_option (\<lambda>reqMaxAge. min reqMaxAge maxAge) (Duration e (rCC r) ''max-age'')
              else Some maxAge) of None \<Rightarrow> None
        | Some maxAge \<Rightarrow>
          case Age e nowAge res of None \<Rightarrow> None
          | Some age \<Rightarrow>
            if stale res then Some 0
            else let hFresh = heuristicFreshness e nowHeur shared res
                 in Some (wrap64 ((if hFresh > maxAge then hFresh else maxAge) - age)))"

definition needsValidation :: "goenv \<Rightarrow> clocks \<Rightarrow> bool \<Rightarrow> resource \<Rightarrow> cacheRequest \<Rightarrow> bool" where
  "needsValidation e clk shared res r =
     (if stale res then True
      else case freshness e clk shared res r of None \<Rightarrow> True
      | Some f \<Rightarrow>
        if f \<le> 0 \<and> MustValidate shared res then True
        else
          let minFreshFails = (Has (rCC r) ''min-fresh'' \<and>
                (case Duration e (rCC r) ''min-fresh'' of None \<Rightarrow> True | Some m \<Rightarrow> f < m)) in
          if minFreshFails then True
          else if f \<le> 0 \<and> Has (rCC r) ''max-stale'' then
            (if cc_at (rCC r) ''max-stale'' = [] then False
             else let maxStale = (case Duration e (rCC r) ''max-stale'' of None \<Rightarrow> 0 | Some d \<Rightarrow> d)
                  in if maxStale \<ge> wrap64 (f * -1) then False else f \<le> 0)
          else f \<le> 0)"

subsection \<open>Storage\<close>

definition storeable :: "int list" where
  "storeable = [200, 302, 203, 300, 301, 410, 404]"

definition cacheableByDefault :: "int list" where
  "cacheableByDefault = [200, 302, 304, 203, 300, 301, 410, 206]"

definition allowsAuthenticatedStorage :: "bool \<Rightarrow> resource \<Rightarrow> cacheRequest \<Rightarrow> CacheControl \<Rightarrow> bool" where
  "allowsAuthenticatedStorage shared res r cc =
     (if \<not> shared then True
      else if Get (reqHeader (Request r)) ''Authorization'' \<noteq> [] \<and> \<not> Has cc ''public'' \<and> \<not> Has cc ''s-maxage'' then False
      else Get (rheader res) ''Authorization'' = [] \<or> Has cc ''must-revalidate'' \<or> Has cc ''s-maxage'')"

definition allowsResponseStorage :: "bool \<Rightarrow> resource \<Rightarrow> cacheRequest \<Rightarrow> CacheControl \<Rightarrow> bool" where
  "allowsResponseStorage shared res r cc =
     (if Has cc ''no-cache'' \<or> Has cc ''no-store'' then False
      else if varyWildcard (combinedHeaderValues (rheader res) ''Vary'') then False
      else if Has cc ''private'' \<and> cc_at cc ''private'' = [] \<and> shared then False
      else if statusCode res \<notin> set storeable then False
      else allowsAuthenticatedStorage shared res r cc)"

definition isCacheable :: "goenv \<Rightarrow> time \<Rightarrow> time \<Rightarrow> bool \<Rightarrow> resource \<Rightarrow> cacheRequest \<Rightarrow> bool" where
  "isCacheable e nowMax nowHeur shared res r =
     (let cc = cacheControl res in
      if \<not> allowsResponseStorage shared res r cc then False
      else if hasExplicitExpiration shared res then
        (case MaxAge e nowMax shared res of None \<Rightarrow> False | Some maxAge \<Rightarrow> maxAge > 0 \<or> HasValidators res)
      else if statusCode res \<notin> set cacheableByDefault \<and> \<not> Has cc ''public'' then False
      else HasValidators res \<or> heuristicFreshness e nowHeur shared res > 0)"

definition canConveyStaging :: "request \<Rightarrow> int \<Rightarrow> bool" where
  "canConveyStaging req status \<longleftrightarrow>
     (ProtoMajor req > 1 \<or> ProtoMajor req = 1 \<and> ProtoMinor req \<ge> 1) \<and> Method req \<noteq> ''HEAD''
     \<and> status \<ge> 200 \<and> status \<noteq> 204 \<and> status \<noteq> 205 \<and> status \<noteq> 304"

definition canStageResponse :: "goenv \<Rightarrow> time \<Rightarrow> time \<Rightarrow> bool \<Rightarrow> bool \<Rightarrow> resource \<Rightarrow> cacheRequest \<Rightarrow> bool" where
  "canStageResponse e nowMax nowHeur shared hasBudget res r \<longleftrightarrow>
     (\<not> hasBudget \<or> canConveyStaging (Request r) (statusCode res)) \<and> isCacheable e nowMax nowHeur shared res r"

subsection \<open>Validation keys and replacement policies\<close>

fun compact :: "'a list \<Rightarrow> 'a list" where
  \<comment> \<open>\<^verbatim>\<open>slices.Compact\<close>\<close>
  "compact (x # y # zs) = (if x = y then compact (y # zs) else x # compact (y # zs))"
| "compact xs = xs"

definition sameVaryFields :: "string \<Rightarrow> string \<Rightarrow> bool" where
  "sameVaryFields v1 v2 \<longleftrightarrow> compact (sort (parseVary v1)) = compact (sort (parseVary v2))"

definition validationKeys :: "goenv \<Rightarrow> cacheRequest \<Rightarrow> string list" where
  "validationKeys e r =
     (let keys = [key_String e (rKey r)];
          keys = (if discoveryKey r \<noteq> [] \<and> discoveryKey r \<noteq> keys ! 0 then keys @ [discoveryKey r] else keys)
      in if servedKey r \<noteq> [] \<and> servedKey r \<notin> set keys then keys @ [servedKey r] else keys)"

definition validationResourceKey :: "goenv \<Rightarrow> cacheRequest \<Rightarrow> string" where
  "validationResourceKey e r =
     (if servedKey r \<noteq> [] then servedKey r else if discoveryKey r \<noteq> [] then discoveryKey r else key_String e (rKey r))"

definition fullResponseVaryChanged ::
  "goenv \<Rightarrow> time \<Rightarrow> time \<Rightarrow> bool \<Rightarrow> cacheRequest \<Rightarrow> int \<Rightarrow> header \<Rightarrow> header \<Rightarrow> bool" where
  "fullResponseVaryChanged e nowMax nowHeur shared req status previous replacement =
     (if sameVaryFields (combinedHeaderValues previous ''Vary'') (combinedHeaderValues replacement ''Vary'') then False
      else isCacheable e nowMax nowHeur shared (NewResource status [] replacement) req)"

definition retryOriginalPreconditions :: "int \<Rightarrow> request \<Rightarrow> request \<Rightarrow> bool" where
  "retryOriginalPreconditions status original validation =
     (let o' = reqHeader original; v = reqHeader validation in
      if status \<noteq> 416 \<and> status \<noteq> 412 then False
      else if Get o' ''If-None-Match'' = [] \<and> Get o' ''If-Modified-Since'' = [] then False
      else combinedHeaderValues o' ''If-None-Match'' \<noteq> combinedHeaderValues v ''If-None-Match''
         \<or> combinedHeaderValues o' ''If-Modified-Since'' \<noteq> combinedHeaderValues v ''If-Modified-Since'')"

definition TrailerPrefix :: string where
  "TrailerPrefix = ''Trailer:''"

definition copyValidationTrailers :: "header \<Rightarrow> header \<Rightarrow> header \<Rightarrow> header" where
  "copyValidationTrailers dst final initial =
     (let dst1 = foldl (\<lambda>d name. if Values final name \<noteq> [] then AList.update name (Values final name) d else d)
                   dst (parseVary (combinedHeaderValues initial ''Trailer''))
      in foldl (\<lambda>d (name, values). if prefix TrailerPrefix name then AList.update name values d else d) dst1 final)"

subsection \<open>What is stored\<close>


definition example_creq :: "header \<Rightarrow> cacheRequest" where
  "example_creq h = \<lparr>Request = example_request h, rKey = NewRequestKey (example_request h), rTime = 0,
     rCC = ParseCacheControlHeaders h, discoveryKey = [], servedKey = []\<rparr>"


subsection \<open>When a stored response is reused\<close>



text \<open>
  a response with a \<^verbatim>\<open>max-age\<close> lives exactly that long. Measured from the local receipt date,
  with no \<^verbatim>\<open>Age\<close> and no directives in the request, it is served without validation strictly before
  the lifetime ends and validated from then on, heuristics notwithstanding.
\<close>

lemma fresh_exactly_max_age:
  assumes "\<not> stale res" "rCC r = []"
    and "Has (cacheControl res) ''max-age''" "\<not> (shared \<and> Has (cacheControl res) ''s-maxage'')"
    and "Duration e (cacheControl res) ''max-age'' = Some m" "0 \<le> m" "m < 2 ^ 62"
    and "Get (rheader res) ''Age'' = []"
    and "timeHeader e ''Proxy-Date'' (rheader res) = Inr d" "\<bar>nowAge - d\<bar> < 2 ^ 62"
  shows "needsValidation e (nowMax, nowAge, nowHeur) shared res r \<longleftrightarrow> d + m \<le> nowAge"
proof -
  have age: "Age e nowAge res = Some (nowAge - d)"
  proof -
    have "time_sub nowAge d = nowAge - d" "int64 (nowAge - d)"
      using assms(10) by (auto simp: int64_def intro!: time_sub_exact)
    then show ?thesis using assms(8,9) by (simp add: Age_def intHeader_def)
  qed
  have maxAge: "MaxAge e nowMax shared res = Some m"
    using assms(3-5) by (auto simp: MaxAge_def Let_def)
  have heur: "heuristicFreshness e nowHeur shared res = 0"
    using assms(3) by (simp add: heuristicFreshness_def hasExplicitExpiration_def Let_def)
  have "freshness e (nowMax, nowAge, nowHeur) shared res r = Some (m - (nowAge - d))"
  proof -
    have "int64 (m - (nowAge - d))" using assms(6,7,10) by (auto simp: int64_def)
    then show ?thesis using assms(1,2,6) by (auto simp: freshness_def maxAge age heur Has_lower)
  qed
  then show ?thesis
    using assms(1,2) by (auto simp: needsValidation_def Has_lower)
qed

lemma fresh_exactly_max_age_witness:
  "\<not> needsValidation seconds_env (0, 159999999999, 0) True
      (example_resource [(''Cache-Control'', [''public, max-age=60'']), (''Proxy-Date'', [''100''])]) (example_creq [])
   \<and> needsValidation seconds_env (0, 160000000000, 0) True
      (example_resource [(''Cache-Control'', [''public, max-age=60'']), (''Proxy-Date'', [''100''])]) (example_creq [])"
proof -
  let ?res = "example_resource [(''Cache-Control'', [''public, max-age=60'']), (''Proxy-Date'', [''100''])]"
  have f: "\<not> stale ?res" "rCC (example_creq []) = []" "Has (cacheControl ?res) ''max-age''"
    "\<not> (True \<and> Has (cacheControl ?res) ''s-maxage'')" "Duration seconds_env (cacheControl ?res) ''max-age'' = Some 60000000000"
    "Get (rheader ?res) ''Age'' = []" "timeHeader seconds_env ''Proxy-Date'' (rheader ?res) = Inr 100000000000"
    by code_simp+
  show ?thesis
    using fresh_exactly_max_age [OF f(1-5) _ _ f(6,7), of 159999999999 0 0]
      fresh_exactly_max_age [OF f(1-5) _ _ f(6,7), of 160000000000 0 0] by simp
qed

subsection \<open>Comparing Vary policies\<close>

lemma compact_set [simp]: "set (compact xs) = set xs"
  by (induction xs rule: compact.induct) auto

lemma compact_sorted_distinct: "sorted xs \<Longrightarrow> sorted (compact xs) \<and> distinct (compact (xs :: ('a :: linorder) list))"
proof (induction xs rule: compact.induct)
  case (1 x y zs)
  then show ?case by (auto dest: order.antisym)
qed auto

text \<open>
  Two \<^verbatim>\<open>Vary\<close> policies are taken as the same exactly if they name the same set of fields, whatever
  the order, the repetition, the case and the spacing in which they are written.
\<close>

lemma sameVaryFields_iff: "sameVaryFields v w \<longleftrightarrow> set (parseVary v) = set (parseVary w)"
proof
  assume "sameVaryFields v w"
  then show "set (parseVary v) = set (parseVary w)"
    by (metis compact_set sameVaryFields_def set_sort)
next
  assume "set (parseVary v) = set (parseVary w)"
  then have "set (compact (sort (parseVary v))) = set (compact (sort (parseVary w)))" by simp
  then show "sameVaryFields v w"
    unfolding sameVaryFields_def
    using compact_sorted_distinct [of "sort (parseVary v)"] compact_sorted_distinct [of "sort (parseVary w)"]
    by (auto intro: sorted_distinct_set_unique)
qed

subsection \<open>Where the decisions depart from their purpose\<close>

lemma invalid_name_canonical: "\<not> list_all valid_field_byte s \<Longrightarrow> CanonicalHeaderKey s = s"
  by (simp add: CanonicalHeaderKey_def)

text \<open>
  a list of field names in one \<^verbatim>\<open>private\<close> argument is taken as one field name, so none of the
  listed fields is removed from the stored response.
\<close>

lemma private_list_is_not_stripped:
  assumes "cc_at (cacheControl res) ''private'' = [f @ '', '' @ g]" "list_all valid_field_byte k"
  shows "header_at (rheader (RemovePrivateHeaders res)) k = header_at (rheader res) k"
proof -
  have bad: "\<not> list_all valid_field_byte (f @ '', '' @ g)"
    by (simp add: valid_field_byte_def is_letter_def is_digit_def)
  then have "CanonicalHeaderKey (f @ '', '' @ g) \<noteq> k"
    using assms(2) by (auto simp: invalid_name_canonical)
  then show ?thesis
    by (simp add: RemovePrivateHeaders_def Let_def header_at_foldl_Del assms(1) header_at_Del)
qed

lemma private_list_is_not_stripped_witness:
  "header_at (rheader (RemovePrivateHeaders (example_resource
     [(''Cache-Control'', [''max-age=60, private=\"Set-Cookie, X-User\"'']), (''Set-Cookie'', [''sid=1''])]))) ''Set-Cookie'' = [''sid=1'']
   \<and> isCacheable seconds_env 0 0 True (example_resource
     [(''Cache-Control'', [''max-age=60, private=\"Set-Cookie, X-User\"'']), (''Set-Cookie'', [''sid=1''])]) (example_creq [])"
proof -
  let ?res = "example_resource [(''Cache-Control'', [''max-age=60, private=\"Set-Cookie, X-User\"'']), (''Set-Cookie'', [''sid=1''])]"
  have "cc_at (cacheControl ?res) ''private'' = [''Set-Cookie'' @ '', '' @ ''X-User'']" "list_all valid_field_byte ''Set-Cookie''"
    by code_simp+
  from private_list_is_not_stripped [OF this]
  have "header_at (rheader (RemovePrivateHeaders ?res)) ''Set-Cookie'' = header_at (rheader ?res) ''Set-Cookie''" .
  moreover have "header_at (rheader ?res) ''Set-Cookie'' = [''sid=1'']" "isCacheable seconds_env 0 0 True ?res (example_creq [])"
    by code_simp+
  ultimately show ?thesis by simp
qed

text \<open>
  a \<^verbatim>\<open>Last-Modified\<close> that is no date reads as Go's zero time, so from the year 293 on its
  heuristic lifetime is a tenth of the largest duration, about 29 years, and a plain 200 response
  with it is stored.
\<close>

lemma unparsable_last_modified_lives_long:
  assumes "Get (rheader res) ''Last-Modified'' \<noteq> []" "ParseTime e (Get (rheader res) ''Last-Modified'') = None"
    and "\<not> hasExplicitExpiration shared res" "2 ^ 63 \<le> now"
  shows "heuristicFreshness e now shared res = 922337203685477580
    \<and> (statusCode res = 200 \<and> allowsResponseStorage shared res r (cacheControl res) \<longrightarrow> isCacheable e nowMax now shared res r)"
proof -
  have "LastModified e res = 0" using assms(1,2) by (simp add: LastModified_def Let_def)
  then have "heuristicFreshness e now shared res = quot64 (2 ^ 63 - 1) 10"
    using assms(1,3,4) by (simp add: heuristicFreshness_def time_sub_def)
  then have h: "heuristicFreshness e now shared res = 922337203685477580"
    by (simp add: quot64_def)
  then show ?thesis
    using assms(3) by (auto simp: isCacheable_def Let_def cacheableByDefault_def)
qed

lemma unparsable_last_modified_lives_long_witness:
  "heuristicFreshness seconds_env 63900000000000000000 True
     (example_resource [(''Last-Modified'', [''yesterday'']), (''Proxy-Date'', [''63900000000''])]) = 922337203685477580
   \<and> \<not> needsValidation seconds_env (0, 64800000000000000000, 63900000000000000000) True
     (example_resource [(''Last-Modified'', [''yesterday'']), (''Proxy-Date'', [''63900000000''])]) (example_creq [])"
proof -
  let ?res = "example_resource [(''Last-Modified'', [''yesterday'']), (''Proxy-Date'', [''63900000000''])]"
  have f: "Get (rheader ?res) ''Last-Modified'' \<noteq> []" "ParseTime seconds_env (Get (rheader ?res) ''Last-Modified'') = None"
    "\<not> hasExplicitExpiration True ?res"
    "\<not> needsValidation seconds_env (0, 64800000000000000000, 63900000000000000000) True ?res (example_creq [])"
    by code_simp+
  show ?thesis
    using unparsable_last_modified_lives_long [OF f(1-3), of 63900000000000000000] f(4) by simp
qed

text \<open>
  an \<^verbatim>\<open>Age\<close> field is multiplied into nanoseconds without a bound, so a value from 9223372037 to
  18446744073 seconds becomes a negative duration: the response seems to come from the future.
\<close>

lemma huge_age_is_negative:
  assumes "intHeader ''Age'' (rheader res) = Inr n" "9223372037 \<le> n" "n \<le> 18446744073"
    and "timeHeader e ''Proxy-Date'' (rheader res) = Inr d" "now = d"
  shows "Age e now res = Some (n * 1000000000 - 2 ^ 64) \<and> n * 1000000000 - 2 ^ 64 < 0"
proof -
  have "wrap64 (1000000000 * n) = n * 1000000000 - 2 ^ 64"
  proof -
    have "(1000000000 * n + 2 ^ 63 - 2 ^ 64) mod 2 ^ 64 = 1000000000 * n + 2 ^ 63 - 2 ^ 64"
      using assms(2,3) by (intro mod_pos_pos_trivial) simp_all
    then have "(1000000000 * n + 2 ^ 63) mod 2 ^ 64 = 1000000000 * n + 2 ^ 63 - 2 ^ 64"
      by (metis minus_mod_self2)
    then show ?thesis by (simp add: wrap64_def)
  qed
  moreover have "int64 (n * 1000000000 - 2 ^ 64)" using assms(2,3) by (simp add: int64_def)
  ultimately show ?thesis
    using assms by (simp add: Age_def time_sub_def)
qed

lemma huge_age_is_negative_witness:
  "Age seconds_env 63900000000000000000 (example_resource
      [(''Cache-Control'', [''max-age=60'']), (''Age'', [''14000000000'']), (''Proxy-Date'', [''63900000000''])])
     = Some (- 4446744073709551616)
   \<and> \<not> needsValidation seconds_env (0, 63900000000000000000, 0) True (example_resource
      [(''Cache-Control'', [''max-age=60'']), (''Age'', [''14000000000'']), (''Proxy-Date'', [''63900000000''])]) (example_creq [])"
proof -
  let ?res = "example_resource [(''Cache-Control'', [''max-age=60'']), (''Age'', [''14000000000'']), (''Proxy-Date'', [''63900000000''])]"
  have f: "intHeader ''Age'' (rheader ?res) = Inr 14000000000"
    "timeHeader seconds_env ''Proxy-Date'' (rheader ?res) = Inr 63900000000000000000"
    "\<not> needsValidation seconds_env (0, 63900000000000000000, 0) True ?res (example_creq [])"
    by code_simp+
  show ?thesis
    using huge_age_is_negative [OF f(1) _ _ f(2) refl] f(3) by simp
qed

text \<open>An argumentless \<^verbatim>\<open>private\<close> is not seen next to one with an argument.\<close>

lemma qualified_private_hides_unqualified:
  "isCacheable seconds_env 0 0 True
     (example_resource [(''Cache-Control'', [''private, max-age=60'', ''private=\"X-User\"''])]) (example_creq [])"
  by code_simp

end
