(* ===== verification/Cache_State.thy ===== *)
theory Cache_State
  imports Resource
begin

text \<open>
  The state of a \<^verbatim>\<open>cache\<close> (\<^verbatim>\<open>src/cache.go\<close>) and its configuration (\<^verbatim>\<open>src/cache_config.go\<close>).

  The file systems the cache writes to are not part of the repository: the package
  \<^verbatim>\<open>vfs-kit\<close> behind \<^verbatim>\<open>vfs.VFS\<close> and the operating system behind \<^verbatim>\<open>os.CreateTemp\<close>, \<^verbatim>\<open>os.Rename\<close> and
  \<^verbatim>\<open>os.Remove\<close>. They are a parameter: a record of operations on a state of type \<open>'fs\<close>, each of
  which may fail and may change the state when it fails. 
\<close>

subsection \<open>Configuration\<close>

datatype IntegrityMode = IntegrityDisabled | IntegritySHA256

record CacheConfig =
  Integrity :: IntegrityMode
  DisableStagingSweep :: bool
  MaxSize :: int
  TTL :: duration
  CleanupInterval :: duration
  StaleMapTTL :: duration

definition DefaultCacheConfig :: CacheConfig where
  "DefaultCacheConfig = \<lparr>Integrity = IntegrityDisabled, DisableStagingSweep = False,
     MaxSize = 10 * 1024 * 1024 * 1024, TTL = 7 * 24 * hour, CleanupInterval = hour, StaleMapTTL = 24 * hour\<rparr>"

definition WithMaxSize :: "int \<Rightarrow> CacheConfig \<Rightarrow> CacheConfig" where
  "WithMaxSize n c = c\<lparr>MaxSize := n\<rparr>"

definition WithTTL :: "duration \<Rightarrow> CacheConfig \<Rightarrow> CacheConfig" where
  "WithTTL ttl c = c\<lparr>TTL := ttl\<rparr>"

definition WithCleanupInterval :: "duration \<Rightarrow> CacheConfig \<Rightarrow> CacheConfig" where
  "WithCleanupInterval interval c = c\<lparr>CleanupInterval := interval\<rparr>"

definition WithStaleMapTTL :: "duration \<Rightarrow> CacheConfig \<Rightarrow> CacheConfig" where
  "WithStaleMapTTL ttl c = c\<lparr>StaleMapTTL := ttl\<rparr>"

definition config_Validate :: "CacheConfig \<Rightarrow> CacheConfig" where
  "config_Validate c =
     (let c = (if MaxSize c < 0 then c\<lparr>MaxSize := 0\<rparr> else c);
          c = (if TTL c < 0 then c\<lparr>TTL := 0\<rparr> else c);
          c = (if CleanupInterval c < 0 then c\<lparr>CleanupInterval := 0\<rparr> else c)
      in if StaleMapTTL c \<le> 0 then c\<lparr>StaleMapTTL := 24 * hour\<rparr> else c)"

subsection \<open>File systems\<close>

datatype vfs_error = NotExist | OtherError

text \<open>
  \<^item> \<open>vRead\<close> is \<^verbatim>\<open>Open\<close> followed by \<^verbatim>\<open>io.ReadAll\<close>, \<open>vSize\<close> is \<^verbatim>\<open>Stat\<close> and its size, \<open>vRemove\<close> is \<^verbatim>\<open>Remove\<close>.
  \<^item> \<open>vMkdirAll\<close>, \<open>vTruncate\<close> (\<^verbatim>\<open>OpenFile\<close> with \<^verbatim>\<open>O_CREATE|O_TRUNC|O_WRONLY\<close>), \<open>vCopy\<close> (\<^verbatim>\<open>io.Copy\<close> into
    the file, with the number of bytes that arrived) and \<open>vClose\<close> are the steps of a write.
  \<^item> \<open>osCreateTemp\<close> makes an empty file with a fresh name, \<open>osSync\<close> is \<^verbatim>\<open>File.Sync\<close>, \<open>osRename\<close>
    replaces one path by another; they belong to a disk cache and work on the same files.
  \<^item> \<open>vReadDir\<close> lists the names in a directory and says which are directories, \<open>vModTime\<close> is \<^verbatim>\<open>Stat\<close> and
    its modification time, \<open>vFileId\<close> is the identity that \<^verbatim>\<open>os.SameFile\<close> compares.
\<close>

record 'fs vfs =
  vRead :: "string \<Rightarrow> 'fs \<Rightarrow> vfs_error + string"
  vSize :: "string \<Rightarrow> 'fs \<Rightarrow> vfs_error + int"
  vRemove :: "string \<Rightarrow> 'fs \<Rightarrow> vfs_error option \<times> 'fs"
  vMkdirAll :: "string \<Rightarrow> 'fs \<Rightarrow> bool \<times> 'fs"
  vTruncate :: "string \<Rightarrow> 'fs \<Rightarrow> bool \<times> 'fs"
  vCopy :: "string \<Rightarrow> string \<Rightarrow> 'fs \<Rightarrow> bool \<times> int \<times> 'fs"
  vClose :: "string \<Rightarrow> 'fs \<Rightarrow> bool \<times> 'fs"
  osCreateTemp :: "string \<Rightarrow> 'fs \<Rightarrow> string option \<times> 'fs"
  osSync :: "string \<Rightarrow> 'fs \<Rightarrow> bool \<times> 'fs"
  osRename :: "string \<Rightarrow> string \<Rightarrow> 'fs \<Rightarrow> bool \<times> 'fs"
  vReadDir :: "string \<Rightarrow> 'fs \<Rightarrow> vfs_error + (string \<times> bool) list"
  vModTime :: "string \<Rightarrow> 'fs \<Rightarrow> vfs_error + time"
  vFileId :: "string \<Rightarrow> 'fs \<Rightarrow> vfs_error + int"

text \<open>A file system in memory on which every operation succeeds, for evaluating the model.\<close>

definition mem_write :: "string \<Rightarrow> string \<Rightarrow> (string, string) gomap \<Rightarrow> (string, string) gomap" where
  "mem_write p d m = AList.update p d m"

definition mem_read :: "string \<Rightarrow> (string, string) gomap \<Rightarrow> vfs_error + string" where
  "mem_read p m = (case map_of m p of None \<Rightarrow> Inl NotExist | Some d \<Rightarrow> Inr d)"

definition mem_temp :: "string \<Rightarrow> (string, string) gomap \<Rightarrow> string" where
  \<comment> \<open>a name longer than every path in use\<close>
  "mem_temp dir m = dir @ ''/.tmp-'' @ concat (map (\<lambda>_. ''x'') (foldr (\<lambda>(p, _) q. if length q \<le> length p then p else q) m []))"

definition mem_list :: "string \<Rightarrow> (string, string) gomap \<Rightarrow> string list" where
  "mem_list dir m = remdups (filter (\<lambda>n. CHR ''/'' \<notin> set n)
     (map (\<lambda>(p, _). drop (length dir) p) (filter (\<lambda>(p, _). take (length dir) p = dir) m)))"

definition mem_vfs :: "(string, string) gomap vfs" where
  "mem_vfs = \<lparr>vRead = mem_read,
     vSize = \<lambda>p m. (case mem_read p m of Inl err \<Rightarrow> Inl err | Inr d \<Rightarrow> Inr (int (length d))),
     vRemove = \<lambda>p m. (if map_of m p = None then (Some NotExist, m) else (None, AList.delete p m)),
     vMkdirAll = \<lambda>p m. (True, m), vTruncate = \<lambda>p m. (True, mem_write p [] m),
     vCopy = \<lambda>p d m. (True, int (length d), mem_write p d m), vClose = \<lambda>p m. (True, m),
     osCreateTemp = \<lambda>p m. let q = mem_temp p m in (Some q, mem_write q [] m),
     osSync = \<lambda>p m. (True, m),
     osRename = \<lambda>p q m. (case mem_read p m of Inl _ \<Rightarrow> (False, m) | Inr d \<Rightarrow> (True, mem_write q d (AList.delete p m))),
     vReadDir = \<lambda>dir m. Inr (map (\<lambda>n. (n, False)) (mem_list dir m)),
     vModTime = \<lambda>p m. (case mem_read p m of Inl err \<Rightarrow> Inl err | Inr _ \<Rightarrow> Inr 1),
     vFileId = \<lambda>p m. (case mem_read p m of Inl err \<Rightarrow> Inl err | Inr _ \<Rightarrow> Inr 0)\<rparr>"

abbreviation real_error :: "vfs_error option \<Rightarrow> bool" where
  \<comment> \<open>\<^verbatim>\<open>err != nil && !vfs.IsNotExist(err)\<close>\<close>
  "real_error e \<equiv> e = Some OtherError"

subsection \<open>Cache state\<close>

record cacheEntry =
  ekey :: string
  ehashedKey :: string
  esize :: int
  estoredAt :: time
  eaccessedAt :: time
  egeneration :: "nat option"

text \<open>
  The list holds the hashed keys of the entries, most recently used first; the entry of an element
  is found in the index, with which the source's list shares its entries. A \<^verbatim>\<open>*cacheGeneration\<close> is
  a number; allocating one takes the next. Sizes and their sums are mathematical integers: an
  \<^verbatim>\<open>int64\<close> holds them as long as the files together are smaller than 9223372036854775808 bytes.
\<close>

record 'fs cache =
  fs :: 'fs
  cfg :: CacheConfig
  diskRoot :: bool
  staleMap :: "(string, time) gomap"
  staleGeneration :: int
  lruList :: "string list"
  lruIndex :: "(string, cacheEntry) gomap"
  totalSize :: int
  reservations :: "(string, int) gomap"
  reservedSize :: int
  hitCount :: int
  missCount :: int
  nextGeneration :: nat

definition empty_cache :: "'fs \<Rightarrow> bool \<Rightarrow> CacheConfig \<Rightarrow> 'fs cache" where
  "empty_cache s disk config = \<lparr>fs = s, cfg = config_Validate config, diskRoot = disk, staleMap = [], staleGeneration = 0,
     lruList = [], lruIndex = [], totalSize = 0, reservations = [], reservedSize = 0, hitCount = 0, missCount = 0,
     nextGeneration = 0\<rparr>"

definition headerPrefix :: string where "headerPrefix = ''header/''"
definition bodyPrefix :: string where "bodyPrefix = ''body/''"
definition formatPrefix :: string where "formatPrefix = ''v1/''"
definition stagingPrefix :: string where "stagingPrefix = ''staging/''"

definition bodyPath :: "string \<Rightarrow> string" where
  "bodyPath hashedKey = bodyPrefix @ formatPrefix @ hashedKey"

definition headerPath :: "string \<Rightarrow> string" where
  "headerPath hashedKey = headerPrefix @ formatPrefix @ hashedKey"

text \<open>
  A validated configuration is a fixed point of validation, has no negative bound and always
  keeps invalidation markers for a positive time; valid settings are left as they are.
\<close>

lemma config_Validate_normal:
  "MaxSize (config_Validate c) = max 0 (MaxSize c) \<and> TTL (config_Validate c) = max 0 (TTL c)
   \<and> CleanupInterval (config_Validate c) = max 0 (CleanupInterval c)
   \<and> StaleMapTTL (config_Validate c) = (if StaleMapTTL c \<le> 0 then StaleMapTTL DefaultCacheConfig else StaleMapTTL c)
   \<and> config_Validate (config_Validate c) = config_Validate c \<and> config_Validate DefaultCacheConfig = DefaultCacheConfig"
  by (auto simp: config_Validate_def DefaultCacheConfig_def Let_def)

end
