(* ===== verification/Ledger.thy ===== *)
theory Ledger
  imports Cache_State
begin

text \<open>
  The size ledger and LRU list of \<^verbatim>\<open>src/cache.go\<close>: tracking and touching entries, removing them,
  admission by reservation and eviction, and the sweeps of \<^verbatim>\<open>Cleanup\<close>. Each operation runs
  under \<^verbatim>\<open>lruMutex\<close>, so it is one transition of the state.
\<close>

subsection \<open>Operations\<close>

definition releaseReservationLocked :: "string \<Rightarrow> 'fs cache \<Rightarrow> 'fs cache" where
  "releaseReservationLocked k c =
     c\<lparr>reservedSize := reservedSize c - (case map_of (reservations c) k of None \<Rightarrow> 0 | Some g \<Rightarrow> g),
       reservations := AList.delete k (reservations c)\<rparr>"

definition releaseReservation :: "string \<Rightarrow> 'fs cache \<Rightarrow> 'fs cache" where
  "releaseReservation k c = releaseReservationLocked k c"

definition beginReservation :: "string \<Rightarrow> 'fs cache \<Rightarrow> 'fs cache" where
  "beginReservation k c = c\<lparr>reservations := AList.update k 0 (reservations c)\<rparr>"

definition MoveToFront :: "string \<Rightarrow> string list \<Rightarrow> string list" where
  "MoveToFront k ks = k # remove1 k ks"

definition trackEntry :: "time \<Rightarrow> string \<Rightarrow> string \<Rightarrow> int \<Rightarrow> time \<Rightarrow> 'fs cache \<Rightarrow> 'fs cache" where
  "trackEntry now key k sz at c0 =
     (let c = releaseReservationLocked k c0;
          at = (if isZero at then now else at);
          gen = nextGeneration c
      in case map_of (lruIndex c) k of
        Some entry \<Rightarrow>
          c\<lparr>lruIndex := AList.update k (entry\<lparr>esize := sz, estoredAt := at, eaccessedAt := at, egeneration := Some gen\<rparr>) (lruIndex c),
            totalSize := totalSize c - esize entry + sz, lruList := MoveToFront k (lruList c), nextGeneration := gen + 1\<rparr>
      | None \<Rightarrow>
          c\<lparr>lruIndex := AList.update k \<lparr>ekey = key, ehashedKey = k, esize = sz, estoredAt = at, eaccessedAt = at,
              egeneration = Some gen\<rparr> (lruIndex c),
            totalSize := totalSize c + sz, lruList := k # lruList c, nextGeneration := gen + 1\<rparr>)"

definition entryGeneration :: "string \<Rightarrow> 'fs cache \<Rightarrow> nat option" where
  "entryGeneration k c = (case map_of (lruIndex c) k of None \<Rightarrow> None | Some entry \<Rightarrow> egeneration entry)"

definition entryStoredAt :: "string \<Rightarrow> 'fs cache \<Rightarrow> time" where
  "entryStoredAt k c = (case map_of (lruIndex c) k of None \<Rightarrow> 0 | Some entry \<Rightarrow> estoredAt entry)"

definition touchEntry :: "time \<Rightarrow> string \<Rightarrow> 'fs cache \<Rightarrow> 'fs cache" where
  "touchEntry now k c = (case map_of (lruIndex c) k of None \<Rightarrow> c
     | Some entry \<Rightarrow> c\<lparr>lruIndex := AList.update k (entry\<lparr>eaccessedAt := now\<rparr>) (lruIndex c),
         lruList := MoveToFront k (lruList c)\<rparr>)"

definition remove_files :: "'fs vfs \<Rightarrow> string \<Rightarrow> 'fs \<Rightarrow> bool \<times> 'fs" where
  \<comment> \<open>both removals are attempted; the flag says that one failed with more than \<^verbatim>\<open>IsNotExist\<close>\<close>
  "remove_files v k s =
     (let (e1, s1) = vRemove v (bodyPath k) s; (e2, s2) = vRemove v (headerPath k) s1
      in (real_error e1 \<or> real_error e2, s2))"

definition removeEntry :: "'fs vfs \<Rightarrow> cacheEntry \<Rightarrow> 'fs cache \<Rightarrow> bool \<times> 'fs cache" where
  "removeEntry v entry c =
     (let (err, s) = remove_files v (ehashedKey entry) (fs c); c = c\<lparr>fs := s\<rparr>
      in if err then (True, c)
         else (False, c\<lparr>lruList := remove1 (ehashedKey entry) (lruList c),
                        lruIndex := AList.delete (ehashedKey entry) (lruIndex c), totalSize := totalSize c - esize entry\<rparr>))"

definition discardUnadmitted :: "'fs vfs \<Rightarrow> time \<Rightarrow> string \<Rightarrow> string \<Rightarrow> int \<Rightarrow> time \<Rightarrow> 'fs cache \<Rightarrow> bool \<times> 'fs cache" where
  "discardUnadmitted v now key k residualSize at c =
     (case map_of (lruIndex c) k of
        Some entry \<Rightarrow>
          let (err, c) = removeEntry v entry c in
          if err \<and> residualSize > esize entry
          then (True, c\<lparr>totalSize := totalSize c + (residualSize - esize entry),
                        lruIndex := AList.update k (entry\<lparr>esize := residualSize\<rparr>) (lruIndex c)\<rparr>)
          else (err, c)
      | None \<Rightarrow>
          let (err, s) = remove_files v k (fs c); c = c\<lparr>fs := s\<rparr> in
          if err then
            let sz = (if residualSize \<le> 0 then 1 else residualSize); at = (if isZero at then now else at)
            in (True, c\<lparr>lruIndex := AList.update k \<lparr>ekey = key, ehashedKey = k, esize = sz, estoredAt = at,
                          eaccessedAt = at, egeneration = None\<rparr> (lruIndex c),
                        lruList := k # lruList c, totalSize := totalSize c + sz\<rparr>)
          else (False, c))"

text \<open>
  The sweeps walk the list from its back and save the previous element before they remove one, so
  they visit the elements of the list as it was, each once. \<open>sweep\<close> is that walk: \<open>go\<close> is the loop
  condition and \<open>pick\<close> passes an entry over, keeps one that should have gone, or takes it; the walk
  returns the removed entries and whether something that should have gone is still there.
\<close>

definition active :: "'fs cache \<Rightarrow> string \<Rightarrow> bool" where
  "active c k \<longleftrightarrow> map_of (reservations c) k \<noteq> None"

datatype verdict = Pass | Keep | Take

fun sweep :: "'fs vfs \<Rightarrow> ('fs cache \<Rightarrow> bool) \<Rightarrow> ('fs cache \<Rightarrow> cacheEntry \<Rightarrow> verdict) \<Rightarrow> string list \<Rightarrow> 'fs cache
    \<Rightarrow> cacheEntry list \<times> bool \<times> 'fs cache" where
  "sweep v go pick [] c = ([], False, c)"
| "sweep v go pick (k # ks) c =
     (if \<not> go c then ([], False, c)
      else case map_of (lruIndex c) k of
        None \<Rightarrow> sweep v go pick ks c
      | Some entry \<Rightarrow>
          (case pick c entry of
             Pass \<Rightarrow> sweep v go pick ks c
           | Keep \<Rightarrow> let (gone, _, c2) = sweep v go pick ks c in (gone, True, c2)
           | Take \<Rightarrow> let (err, c1) = removeEntry v entry c; (gone, left, c2) = sweep v go pick ks c1
                     in (if err then gone else entry # gone, err \<or> left, c2)))"

datatype admission_error = ErrSizeOverflow | ErrItemTooLarge | ErrCannotShrink bool

definition entry_size :: "'fs cache \<Rightarrow> string \<Rightarrow> int" where
  "entry_size c k = (case map_of (lruIndex c) k of None \<Rightarrow> 0 | Some entry \<Rightarrow> esize entry)"

definition reserved_for :: "'fs cache \<Rightarrow> string \<Rightarrow> int" where
  "reserved_for c k = (case map_of (reservations c) k of None \<Rightarrow> 0 | Some g \<Rightarrow> g)"

definition evictForAdmissionLocked :: "'fs vfs \<Rightarrow> string \<Rightarrow> int \<Rightarrow> 'fs cache \<Rightarrow> admission_error option \<times> 'fs cache" where
  "evictForAdmissionLocked v k itemSize c =
     (if itemSize < 0 then (Some ErrSizeOverflow, c)
      else if MaxSize (cfg c) \<le> 0 then (None, c)
      else if itemSize > MaxSize (cfg c) then (Some ErrItemTooLarge, c)
      else
        let otherReserved = reservedSize c - reserved_for c k;
            targetSize = MaxSize (cfg c) - otherReserved - itemSize + entry_size c k;
            (gone, failed, c') = sweep v (\<lambda>c. totalSize c > targetSize)
              (\<lambda>c entry. if ehashedKey entry = k \<or> active c (ehashedKey entry) then Pass else Take) (rev (lruList c)) c
        in if totalSize c' > targetSize then (Some (ErrCannotShrink failed), c') else (None, c'))"

definition reserveEntry :: "'fs vfs \<Rightarrow> string \<Rightarrow> int \<Rightarrow> 'fs cache \<Rightarrow> admission_error option \<times> 'fs cache" where
  "reserveEntry v k itemSize c =
     (case evictForAdmissionLocked v k itemSize c of
        (Some err, c') \<Rightarrow> (Some err, c')
      | (None, c') \<Rightarrow>
          let growth = max (itemSize - entry_size c' k) 0
          in (None, c'\<lparr>reservedSize := reservedSize c' + (growth - reserved_for c' k),
                       reservations := AList.update k growth (reservations c')\<rparr>))"

definition cleanupTTLExpired :: "'fs vfs \<Rightarrow> time \<Rightarrow> 'fs cache \<Rightarrow> int \<times> int \<times> bool \<times> 'fs cache" where
  "cleanupTTLExpired v now c =
     (let cutoff = now - TTL (cfg c);
          (gone, left, c') = sweep v (\<lambda>_. True)
            (\<lambda>c entry. if \<not> estoredAt entry < cutoff then Pass else if active c (ehashedKey entry) then Keep else Take)
            (rev (lruList c)) c
      in (int (length gone), sum_list (map esize gone), \<not> left, c'))"

definition enforceMaxSize :: "'fs vfs \<Rightarrow> 'fs cache \<Rightarrow> int \<times> int \<times> 'fs cache" where
  "enforceMaxSize v c =
     (let (gone, _, c') = sweep v (\<lambda>c. totalSize c > MaxSize (cfg c)) 
            (\<lambda>c entry. if active c (ehashedKey entry) then Pass else Take) (rev (lruList c)) c
      in (int (length gone), sum_list (map esize gone), c'))"

definition recordHit :: "'fs cache \<Rightarrow> 'fs cache" where
  "recordHit c = c\<lparr>hitCount := hitCount c + 1\<rparr>"

definition recordMiss :: "'fs cache \<Rightarrow> 'fs cache" where
  "recordMiss c = c\<lparr>missCount := missCount c + 1\<rparr>"

record CacheStats =
  TotalSize :: int
  ItemCount :: int
  StaleCount :: int
  HitCount :: int
  MissCount :: int

definition Stats :: "'fs cache \<Rightarrow> CacheStats" where
  "Stats c = \<lparr>TotalSize = totalSize c, ItemCount = int (length (lruList c)), StaleCount = int (length (staleMap c)),
     HitCount = hitCount c, MissCount = missCount c\<rparr>"

subsection \<open>Sums over Go maps\<close>

definition msum :: "('v \<Rightarrow> int) \<Rightarrow> ('k, 'v) gomap \<Rightarrow> int" where
  "msum f m = sum_list (map (\<lambda>(k, v). f v) m)"

definition mval :: "('v \<Rightarrow> int) \<Rightarrow> ('k, 'v) gomap \<Rightarrow> 'k \<Rightarrow> int" where
  "mval f m k = (case map_of m k of None \<Rightarrow> 0 | Some v \<Rightarrow> f v)"

lemma msum_update [go_map_simps]: "go_map m \<Longrightarrow> msum f (AList.update k v m) = msum f m - mval f m k + f v"
proof (induction m)
  case Nil
  then show ?case by (simp add: msum_def mval_def)
next
  case (Cons a m)
  then have "fst a \<notin> fst ` set m" "go_map m" by (auto simp: go_map_def)
  with Cons show ?case by (cases a) (auto simp: msum_def mval_def)
qed

lemma msum_delete [go_map_simps]: "go_map m \<Longrightarrow> msum f (AList.delete k m) = msum f m - mval f m k"
proof (induction m)
  case Nil
  then show ?case by (simp add: msum_def mval_def)
next
  case (Cons a m)
  then have "fst a \<notin> fst ` set m" "go_map m" by (auto simp: go_map_def)
  with Cons show ?case by (cases a) (auto simp: msum_def mval_def)
qed

lemma msum_nonneg: "(\<forall>k v. map_of m k = Some v \<longrightarrow> 0 \<le> f v) \<Longrightarrow> go_map m \<Longrightarrow> 0 \<le> msum f m - mval f m k"
proof (induction m arbitrary: k)
  case Nil
  then show ?case by (simp add: msum_def mval_def)
next
  case (Cons a m)
  obtain j v where a: "a = (j, v)" by (cases a)
  with Cons.prems have j: "map_of m j = None" and g: "go_map m"
    by (auto simp: go_map_def map_of_eq_None_iff)
  have v: "0 \<le> f v" using Cons.prems(1) [rule_format, of j v] by (simp add: a)
  have "\<forall>k v. map_of m k = Some v \<longrightarrow> 0 \<le> f v"
    using Cons.prems(1) j by (metis a map_of_Cons_code(2) option.distinct(1))
  from Cons.IH [OF this g, of k] Cons.IH [OF this g, of j] v j show ?case
    by (auto simp: a msum_def mval_def)
qed

subsection \<open>The ledger invariant\<close>

text \<open>
  The list and the index hold the same entries, each once; the total is the sum of the tracked
  sizes and the reserved size the sum of the reservations, none of which is negative.
\<close>

definition ledger_ok :: "'fs cache \<Rightarrow> bool" where
  "ledger_ok c \<longleftrightarrow>
     go_map (lruIndex c) \<and> distinct (lruList c) \<and> (\<forall>k. k \<in> set (lruList c) \<longleftrightarrow> map_of (lruIndex c) k \<noteq> None)
     \<and> (\<forall>k e. map_of (lruIndex c) k = Some e \<longrightarrow> ehashedKey e = k \<and> 0 \<le> esize e)
     \<and> totalSize c = msum esize (lruIndex c)
     \<and> go_map (reservations c) \<and> (\<forall>k g. map_of (reservations c) k = Some g \<longrightarrow> 0 \<le> g)
     \<and> reservedSize c = msum id (reservations c)"

lemma mval_size: "mval esize (lruIndex c) k = entry_size c k"
  by (simp add: mval_def entry_size_def)

lemma mval_reserved: "mval id (reservations c) k = reserved_for c k"
  by (simp add: mval_def reserved_for_def split: option.split)

lemma reserved_for_nonneg: "ledger_ok c \<Longrightarrow> 0 \<le> reserved_for c k"
  by (auto simp: ledger_ok_def reserved_for_def split: option.split)

lemma reserved_le: "ledger_ok c \<Longrightarrow> reserved_for c k \<le> reservedSize c"
  using msum_nonneg [of "reservations c" id k] by (auto simp: ledger_ok_def mval_reserved)

lemma total_ge_size: "ledger_ok c \<Longrightarrow> entry_size c k \<le> totalSize c"
  using msum_nonneg [of "lruIndex c" esize k] by (auto simp: ledger_ok_def mval_size)

lemma ledger_entry: "ledger_ok c \<Longrightarrow> map_of (lruIndex c) k = Some e \<Longrightarrow> ehashedKey e = k \<and> 0 \<le> esize e"
  by (simp add: ledger_ok_def)

lemma entry_size_nonneg: "ledger_ok c \<Longrightarrow> 0 \<le> entry_size c k"
  using ledger_entry by (auto simp: entry_size_def split: option.split)

lemma ledger_ok_frame:
  assumes "ledger_ok c" "lruIndex c' = lruIndex c" "lruList c' = lruList c" "totalSize c' = totalSize c"
    "reservations c' = reservations c" "reservedSize c' = reservedSize c"
  shows "ledger_ok c'"
  using assms by (simp add: ledger_ok_def)

lemma set_MoveToFront: "k \<in> set ks \<Longrightarrow> set (MoveToFront k ks) = set ks"
  by (induction ks) (auto simp: MoveToFront_def)

lemma distinct_MoveToFront: "distinct ks \<Longrightarrow> distinct (MoveToFront k ks)"
  by (auto simp: MoveToFront_def)

lemma release_ok: "ledger_ok c \<Longrightarrow> ledger_ok (releaseReservationLocked k c)"
  by (auto simp: ledger_ok_def releaseReservationLocked_def go_map_simps mval_def split: option.split if_splits)

lemma release_frame [simp]:
  "lruIndex (releaseReservationLocked k c) = lruIndex c" "lruList (releaseReservationLocked k c) = lruList c"
  "totalSize (releaseReservationLocked k c) = totalSize c" "cfg (releaseReservationLocked k c) = cfg c"
  "fs (releaseReservationLocked k c) = fs c" "staleMap (releaseReservationLocked k c) = staleMap c"
  "nextGeneration (releaseReservationLocked k c) = nextGeneration c"
  "reservedSize (releaseReservationLocked k c) = reservedSize c - reserved_for c k"
  "reservations (releaseReservationLocked k c) = AList.delete k (reservations c)"
  by (simp_all add: releaseReservationLocked_def reserved_for_def)

lemma begin_ok: "ledger_ok c \<Longrightarrow> \<not> active c k \<Longrightarrow> ledger_ok (beginReservation k c)"
  by (auto simp: ledger_ok_def beginReservation_def active_def go_map_simps mval_def)

lemma touch_ok: "ledger_ok c \<Longrightarrow> ledger_ok (touchEntry now k c)"
  by (auto simp: ledger_ok_def touchEntry_def go_map_simps mval_def set_MoveToFront distinct_MoveToFront
      split: option.split if_splits)

lemma track_ok:
  assumes "ledger_ok c" "0 \<le> sz"
  shows "ledger_ok (trackEntry now key k sz at c)"
  using release_ok [OF assms(1), of k] assms(2)
  by (auto simp: trackEntry_def Let_def ledger_ok_def go_map_simps mval_def set_MoveToFront distinct_MoveToFront
      split: option.split if_splits)

lemma track_sizes:
  assumes "ledger_ok c"
  shows "totalSize (trackEntry now key k sz at c) = totalSize c - entry_size c k + sz"
    and "reservedSize (trackEntry now key k sz at c) = reservedSize c - reserved_for c k"
    and "cfg (trackEntry now key k sz at c) = cfg c"
    and "reservations (trackEntry now key k sz at c) = AList.delete k (reservations c)"
    and "map_of (lruIndex (trackEntry now key k sz at c)) j =
      (if j = k then Some \<lparr>ekey = (case map_of (lruIndex c) k of Some e \<Rightarrow> ekey e | None \<Rightarrow> key),
         ehashedKey = k, esize = sz, estoredAt = (if isZero at then now else at),
         eaccessedAt = (if isZero at then now else at), egeneration = Some (nextGeneration c)\<rparr>
       else map_of (lruIndex c) j)"
  using assms
  by (auto simp: trackEntry_def Let_def entry_size_def ledger_ok_def go_map_simps split: option.split)

lemma removeEntry_ok:
  assumes "ledger_ok c" "map_of (lruIndex c) k = Some entry" "removeEntry v entry c = (err, c')"
  shows "ledger_ok c'"
    and "lruIndex c' = (if err then lruIndex c else AList.delete k (lruIndex c))"
    and "lruList c' = (if err then lruList c else remove1 k (lruList c))"
    and "totalSize c' = totalSize c - (if err then 0 else esize entry)"
    and "reservations c' = reservations c" "reservedSize c' = reservedSize c" "cfg c' = cfg c"
    and "staleMap c' = staleMap c" "nextGeneration c' = nextGeneration c" "diskRoot c' = diskRoot c"
proof -
  have k: "ehashedKey entry = k" using assms(1,2) by (simp add: ledger_ok_def)
  obtain e s where "remove_files v k (fs c) = (e, s)" by (rule prod.exhaust)
  then have c': "err = e" "c' = (if e then c\<lparr>fs := s\<rparr> else c\<lparr>fs := s, lruList := remove1 k (lruList c),
      lruIndex := AList.delete k (lruIndex c), totalSize := totalSize c - esize entry\<rparr>)"
    using assms(3) by (auto simp: removeEntry_def k Let_def split: if_splits)
  show "ledger_ok c'"
    using assms(1,2) by (auto simp: c' ledger_ok_def go_map_simps mval_def split: if_splits)
  show "lruIndex c' = (if err then lruIndex c else AList.delete k (lruIndex c))"
    "lruList c' = (if err then lruList c else remove1 k (lruList c))"
    "totalSize c' = totalSize c - (if err then 0 else esize entry)"
    "reservations c' = reservations c" "reservedSize c' = reservedSize c" "cfg c' = cfg c"
    "staleMap c' = staleMap c" "nextGeneration c' = nextGeneration c" "diskRoot c' = diskRoot c"
    by (simp_all add: c')
qed

subsection \<open>Sweeps\<close>

definition same_but_entries :: "'fs cache \<Rightarrow> 'fs cache \<Rightarrow> bool" where
  "same_but_entries c c' \<longleftrightarrow> reservations c' = reservations c \<and> reservedSize c' = reservedSize c \<and> cfg c' = cfg c
     \<and> staleMap c' = staleMap c \<and> nextGeneration c' = nextGeneration c \<and> diskRoot c' = diskRoot c"

lemma same_but_entries_refl [simp]: "same_but_entries c c"
  by (simp add: same_but_entries_def)

lemma same_but_entries_trans: "same_but_entries a b \<Longrightarrow> same_but_entries b c \<Longrightarrow> same_but_entries a c"
  by (simp add: same_but_entries_def)

lemma sweep_ok:
  assumes "ledger_ok c" "sweep v go pick ks c = (gone, left, c')"
  shows "ledger_ok c' \<and> same_but_entries c c' \<and> totalSize c' = totalSize c - sum_list (map esize gone)
    \<and> (\<forall>j. map_of (lruIndex c') j = (if j \<in> ehashedKey ` set gone then None else map_of (lruIndex c) j))
    \<and> (\<forall>e \<in> set gone. map_of (lruIndex c) (ehashedKey e) = Some e \<and> (\<exists>c0. same_but_entries c c0 \<and> pick c0 e = Take))"
  using assms
proof (induction ks arbitrary: c gone left)
  case Nil
  then show ?case by simp
next
  case (Cons k ks)
  show ?case
  proof (cases "go c \<and> map_of (lruIndex c) k \<noteq> None")
    case False
    then show ?thesis using Cons by (auto split: if_splits)
  next
    case True
    then obtain entry where e: "map_of (lruIndex c) k = Some entry" and go: "go c" by auto
    show ?thesis
    proof (cases "pick c entry")
      case Pass
      with Cons e go show ?thesis by simp
    next
      case Keep
      with Cons.prems e go obtain l where "sweep v go pick ks c = (gone, l, c')"
        by (auto split: prod.splits)
      with Cons.IH Cons.prems(1) show ?thesis by blast
    next
      case Take
      obtain err c1 where r: "removeEntry v entry c = (err, c1)" by (rule prod.exhaust)
      obtain gone1 left1 where sw: "sweep v go pick ks c1 = (gone1, left1, c')"
        and g: "gone = (if err then gone1 else entry # gone1)"
        using Cons.prems(2) e go Take r by (auto split: prod.splits)
      note rm = removeEntry_ok [OF Cons.prems(1) e r]
      have k: "ehashedKey entry = k" using Cons.prems(1) e by (simp add: ledger_ok_def)
      have same: "same_but_entries c c1" using rm by (simp add: same_but_entries_def)
      have IH: "ledger_ok c'" "same_but_entries c1 c'" "totalSize c' = totalSize c1 - sum_list (map esize gone1)"
        "map_of (lruIndex c') j = (if j \<in> ehashedKey ` set gone1 then None else map_of (lruIndex c1) j)"
        "e' \<in> set gone1 \<Longrightarrow> map_of (lruIndex c1) (ehashedKey e') = Some e' \<and> (\<exists>c0. same_but_entries c1 c0 \<and> pick c0 e' = Take)"
        for j e' using Cons.IH [OF rm(1) sw] by auto
      have idx: "map_of (lruIndex c1) j = (if err \<or> j \<noteq> k then map_of (lruIndex c) j else None)" for j
        by (simp add: rm(2) go_map_simps)
      have "\<forall>e' \<in> set gone. map_of (lruIndex c) (ehashedKey e') = Some e' \<and> (\<exists>c0. same_but_entries c c0 \<and> pick c0 e' = Take)"
      proof
        fix e' assume "e' \<in> set gone"
        then consider "e' = entry" | "e' \<in> set gone1" using g by (auto split: if_splits)
        then show "map_of (lruIndex c) (ehashedKey e') = Some e' \<and> (\<exists>c0. same_but_entries c c0 \<and> pick c0 e' = Take)"
        proof cases
          case 1
          then show ?thesis using e k Take same_but_entries_refl by blast
        next
          case 2
          then show ?thesis using IH(5) [OF 2] idx same by (metis option.distinct(1) same_but_entries_trans)
        qed
      qed
      then show ?thesis
        using IH rm(4) idx g k same by (auto intro: same_but_entries_trans)
    qed
  qed
qed

lemma sweep_keeps:
  assumes "ledger_ok c" "sweep v go pick ks c = (gone, left, c')"
    and "map_of (lruIndex c) k = Some entry" "\<And>c0. same_but_entries c c0 \<Longrightarrow> pick c0 entry \<noteq> Take"
  shows "map_of (lruIndex c') k = Some entry"
proof -
  have k: "ehashedKey entry = k" using assms(1,3) by (simp add: ledger_ok_def)
  have "k \<notin> ehashedKey ` set gone"
  proof
    assume "k \<in> ehashedKey ` set gone"
    then obtain e where "e \<in> set gone" "ehashedKey e = k" by auto
    then show False using sweep_ok [OF assms(1,2)] assms(3,4) by fastforce
  qed
  then show ?thesis using sweep_ok [OF assms(1,2)] assms(3) by simp
qed

subsection \<open>Admission\<close>

lemma evict_ok:
  assumes "ledger_ok c" "evictForAdmissionLocked v k n c = (err, c')"
  shows "ledger_ok c' \<and> same_but_entries c c' \<and> totalSize c' \<le> totalSize c
    \<and> (\<forall>j. j = k \<or> active c j \<longrightarrow> map_of (lruIndex c') j = map_of (lruIndex c) j)
    \<and> (err = None \<longrightarrow> 0 \<le> n \<and> (0 < MaxSize (cfg c) \<longrightarrow>
         totalSize c' + (reservedSize c - reserved_for c k) + n - entry_size c k \<le> MaxSize (cfg c)))"
proof (cases "0 \<le> n \<and> 0 < MaxSize (cfg c) \<and> n \<le> MaxSize (cfg c)")
  case False
  then show ?thesis using assms by (auto simp: evictForAdmissionLocked_def split: if_splits)
next
  case True
  let ?target = "MaxSize (cfg c) - (reservedSize c - reserved_for c k) - n + entry_size c k"
  let ?pick = "\<lambda>c entry. if ehashedKey entry = k \<or> active c (ehashedKey entry) then Pass else Take"
  obtain gone left where sw: "sweep v (\<lambda>c. totalSize c > ?target) ?pick (rev (lruList c)) c = (gone, left, c')"
    and err: "err = None \<longrightarrow> totalSize c' \<le> ?target"
    using assms(2) True by (auto simp: evictForAdmissionLocked_def Let_def split: prod.splits if_splits)
  note ok = sweep_ok [OF assms(1) sw]
  have "0 \<le> sum_list (map esize gone)"
  proof (rule sum_list_nonneg)
    fix x assume "x \<in> set (map esize gone)"
    then obtain e where e: "e \<in> set gone" "x = esize e" by auto
    then have "map_of (lruIndex c) (ehashedKey e) = Some e" using ok by blast
    with ledger_entry [OF assms(1) this] e show "0 \<le> x" by simp
  qed
  moreover have "map_of (lruIndex c') j = map_of (lruIndex c) j" if "j = k \<or> active c j" for j
  proof (cases "map_of (lruIndex c) j")
    case None
    then show ?thesis using ok by auto
  next
    case (Some entry)
    then have "ehashedKey entry = j" using assms(1) by (simp add: ledger_ok_def)
    then have "?pick c0 entry \<noteq> Take" if "same_but_entries c c0" for c0
      using \<open>j = k \<or> active c j\<close> that by (auto simp: active_def same_but_entries_def)
    from sweep_keeps [OF assms(1) sw Some this] Some show ?thesis by simp
  qed
  moreover have "err = None \<Longrightarrow> totalSize c' + (reservedSize c - reserved_for c k) + n - entry_size c k \<le> MaxSize (cfg c)"
    using err by linarith
  ultimately show ?thesis
    using ok True by simp
qed

lemma reserve_ok:
  assumes "ledger_ok c" "reserveEntry v k n c = (err, c')"
  shows "ledger_ok c'" "cfg c' = cfg c" "totalSize c' \<le> totalSize c"
    "staleMap c' = staleMap c" "nextGeneration c' = nextGeneration c" "diskRoot c' = diskRoot c"
    "j = k \<or> active c j \<Longrightarrow> map_of (lruIndex c') j = map_of (lruIndex c) j"
    "j \<noteq> k \<Longrightarrow> map_of (reservations c') j = map_of (reservations c) j"
    "err \<noteq> None \<Longrightarrow> reservations c' = reservations c \<and> reservedSize c' = reservedSize c"
    "err = None \<Longrightarrow> 0 \<le> n \<and> map_of (reservations c') k = Some (max (n - entry_size c k) 0)
       \<and> reservedSize c' = reservedSize c - reserved_for c k + max (n - entry_size c k) 0"
    "err = None \<Longrightarrow> 0 < MaxSize (cfg c) \<Longrightarrow>
       totalSize c' + (reservedSize c - reserved_for c k) + n - entry_size c k \<le> MaxSize (cfg c)"
proof -
  obtain err0 c0 where e: "evictForAdmissionLocked v k n c = (err0, c0)" by (rule prod.exhaust)
  note ev = evict_ok [OF assms(1) e]
  have size: "entry_size c0 k = entry_size c k" using ev by (simp add: entry_size_def)
  have res: "reserved_for c0 k = reserved_for c k" "reservations c0 = reservations c" "reservedSize c0 = reservedSize c"
    using ev by (simp_all add: reserved_for_def same_but_entries_def)
  let ?g = "max (n - entry_size c k) 0"
  have c': "err = err0" "c' = (if err0 = None then c0\<lparr>reservedSize := reservedSize c + (?g - reserved_for c k),
      reservations := AList.update k ?g (reservations c)\<rparr> else c0)"
    using assms(2) by (auto simp: reserveEntry_def e Let_def size res split: option.splits)
  show "ledger_ok c'"
    using ev by (auto simp: c' ledger_ok_def go_map_simps mval_reserved res split: if_splits)
  show "cfg c' = cfg c" "totalSize c' \<le> totalSize c" "staleMap c' = staleMap c" "nextGeneration c' = nextGeneration c"
    "diskRoot c' = diskRoot c"
    using ev by (auto simp: c' same_but_entries_def)
  show "j = k \<or> active c j \<Longrightarrow> map_of (lruIndex c') j = map_of (lruIndex c) j"
    "j \<noteq> k \<Longrightarrow> map_of (reservations c') j = map_of (reservations c) j"
    "err \<noteq> None \<Longrightarrow> reservations c' = reservations c \<and> reservedSize c' = reservedSize c"
    "err = None \<Longrightarrow> 0 \<le> n \<and> map_of (reservations c') k = Some ?g
       \<and> reservedSize c' = reservedSize c - reserved_for c k + ?g"
    "err = None \<Longrightarrow> 0 < MaxSize (cfg c) \<Longrightarrow>
       totalSize c' + (reservedSize c - reserved_for c k) + n - entry_size c k \<le> MaxSize (cfg c)"
    using ev res by (auto simp: c' go_map_simps)
qed

subsection \<open>The admission contract\<close>

text \<open>
  What the writers rely on: a transaction on a key begins, reserves a size (perhaps several times),
  and then either publishes that size or releases the reservation. The laws speak of the committed
  total, the reserved growth, the limit, and of each key's committed and reserved size.
\<close>

locale admission =
  fixes inv :: "'s \<Rightarrow> bool" and total reserved limit :: "'s \<Rightarrow> int"
    and size_of res_of :: "'s \<Rightarrow> 'k \<Rightarrow> int" and act :: "'s \<Rightarrow> 'k \<Rightarrow> bool"
    and bgn :: "'k \<Rightarrow> 's \<Rightarrow> 's" and reserve :: "'k \<Rightarrow> int \<Rightarrow> 's \<Rightarrow> 'e option \<times> 's"
    and commit :: "'x \<Rightarrow> 'k \<Rightarrow> int \<Rightarrow> 's \<Rightarrow> 's" and rel :: "'k \<Rightarrow> 's \<Rightarrow> 's"
  assumes reserved_nonneg: "inv s \<Longrightarrow> 0 \<le> res_of s k"
    and begin_law: "inv s \<Longrightarrow> \<not> act s k \<Longrightarrow> inv (bgn k s) \<and> total (bgn k s) = total s \<and> reserved (bgn k s) = reserved s
      \<and> limit (bgn k s) = limit s \<and> act (bgn k s) k \<and> (\<forall>j. size_of (bgn k s) j = size_of s j)
      \<and> (\<forall>j. j \<noteq> k \<longrightarrow> act (bgn k s) j = act s j \<and> res_of (bgn k s) j = res_of s j)"
    and reserve_law: "inv s \<Longrightarrow> act s k \<Longrightarrow> reserve k n s = (err, s') \<Longrightarrow>
      inv s' \<and> limit s' = limit s \<and> total s' \<le> total s
      \<and> (\<forall>j. act s' j = act s j) \<and> (\<forall>j. act s j \<longrightarrow> size_of s' j = size_of s j)
      \<and> (\<forall>j. j \<noteq> k \<longrightarrow> res_of s' j = res_of s j)
      \<and> (if err = None then 0 \<le> n \<and> res_of s' k = max (n - size_of s k) 0
           \<and> reserved s' = reserved s - res_of s k + res_of s' k
           \<and> (0 < limit s \<longrightarrow> total s' + (reserved s - res_of s k) + n - size_of s k \<le> limit s)
         else res_of s' k = res_of s k \<and> reserved s' = reserved s)"
    and commit_law: "inv s \<Longrightarrow> 0 \<le> n \<Longrightarrow> inv (commit x k n s) \<and> limit (commit x k n s) = limit s
      \<and> total (commit x k n s) = total s - size_of s k + n \<and> reserved (commit x k n s) = reserved s - res_of s k
      \<and> \<not> act (commit x k n s) k
      \<and> (\<forall>j. j \<noteq> k \<longrightarrow> act (commit x k n s) j = act s j \<and> res_of (commit x k n s) j = res_of s j
           \<and> size_of (commit x k n s) j = size_of s j)"
    and release_law: "inv s \<Longrightarrow> inv (rel k s) \<and> limit (rel k s) = limit s \<and> total (rel k s) = total s
      \<and> reserved (rel k s) = reserved s - res_of s k \<and> \<not> act (rel k s) k
      \<and> (\<forall>j. size_of (rel k s) j = size_of s j)
      \<and> (\<forall>j. j \<noteq> k \<longrightarrow> act (rel k s) j = act s j \<and> res_of (rel k s) j = res_of s j)"
begin

definition fits :: "'s \<Rightarrow> bool" where
  "fits s \<longleftrightarrow> (0 < limit s \<longrightarrow> total s + reserved s \<le> limit s)"

definition covers :: "'s \<Rightarrow> ('k \<Rightarrow> int option) \<Rightarrow> bool" where
  \<comment> \<open>every admitted size is paid for by the key's old size and its reservation\<close>
  "covers s adm \<longleftrightarrow> (\<forall>k n. adm k = Some n \<longrightarrow> act s k \<and> 0 \<le> n \<and> n - size_of s k \<le> res_of s k)"

lemma begin_keeps: "inv s \<Longrightarrow> fits s \<Longrightarrow> covers s adm \<Longrightarrow> \<not> act s k \<Longrightarrow>
    inv (bgn k s) \<and> fits (bgn k s) \<and> covers (bgn k s) adm"
  using begin_law [of s k] unfolding fits_def covers_def by (metis reserved_nonneg)

lemma reserve_keeps:
  assumes "inv s" "fits s" "covers s adm" "act s k" "reserve k n s = (err, s')"
  shows "inv s' \<and> fits s' \<and> covers s' (if err = None then adm(k \<mapsto> n) else adm)"
proof -
  note r = reserve_law [OF assms(1,4,5)] and nn = reserved_nonneg [OF assms(1), of k]
  have "fits s'"
  proof (cases "err = None")
    case True
    show ?thesis unfolding fits_def
    proof
      assume "0 < limit s'"
      then have l: "total s' + (reserved s - res_of s k) + n - size_of s k \<le> limit s'"
        and t: "total s' \<le> total s" and "reserved s' = reserved s - res_of s k + max (n - size_of s k) 0"
        and f: "total s + reserved s \<le> limit s'"
        using r True assms(2) by (auto simp: fits_def)
      then show "total s' + reserved s' \<le> limit s'" using nn by (cases "n \<ge> size_of s k") simp_all
    qed
  next
    case False
    with r assms(2) show ?thesis by (auto simp: fits_def)
  qed
  moreover have "covers s' (if err = None then adm(k \<mapsto> n) else adm)"
    unfolding covers_def
  proof (intro allI impI)
    fix j m assume j: "(if err = None then adm(k \<mapsto> n) else adm) j = Some m"
    show "act s' j \<and> 0 \<le> m \<and> m - size_of s' j \<le> res_of s' j"
    proof (cases "j = k \<and> err = None")
      case True
      with j r assms(4) show ?thesis by simp
    next
      case False
      with j have "adm j = Some m" by (auto split: if_splits)
      with assms(3) r False show ?thesis by (cases "j = k") (auto simp: covers_def)
    qed
  qed
  ultimately show ?thesis using r by blast
qed

lemma commit_keeps:
  assumes "inv s" "fits s" "covers s adm" "adm k = Some n"
  shows "inv (commit x k n s) \<and> fits (commit x k n s) \<and> covers (commit x k n s) (adm(k := None))"
proof -
  have n: "0 \<le> n" "n - size_of s k \<le> res_of s k" using assms(3,4) by (auto simp: covers_def)
  note c = commit_law [OF assms(1) n(1), of x k]
  then have "fits (commit x k n s)" using assms(2) n by (auto simp: fits_def)
  moreover have "covers (commit x k n s) (adm(k := None))"
    using c assms(3) by (auto simp: covers_def)
  ultimately show ?thesis using c by blast
qed

lemma release_keeps:
  assumes "inv s" "fits s" "covers s adm"
  shows "inv (rel k s) \<and> fits (rel k s) \<and> covers (rel k s) (adm(k := None))"
  using release_law [OF assms(1), of k] reserved_nonneg [OF assms(1), of k] assms(2,3)
  by (auto simp: fits_def covers_def)

lemma shrink_keeps:
  assumes "fits s" "covers s adm" "inv s'" "limit s' = limit s" "total s' \<le> total s" "reserved s' = reserved s"
    and "\<And>j. act s' j = act s j \<and> res_of s' j = res_of s j" "\<And>j. adm' j \<noteq> None \<Longrightarrow> adm' j = adm j \<and> size_of s' j = size_of s j"
  shows "inv s' \<and> fits s' \<and> covers s' adm'"
proof -
  have "covers s' adm'"
    unfolding covers_def
  proof (intro allI impI)
    fix k n assume "adm' k = Some n"
    with assms(8) [of k] have "adm k = Some n" "size_of s' k = size_of s k" by auto
    with assms(2,7) show "act s' k \<and> 0 \<le> n \<and> n - size_of s' k \<le> res_of s' k"
      by (metis covers_def)
  qed
  moreover have "fits s'" using assms(1,4-6) by (auto simp: fits_def)
  ultimately show ?thesis using assms(3) by blast
qed

end

definition publish_entry :: "time \<times> string \<times> time \<Rightarrow> string \<Rightarrow> int \<Rightarrow> 'fs cache \<Rightarrow> 'fs cache" where
  "publish_entry x k n = (case x of (now, key, at) \<Rightarrow> trackEntry now key k n at)"

interpretation lg: admission ledger_ok totalSize reservedSize "\<lambda>c. MaxSize (cfg c)" entry_size reserved_for active
  beginReservation "reserveEntry v" publish_entry releaseReservation
  for v :: "'fs vfs"
proof
  fix s :: "'fs cache" and k :: string assume i: "ledger_ok s"
  show "0 \<le> reserved_for s k" using i by (rule reserved_for_nonneg)
  show "ledger_ok (releaseReservation k s) \<and> MaxSize (cfg (releaseReservation k s)) = MaxSize (cfg s)
    \<and> totalSize (releaseReservation k s) = totalSize s
    \<and> reservedSize (releaseReservation k s) = reservedSize s - reserved_for s k \<and> \<not> active (releaseReservation k s) k
    \<and> (\<forall>j. entry_size (releaseReservation k s) j = entry_size s j)
    \<and> (\<forall>j. j \<noteq> k \<longrightarrow> active (releaseReservation k s) j = active s j
         \<and> reserved_for (releaseReservation k s) j = reserved_for s j)"
    using release_ok [OF i, of k]
    by (auto simp: releaseReservation_def active_def entry_size_def reserved_for_def go_map_simps split: option.split)
  assume "\<not> active s k"
  with begin_ok [OF i this] show "ledger_ok (beginReservation k s) \<and> totalSize (beginReservation k s) = totalSize s
    \<and> reservedSize (beginReservation k s) = reservedSize s \<and> MaxSize (cfg (beginReservation k s)) = MaxSize (cfg s)
    \<and> active (beginReservation k s) k \<and> (\<forall>j. entry_size (beginReservation k s) j = entry_size s j)
    \<and> (\<forall>j. j \<noteq> k \<longrightarrow> active (beginReservation k s) j = active s j \<and> reserved_for (beginReservation k s) j = reserved_for s j)"
    by (auto simp: beginReservation_def active_def entry_size_def reserved_for_def go_map_simps)
next
  fix s s' :: "'fs cache" and k :: string and n err
  assume i: "ledger_ok s" and a: "active s k" and r: "reserveEntry v k n s = (err, s')"
  note ok = reserve_ok [OF i r]
  have act: "active s' j = active s j" for j
    using ok(8-10) a by (cases "j = k"; cases err) (auto simp: active_def)
  have size: "active s j \<Longrightarrow> entry_size s' j = entry_size s j" for j using ok(7) [of j] by (simp add: entry_size_def)
  have res: "j \<noteq> k \<Longrightarrow> reserved_for s' j = reserved_for s j" for j using ok(8) [of j] by (simp add: reserved_for_def)
  have "if err = None then 0 \<le> n \<and> reserved_for s' k = max (n - entry_size s k) 0
           \<and> reservedSize s' = reservedSize s - reserved_for s k + reserved_for s' k
           \<and> (0 < MaxSize (cfg s) \<longrightarrow> totalSize s' + (reservedSize s - reserved_for s k) + n - entry_size s k \<le> MaxSize (cfg s))
         else reserved_for s' k = reserved_for s k \<and> reservedSize s' = reservedSize s"
    using ok(9-11) by (auto simp: reserved_for_def)
  with ok(1-3) act size res show "ledger_ok s' \<and> MaxSize (cfg s') = MaxSize (cfg s) \<and> totalSize s' \<le> totalSize s
      \<and> (\<forall>j. active s' j = active s j) \<and> (\<forall>j. active s j \<longrightarrow> entry_size s' j = entry_size s j)
      \<and> (\<forall>j. j \<noteq> k \<longrightarrow> reserved_for s' j = reserved_for s j)
      \<and> (if err = None then 0 \<le> n \<and> reserved_for s' k = max (n - entry_size s k) 0
           \<and> reservedSize s' = reservedSize s - reserved_for s k + reserved_for s' k
           \<and> (0 < MaxSize (cfg s) \<longrightarrow> totalSize s' + (reservedSize s - reserved_for s k) + n - entry_size s k \<le> MaxSize (cfg s))
         else reserved_for s' k = reserved_for s k \<and> reservedSize s' = reservedSize s)"
    by simp
next
  fix s :: "'fs cache" and k :: string and n :: int and x :: "time \<times> string \<times> time"
  assume i: "ledger_ok s" and n: "0 \<le> n"
  obtain now key at where x: "x = (now, key, at)" by (rule prod_cases3)
  have "ledger_ok (publish_entry x k n s)" using i n by (simp add: publish_entry_def x track_ok)
  with track_sizes [OF i] x show "ledger_ok (publish_entry x k n s)
      \<and> MaxSize (cfg (publish_entry x k n s)) = MaxSize (cfg s)
      \<and> totalSize (publish_entry x k n s) = totalSize s - entry_size s k + n
      \<and> reservedSize (publish_entry x k n s) = reservedSize s - reserved_for s k \<and> \<not> active (publish_entry x k n s) k
      \<and> (\<forall>j. j \<noteq> k \<longrightarrow> active (publish_entry x k n s) j = active s j
           \<and> reserved_for (publish_entry x k n s) j = reserved_for s j \<and> entry_size (publish_entry x k n s) j = entry_size s j)"
    by (simp add: publish_entry_def active_def reserved_for_def entry_size_def go_map_simps)
qed

subsection \<open>Discards and sweeps\<close>

lemma discard_ok:
  assumes "ledger_ok c" "discardUnadmitted v now key k sz at c = (err, c')"
  shows "ledger_ok c'" "reservations c' = reservations c" "reservedSize c' = reservedSize c" "cfg c' = cfg c"
    "staleMap c' = staleMap c" "j \<noteq> k \<Longrightarrow> map_of (lruIndex c') j = map_of (lruIndex c) j"
    "\<not> err \<Longrightarrow> totalSize c' = totalSize c - entry_size c k \<and> map_of (lruIndex c') k = None"
proof -
  have "ledger_ok c' \<and> reservations c' = reservations c \<and> reservedSize c' = reservedSize c \<and> cfg c' = cfg c
    \<and> staleMap c' = staleMap c \<and> (\<forall>j. j \<noteq> k \<longrightarrow> map_of (lruIndex c') j = map_of (lruIndex c) j)
    \<and> (\<not> err \<longrightarrow> totalSize c' = totalSize c - entry_size c k \<and> map_of (lruIndex c') k = None)"
  proof (cases "map_of (lruIndex c) k")
    case None
    obtain e s where "remove_files v k (fs c) = (e, s)" by (rule prod.exhaust)
    with None assms show ?thesis
      by (auto simp: discardUnadmitted_def entry_size_def ledger_ok_def Let_def go_map_simps mval_def split: if_splits)
  next
    case (Some entry)
    obtain e c1 where r: "removeEntry v entry c = (e, c1)" by (rule prod.exhaust)
    note rm = removeEntry_ok [OF assms(1) Some r]
    have c': "err = e" "c' = (if e \<and> sz > esize entry then c1\<lparr>totalSize := totalSize c1 + (sz - esize entry),
        lruIndex := AList.update k (entry\<lparr>esize := sz\<rparr>) (lruIndex c1)\<rparr> else c1)"
      using assms(2) by (auto simp: discardUnadmitted_def Some r split: if_splits)
    have "ledger_ok c'"
      using rm(1,2) ledger_entry [OF assms(1) Some] Some unfolding c'
      by (auto simp: ledger_ok_def go_map_simps mval_def split: if_splits)
    then show ?thesis using rm Some by (auto simp: c' entry_size_def go_map_simps)
  qed
  then show "ledger_ok c'" "reservations c' = reservations c" "reservedSize c' = reservedSize c" "cfg c' = cfg c"
    "staleMap c' = staleMap c" "j \<noteq> k \<Longrightarrow> map_of (lruIndex c') j = map_of (lruIndex c) j"
    "\<not> err \<Longrightarrow> totalSize c' = totalSize c - entry_size c k \<and> map_of (lruIndex c') k = None"
    by blast+
qed

text \<open>A sweep that takes only inactive entries.\<close>

lemma sweep_inactive:
  assumes "ledger_ok c" "sweep v go pick ks c = (gone, left, c')"
    and "\<And>c entry. active c (ehashedKey entry) \<Longrightarrow> pick c entry \<noteq> Take"
  shows "ledger_ok c'" "same_but_entries c c'" "totalSize c' \<le> totalSize c"
    "active c j \<Longrightarrow> map_of (lruIndex c') j = map_of (lruIndex c) j"
proof -
  note ok = sweep_ok [OF assms(1,2)]
  show "ledger_ok c'" "same_but_entries c c'" using ok by auto
  have "0 \<le> sum_list (map esize gone)"
  proof (rule sum_list_nonneg)
    fix x assume "x \<in> set (map esize gone)"
    then obtain e where e: "e \<in> set gone" "x = esize e" by auto
    then have "map_of (lruIndex c) (ehashedKey e) = Some e" using ok by blast
    with ledger_entry [OF assms(1) this] e show "0 \<le> x" by simp
  qed
  with ok show "totalSize c' \<le> totalSize c" by simp
  show "map_of (lruIndex c') j = map_of (lruIndex c) j" if "active c j"
  proof (cases "map_of (lruIndex c) j")
    case None
    then show ?thesis using ok by auto
  next
    case (Some entry)
    have "pick c0 entry \<noteq> Take" if "same_but_entries c c0" for c0
      using that \<open>active c j\<close> ledger_entry [OF assms(1) Some]
      by (intro assms(3)) (simp add: active_def same_but_entries_def)
    from sweep_keeps [OF assms(1,2) Some this] Some show ?thesis by simp
  qed
qed

lemma ttl_sweep:
  assumes "ledger_ok c" "cleanupTTLExpired v now c = (n, b, complete, c')"
  shows "ledger_ok c'" "same_but_entries c c'" "totalSize c' \<le> totalSize c"
    "active c j \<Longrightarrow> map_of (lruIndex c') j = map_of (lruIndex c) j"
proof -
  let ?pick = "\<lambda>c entry. if \<not> estoredAt entry < now - TTL (cfg c') then Pass else if active c (ehashedKey entry) then Keep else Take"
  obtain gone left where sw: "sweep v (\<lambda>_. True) (\<lambda>c0 entry. if \<not> estoredAt entry < now - TTL (cfg c) then Pass
      else if active c0 (ehashedKey entry) then Keep else Take) (rev (lruList c)) c = (gone, left, c')"
    using assms(2) by (auto simp: cleanupTTLExpired_def Let_def split: prod.splits)
  note sw' = sweep_inactive [OF assms(1) sw]
  show "ledger_ok c'" "same_but_entries c c'" "totalSize c' \<le> totalSize c"
    "active c j \<Longrightarrow> map_of (lruIndex c') j = map_of (lruIndex c) j"
    by (rule sw'; simp)+
qed

lemma max_size_sweep:
  assumes "ledger_ok c" "enforceMaxSize v c = (n, b, c')"
  shows "ledger_ok c'" "same_but_entries c c'" "totalSize c' \<le> totalSize c"
    "active c j \<Longrightarrow> map_of (lruIndex c') j = map_of (lruIndex c) j"
proof -
  obtain gone left where sw: "sweep v (\<lambda>c. totalSize c > MaxSize (cfg c))
      (\<lambda>c entry. if active c (ehashedKey entry) then Pass else Take) (rev (lruList c)) c = (gone, left, c')"
    using assms(2) by (auto simp: enforceMaxSize_def Let_def split: prod.splits)
  note sw' = sweep_inactive [OF assms(1) sw]
  show "ledger_ok c'" "same_but_entries c c'" "totalSize c' \<le> totalSize c"
    "active c j \<Longrightarrow> map_of (lruIndex c') j = map_of (lruIndex c) j"
    by (rule sw'; simp)+
qed

subsection \<open>Interleaved transactions\<close>

text \<open>
  The writers of different keys, lookups and cleanups interleave freely; each step runs under
  \<^verbatim>\<open>lruMutex\<close>. A key's writer lock means that its transaction begins only when none is active.
  \<open>adm\<close> records the size each active transaction was last admitted with, which is the size it
  publishes. The flag \<open>lossy\<close> allows discards whose files the backing store refuses to remove.
\<close>

inductive ledger_step :: "'fs vfs \<Rightarrow> bool \<Rightarrow> 'fs cache \<times> (string \<Rightarrow> int option) \<Rightarrow> 'fs cache \<times> (string \<Rightarrow> int option) \<Rightarrow> bool"
  for v :: "'fs vfs" and lossy :: bool where
  begin_tx: "\<not> active c k \<Longrightarrow> ledger_step v lossy (c, adm) (beginReservation k c, adm)"
| admit: "active c k \<Longrightarrow> reserveEntry v k n c = (None, c') \<Longrightarrow> ledger_step v lossy (c, adm) (c', adm(k \<mapsto> n))"
| refuse: "active c k \<Longrightarrow> reserveEntry v k n c = (Some err, c') \<Longrightarrow> ledger_step v lossy (c, adm) (c', adm)"
| publish: "adm k = Some n \<Longrightarrow> ledger_step v lossy (c, adm) (trackEntry now key k n at c, adm(k := None))"
| release: "ledger_step v lossy (c, adm) (releaseReservation k c, adm(k := None))"
| discard: "active c k \<Longrightarrow> discardUnadmitted v now key k sz at c = (err, c') \<Longrightarrow> err \<longrightarrow> lossy \<Longrightarrow>
    ledger_step v lossy (c, adm) (c', adm(k := None))"
| touch: "ledger_step v lossy (c, adm) (touchEntry now k c, adm)"
| expire: "cleanupTTLExpired v now c = (n, b, complete, c') \<Longrightarrow> ledger_step v lossy (c, adm) (c', adm)"
| enforce: "enforceMaxSize v c = (n, b, c') \<Longrightarrow> ledger_step v lossy (c, adm) (c', adm)"

inductive_cases ledger_stepE: "ledger_step v lossy s s'"

abbreviation ledger_runs :: "'fs vfs \<Rightarrow> bool \<Rightarrow> 'fs cache \<times> (string \<Rightarrow> int option) \<Rightarrow> 'fs cache \<times> (string \<Rightarrow> int option) \<Rightarrow> bool" where
  "ledger_runs v lossy \<equiv> (ledger_step v lossy)\<^sup>*\<^sup>*"

lemma ledger_step_ok:
  assumes "ledger_step v lossy s s'" "ledger_ok (fst s)" "\<forall>k n. snd s k = Some n \<longrightarrow> 0 \<le> n"
  shows "ledger_ok (fst s') \<and> (\<forall>k n. snd s' k = Some n \<longrightarrow> 0 \<le> n)"
proof -
  from assms(1) have "ledger_ok (fst s')"
  proof (cases rule: ledger_step.cases)
    case (begin_tx c k adm)
    with assms(2) show ?thesis by (simp add: begin_ok)
  next
    case (admit c k n c' adm)
    with assms(2) reserve_ok(1) [of c v k n None c'] show ?thesis by simp
  next
    case (refuse c k n err c' adm)
    with assms(2) reserve_ok(1) [of c v k n "Some err" c'] show ?thesis by simp
  next
    case (publish adm k n c now key at)
    with assms(2,3) show ?thesis by (simp add: track_ok)
  next
    case (release c adm k)
    with assms(2) show ?thesis by (simp add: releaseReservation_def release_ok)
  next
    case (discard c k now key sz at err c' adm)
    with assms(2) discard_ok(1) [of c v now key k sz at err c'] show ?thesis by simp
  next
    case (touch c adm now k)
    with assms(2) show ?thesis by (simp add: touch_ok)
  next
    case (expire now c n b complete c' adm)
    with assms(2) ttl_sweep(1) [of c v now n b complete c'] show ?thesis by simp
  next
    case (enforce c n b c' adm)
    with assms(2) max_size_sweep(1) [of c v n b c'] show ?thesis by simp
  qed
  moreover from assms(1) have "\<forall>k n. snd s' k = Some n \<longrightarrow> 0 \<le> n"
  proof (cases rule: ledger_step.cases)
    case (admit c k n c' adm)
    with assms(2,3) reserve_ok(10) [of c v k n None c'] show ?thesis by simp
  qed (use assms(3) in simp_all)
  ultimately show ?thesis ..
qed

lemma touch_frame:
  "totalSize (touchEntry now k c) = totalSize c" "reservedSize (touchEntry now k c) = reservedSize c"
  "cfg (touchEntry now k c) = cfg c" "reservations (touchEntry now k c) = reservations c"
  "entry_size (touchEntry now k c) j = entry_size c j"
  by (auto simp: touchEntry_def entry_size_def go_map_simps split: option.split)

lemma same_admissions: "same_but_entries c c' \<Longrightarrow> active c' j = active c j \<and> reserved_for c' j = reserved_for c j"
  by (simp add: same_but_entries_def active_def reserved_for_def)

lemma ledger_step_fits:
  assumes "ledger_step v False s s'" "ledger_ok (fst s)" "lg.fits (fst s)" "lg.covers (fst s) (snd s)"
  shows "ledger_ok (fst s') \<and> lg.fits (fst s') \<and> lg.covers (fst s') (snd s')"
  using assms(1)
proof (cases rule: ledger_step.cases)
  case (begin_tx c k adm)
  with assms lg.begin_keeps [of c adm k] show ?thesis by simp
next
  case (admit c k n c' adm)
  with assms lg.reserve_keeps [of c adm k v n None c'] show ?thesis by simp
next
  case (refuse c k n err c' adm)
  with assms lg.reserve_keeps [of c adm k v n "Some err" c'] show ?thesis by simp
next
  case (publish adm k n c now key at)
  with assms lg.commit_keeps [of c adm k n "(now, key, at)"] show ?thesis by (simp add: publish_entry_def)
next
  case (release c adm k)
  with assms lg.release_keeps [of c adm k] show ?thesis by simp
next
  case (discard c k now key sz at err c' adm)
  then have d: "ledger_ok c" "discardUnadmitted v now key k sz at c = (False, c')" using assms by auto
  note ok = discard_ok [OF d]
  have "0 \<le> entry_size c k" using d(1) by (rule entry_size_nonneg)
  moreover have "entry_size c' j = entry_size c j" if "j \<noteq> k" for j using ok(6) that by (simp add: entry_size_def)
  moreover have "active c' j = active c j \<and> reserved_for c' j = reserved_for c j" for j
    using ok(2) by (simp add: active_def reserved_for_def)
  ultimately have "ledger_ok c' \<and> lg.fits c' \<and> lg.covers c' (adm(k := None))"
    using discard(1) assms(3,4) ok(1,3,4,7) by (intro lg.shrink_keeps [of c adm]) (auto split: if_splits)
  with discard(2) show ?thesis by simp
next
  case (touch c adm now k)
  with assms lg.shrink_keeps [of c adm "touchEntry now k c" adm] touch_ok [of c now k] show ?thesis
    by (simp add: touch_frame active_def reserved_for_def)
next
  case (expire now c n b complete c' adm)
  with assms have c: "ledger_ok c" "lg.fits c" "lg.covers c adm" by auto
  note sw = ttl_sweep [OF c(1) expire(3)]
  have "adm j \<noteq> None \<Longrightarrow> entry_size c' j = entry_size c j" for j
    using c(3) sw(4) by (auto simp: lg.covers_def entry_size_def)
  with c sw(1-3) expire same_admissions [OF sw(2)] lg.shrink_keeps [of c adm c' adm] show ?thesis
    by (auto simp: same_but_entries_def)
next
  case (enforce c n b c' adm)
  with assms have c: "ledger_ok c" "lg.fits c" "lg.covers c adm" by auto
  note sw = max_size_sweep [OF c(1) enforce(3)]
  have "adm j \<noteq> None \<Longrightarrow> entry_size c' j = entry_size c j" for j
    using c(3) sw(4) by (auto simp: lg.covers_def entry_size_def)
  with c sw(1-3) enforce same_admissions [OF sw(2)] lg.shrink_keeps [of c adm c' adm] show ?thesis
    by (auto simp: same_but_entries_def)
qed

lemma ledger_step_cfg: "ledger_step v lossy s s' \<Longrightarrow> ledger_ok (fst s) \<Longrightarrow> cfg (fst s') = cfg (fst s)"
  by (erule ledger_step.cases)
    (auto simp: beginReservation_def track_sizes(3) releaseReservation_def touch_frame
      dest: reserve_ok(2) discard_ok(4) ttl_sweep(2) max_size_sweep(2) simp: same_but_entries_def)

lemma ledger_runs_ok:
  assumes "ledger_runs v lossy s s'" "ledger_ok (fst s)" "snd s = (\<lambda>_. None)"
  shows "ledger_ok (fst s') \<and> cfg (fst s') = cfg (fst s) \<and> (\<forall>k n. snd s' k = Some n \<longrightarrow> 0 \<le> n)"
  using assms(1)
proof (induction rule: rtranclp_induct)
  case base
  with assms(2,3) show ?case by simp
next
  case (step s1 s2)
  with ledger_step_ok [OF step(2)] ledger_step_cfg [OF step(2)] show ?case by metis
qed

text \<open>
  The accounting is exact. However writers, lookups and cleanups interleave, and even if the
  backing store refuses removals, the total is the sum of the sizes of the tracked entries, the
  reserved size is the sum of the open reservations, and the LRU list holds each indexed entry
  exactly once.
\<close>

lemma ledger_exact:
  assumes "ledger_runs v lossy (c0, \<lambda>_. None) (c, adm)" "ledger_ok c0"
  shows "totalSize c = sum_list (map (\<lambda>(k, entry). esize entry) (lruIndex c))
    \<and> reservedSize c = sum_list (map (\<lambda>(k, g). g) (reservations c))
    \<and> distinct (lruList c) \<and> set (lruList c) = fst ` set (lruIndex c)
    \<and> (\<forall>(k, entry) \<in> set (lruIndex c). ehashedKey entry = k \<and> 0 \<le> esize entry)"
proof -
  have ok: "ledger_ok c" using ledger_runs_ok [OF assms(1)] assms(2) by simp
  then have e: "ehashedKey entry = k \<and> 0 \<le> esize entry" if "(k, entry) \<in> set (lruIndex c)" for k entry
    using that ledger_entry [OF ok] by (metis go_map_def ledger_ok_def map_of_eq_Some_iff)
  have "set (lruList c) = fst ` set (lruIndex c)"
    using ok by (auto simp: ledger_ok_def map_of_eq_None_iff)
  with ok e show ?thesis by (auto simp: ledger_ok_def msum_def)
qed

definition example_config :: CacheConfig where
  "example_config = DefaultCacheConfig\<lparr>MaxSize := 10\<rparr>"

definition example_run :: "(string, string) gomap cache" where
  "example_run = trackEntry 5 ''key'' ''a'' 4 7 (snd (reserveEntry mem_vfs ''a'' 4 (beginReservation ''a'' (empty_cache [] False example_config))))"

lemma empty_ledger_ok: "ledger_ok (empty_cache s disk config)"
  by (simp add: ledger_ok_def empty_cache_def msum_def)

lemma example_run_runs: "ledger_runs mem_vfs lossy (empty_cache [] False example_config, \<lambda>_. None) (example_run, \<lambda>_. None)"
proof -
  let ?c0 = "empty_cache [] False example_config :: (string, string) gomap cache"
  let ?c1 = "beginReservation ''a'' ?c0"
  have 1: "ledger_step mem_vfs lossy (?c0, \<lambda>_. None) (?c1, \<lambda>_. None)"
    by (rule begin_tx) (simp add: active_def empty_cache_def)
  let ?c2 = "snd (reserveEntry mem_vfs ''a'' 4 ?c1)"
  have a: "active ?c1 ''a''" by (simp add: active_def beginReservation_def update_conv')
  have "fst (reserveEntry mem_vfs ''a'' 4 ?c1) = None" by code_simp
  then have r: "reserveEntry mem_vfs ''a'' 4 ?c1 = (None, ?c2)" by (metis prod.collapse)
  have 2: "ledger_step mem_vfs lossy (?c1, \<lambda>_. None) (?c2, (\<lambda>_. None)(''a'' \<mapsto> 4))"
    using a r by (rule admit)
  have "ledger_step mem_vfs lossy (?c2, (\<lambda>_. None)(''a'' \<mapsto> 4)) (example_run, ((\<lambda>_. None)(''a'' \<mapsto> 4))(''a'' := None))"
    unfolding example_run_def by (rule publish) simp
  moreover have "((\<lambda>_. None)(''a'' \<mapsto> (4 :: int)))(''a'' := None) = (\<lambda>_. None)" by auto
  ultimately have 3: "ledger_step mem_vfs lossy (?c2, (\<lambda>_. None)(''a'' \<mapsto> 4)) (example_run, \<lambda>_. None)" by metis
  have "ledger_runs mem_vfs lossy (?c2, (\<lambda>_. None)(''a'' \<mapsto> 4)) (example_run, \<lambda>_. None)"
    using 3 by (rule r_into_rtranclp)
  with 2 have "ledger_runs mem_vfs lossy (?c1, \<lambda>_. None) (example_run, \<lambda>_. None)"
    by (rule converse_rtranclp_into_rtranclp)
  with 1 show ?thesis by (rule converse_rtranclp_into_rtranclp)
qed

lemma ledger_exact_witness:
  "totalSize example_run = sum_list (map (\<lambda>(k, entry). esize entry) (lruIndex example_run)) \<and> totalSize example_run = 4"
proof -
  have "totalSize example_run = 4" by code_simp
  with ledger_exact [OF example_run_runs empty_ledger_ok] show ?thesis by blast
qed

text \<open>
  C1: the size limit holds. If a cache with a positive \<^verbatim>\<open>MaxSize\<close> starts within it, then after any
  interleaving of transactions, lookups and cleanups the committed bytes and the growth reserved
  for the transactions still running stay together within \<^verbatim>\<open>MaxSize\<close>, provided that failed
  transactions could remove what they had written.
\<close>

theorem capacity_never_exceeded:
  assumes "ledger_runs v False (c0, \<lambda>_. None) (c, adm)" "ledger_ok c0"
    and "0 < MaxSize (cfg c0)" "totalSize c0 + reservedSize c0 \<le> MaxSize (cfg c0)"
  shows "0 \<le> totalSize c \<and> 0 \<le> reservedSize c \<and> totalSize c + reservedSize c \<le> MaxSize (cfg c0)"
proof -
  have "ledger_ok c \<and> lg.fits c \<and> lg.covers c adm"
    using assms(1)
  proof (induction rule: rtranclp_induct2)
    case refl
    with assms(2-4) show ?case by (simp add: lg.fits_def lg.covers_def)
  next
    case (step c1 adm1 c2 adm2)
    with ledger_step_fits [OF step(2)] show ?case by simp
  qed
  moreover have "cfg c = cfg c0" using ledger_runs_ok [OF assms(1)] assms(2) by simp
  moreover have "0 \<le> totalSize c" "0 \<le> reservedSize c"
    using calculation(1) order_trans [OF entry_size_nonneg total_ge_size] order_trans [OF reserved_for_nonneg reserved_le]
    by blast+
  ultimately show ?thesis using assms(3) by (simp add: lg.fits_def)
qed

lemma capacity_never_exceeded_witness:
  "totalSize example_run + reservedSize example_run \<le> 10"
proof -
  have "MaxSize (cfg (empty_cache [] False example_config :: (string, string) gomap cache)) = 10" by code_simp
  then show ?thesis
    using capacity_never_exceeded [OF example_run_runs empty_ledger_ok] by (simp add: empty_cache_def)
qed

subsection \<open>Which entries are evicted\<close>

lemma sweep_least_recent:
  fixes c :: "'fs cache" and k :: string
  defines "pick \<equiv> \<lambda>c entry. if ehashedKey entry = k \<or> active c (ehashedKey entry) then Pass else Take"
  assumes "ledger_ok c" "distinct ks" "set ks \<subseteq> set (lruList c)"
    and rm: "\<And>j s. \<not> fst (remove_files v j s)"
    and sw: "sweep v (\<lambda>c. T < totalSize c) pick ks c = (gone, left, c')"
    and cand: "cand = filter (\<lambda>j. j \<noteq> k \<and> \<not> active c j) ks"
  shows "\<exists>m \<le> length cand. lruList c' = filter (\<lambda>j. j \<notin> set (take m cand)) (lruList c)
      \<and> totalSize c' = totalSize c - sum_list (map (entry_size c) (take m cand))
      \<and> (\<forall>i < m. T < totalSize c - sum_list (map (entry_size c) (take i cand)))
      \<and> (totalSize c' \<le> T \<or> m = length cand)"
  using assms(2-4) sw cand
proof (induction ks arbitrary: c gone left cand)
  case Nil
  then show ?case by simp
next
  case (Cons j ks)
  then obtain entry where e: "map_of (lruIndex c) j = Some entry" by (auto simp: ledger_ok_def)
  then have j: "ehashedKey entry = j" using ledger_entry Cons.prems(1) by blast
  show ?case
  proof (cases "T < totalSize c")
    case False
    with Cons.prems(4) have "c' = c" by auto
    with False show ?thesis by (intro exI [of _ 0]) simp
  next
    case go: True
    show ?thesis
    proof (cases "j = k \<or> active c j")
      case True
      then have "cand = filter (\<lambda>j. j \<noteq> k \<and> \<not> active c j) ks" "sweep v (\<lambda>c. T < totalSize c) pick ks c = (gone, left, c')"
        using Cons.prems(4,5) go e j by (auto simp: pick_def)
      then show ?thesis using Cons.IH [of c gone left cand] Cons.prems(1-3) by simp
    next
      case False
      obtain err c1 where r: "removeEntry v entry c = (err, c1)" by (rule prod.exhaust)
      then have err: "\<not> err" using rm [of j "fs c"]
        by (auto simp: removeEntry_def j Let_def split: prod.splits if_splits)
      note ok = removeEntry_ok [OF Cons.prems(1) e r]
      obtain g l where sw1: "sweep v (\<lambda>c. T < totalSize c) pick ks c1 = (g, l, c')"
        using Cons.prems(4) go e j False r by (auto simp: pick_def split: prod.splits)
      let ?cand = "filter (\<lambda>j. j \<noteq> k \<and> \<not> active c1 j) ks"
      have c1: "?cand = filter (\<lambda>j. j \<noteq> k \<and> \<not> active c j) ks" using ok(5) by (simp add: active_def)
      have cand: "cand = j # ?cand" using Cons.prems(5) False c1 by simp
      have ks: "set ks \<subseteq> set (lruList c1)" "j \<notin> set ks" "distinct ks"
        using Cons.prems(1-3) ok(3) err by (auto simp: ledger_ok_def in_set_remove1)
      from Cons.IH [OF ok(1) ks(3,1) sw1 refl] obtain m where m: "m \<le> length ?cand"
        "lruList c' = filter (\<lambda>j. j \<notin> set (take m ?cand)) (lruList c1)"
        "totalSize c' = totalSize c1 - sum_list (map (entry_size c1) (take m ?cand))"
        "\<forall>i < m. T < totalSize c1 - sum_list (map (entry_size c1) (take i ?cand))" "totalSize c' \<le> T \<or> m = length ?cand"
        by blast
      have size: "map (entry_size c1) (take i ?cand) = map (entry_size c) (take i ?cand)" for i
        using ks(2) ok(2) err by (auto simp: entry_size_def go_map_simps dest: in_set_takeD)
      have t1: "totalSize c1 = totalSize c - entry_size c j" using ok(4) err e by (simp add: entry_size_def)
      have lists: "lruList c1 = filter (\<lambda>i. i \<noteq> j) (lruList c)"
        using ok(3) err Cons.prems(1) by (simp add: ledger_ok_def distinct_remove1_removeAll removeAll_filter_not_eq)
          (simp add: conj_commute eq_commute)
      show ?thesis
      proof (intro exI [of _ "Suc m"] conjI allI impI)
        show "lruList c' = filter (\<lambda>i. i \<notin> set (take (Suc m) cand)) (lruList c)"
          using m(2) lists cand by (simp add: conj_commute)
        fix i assume "i < Suc m"
        then show "T < totalSize c - sum_list (map (entry_size c) (take i cand))"
          using m(4) go size t1 cand by (cases i) (auto simp: algebra_simps)
      qed (use m size t1 cand in auto)
    qed
  qed
qed

text \<open>
  C38: eviction takes the least recently used entries and no more than needed. When removals succeed,
  admitting an entry removes the first \<open>m\<close> evictable ones counted from the back of the LRU list
  (neither the key being written nor a key with an open reservation), with \<open>m\<close> the least number
  that makes room; the others keep their order. Admission fails exactly if even all of them
  would not make room.
\<close>

theorem evicts_least_recent:
  assumes "ledger_ok c" "\<And>j s. \<not> fst (remove_files v j s)" "0 \<le> n" "n \<le> MaxSize (cfg c)" "0 < MaxSize (cfg c)"
    and "evictForAdmissionLocked v k n c = (err, c')"
    and "room = MaxSize (cfg c) - (reservedSize c - reserved_for c k) - n + entry_size c k"
    and "cand = filter (\<lambda>j. j \<noteq> k \<and> \<not> active c j) (rev (lruList c))"
  shows "\<exists>m \<le> length cand. lruList c' = filter (\<lambda>j. j \<notin> set (take m cand)) (lruList c)
      \<and> totalSize c' = totalSize c - sum_list (map (entry_size c) (take m cand))
      \<and> (\<forall>i < m. room < totalSize c - sum_list (map (entry_size c) (take i cand)))
      \<and> (err = None \<longleftrightarrow> totalSize c' \<le> room) \<and> (err = None \<or> m = length cand)"
proof -
  obtain gone left where sw: "sweep v (\<lambda>c. room < totalSize c)
      (\<lambda>c entry. if ehashedKey entry = k \<or> active c (ehashedKey entry) then Pass else Take) (rev (lruList c)) c = (gone, left, c')"
    and err: "err = None \<longleftrightarrow> totalSize c' \<le> room"
    using assms(3-7) by (auto simp: evictForAdmissionLocked_def Let_def split: prod.splits if_splits)
  have "distinct (rev (lruList c))" using assms(1) by (simp add: ledger_ok_def)
  from sweep_least_recent [OF assms(1) this _ assms(2) sw assms(8)] err show ?thesis
    by auto
qed

definition example_lru :: "(string, string) gomap cache" where
  "example_lru = trackEntry 0 ''k3'' ''c'' 3 30 (trackEntry 0 ''k2'' ''b'' 4 20 (trackEntry 0 ''k1'' ''a'' 2 10
     (empty_cache [] False example_config)))"

lemma mem_remove_succeeds: "\<not> fst (remove_files mem_vfs j s)"
  by (simp add: remove_files_def mem_vfs_def)

lemma evicts_least_recent_witness:
  "\<exists>m \<le> 3. lruList (snd (evictForAdmissionLocked mem_vfs ''d'' 4 example_lru))
     = filter (\<lambda>j. j \<notin> set (take m [''a'', ''b'', ''c''])) [''c'', ''b'', ''a'']
     \<and> lruList (snd (evictForAdmissionLocked mem_vfs ''d'' 4 example_lru)) = [''c'']"
proof -
  obtain err c' where r: "evictForAdmissionLocked mem_vfs ''d'' 4 example_lru = (err, c')" by (rule prod.exhaust)
  have ok: "ledger_ok example_lru"
    unfolding example_lru_def by (intro track_ok empty_ledger_ok) simp_all
  have f: "MaxSize (cfg example_lru) = 10"
    "filter (\<lambda>j. j \<noteq> ''d'' \<and> \<not> active example_lru j) (rev (lruList example_lru)) = [''a'', ''b'', ''c'']"
    "lruList example_lru = [''c'', ''b'', ''a'']" "lruList (snd (evictForAdmissionLocked mem_vfs ''d'' 4 example_lru)) = [''c'']"
    by code_simp+
  have "(0 :: int) \<le> 4" "4 \<le> MaxSize (cfg example_lru)" "0 < MaxSize (cfg example_lru)" by (simp_all add: f(1))
  from evicts_least_recent [OF ok mem_remove_succeeds this r refl f(2) [symmetric]]
  obtain m where "m \<le> length [''a'', ''b'', ''c'']" "lruList c' = filter (\<lambda>j. j \<notin> set (take m [''a'', ''b'', ''c''])) (lruList example_lru)"
    by blast
  then have "m \<le> 3 \<and> lruList (snd (evictForAdmissionLocked mem_vfs ''d'' 4 example_lru))
      = filter (\<lambda>j. j \<notin> set (take m [''a'', ''b'', ''c''])) [''c'', ''b'', ''a'']"
    unfolding r f(3) snd_conv by (intro conjI) simp_all
  with f(4) show ?thesis by blast
qed

end
