(* ===== verification/Files.thy ===== *)
theory Files
  imports Cache_State
begin

text \<open>
  Writing files: \<^verbatim>\<open>vfsWrite\<close> and \<^verbatim>\<open>atomicWriteFile\<close> of \<^verbatim>\<open>src/cache.go\<close>, and what a file system
  promises. A reader is the bytes it delivers and whether it then fails (its context was
  cancelled, its source broke). A disk cache's VFS is rooted at its directory, so the paths that
  the source joins with \<^verbatim>\<open>diskRoot\<close> are the VFS paths here.
\<close>

type_synonym reader = "string \<times> bool"

definition Dir :: "string \<Rightarrow> string" where
  \<comment> \<open>\<^verbatim>\<open>path.Dir\<close> on the clean relative paths the cache uses\<close>
  "Dir p = (if CHR ''/'' \<in> set p then rev (tl (dropWhile (\<lambda>c. c \<noteq> CHR ''/'') (rev p))) else ''.'')"

definition vfsWrite :: "'fs vfs \<Rightarrow> string \<Rightarrow> reader \<Rightarrow> 'fs \<Rightarrow> (int \<times> bool \<times> bool) \<times> 'fs" where
  \<comment> \<open>bytes written, whether the target may have changed, whether it failed\<close>
  "vfsWrite v path r s =
     (let (ok, s) = vMkdirAll v (Dir path) s in
      if \<not> ok then ((0, False, True), s)
      else let (ok, s) = vTruncate v path s in
      if \<not> ok then ((0, False, True), s)
      else let (ok, n, s) = vCopy v path (fst r) s in
      if \<not> ok \<or> snd r then ((n, True, True), snd (vClose v path s))
      else let (ok, s) = vClose v path s in
      if \<not> ok then ((n, True, True), s) else ((n, True, False), s))"

definition atomicWriteFile :: "'fs vfs \<Rightarrow> string \<Rightarrow> string \<Rightarrow> 'fs \<Rightarrow> bool \<times> 'fs" where
  \<comment> \<open>the flag says that it failed; the deferred calls close and remove the temporary file\<close>
  "atomicWriteFile v path d s =
     (let (tmp, s) = osCreateTemp v (Dir path) s in
      case tmp of None \<Rightarrow> (True, s)
      | Some tmpPath \<Rightarrow>
        let cleanup = (\<lambda>s. snd (vRemove v tmpPath s));
            (ok, n, s) = vCopy v tmpPath d s in
        if \<not> ok then (True, cleanup (snd (vClose v tmpPath s)))
        else let (ok, s) = osSync v tmpPath s in
        if \<not> ok then (True, cleanup (snd (vClose v tmpPath s)))
        else let (ok, s) = vClose v tmpPath s in
        if \<not> ok then (True, cleanup s)
        else let (ok, s) = osRename v tmpPath path s in
        (\<not> ok, cleanup s))"

subsection \<open>What a file system promises\<close>

text \<open>
  A file that was truncated (or created as a temporary file), filled and closed without error holds
  what was written, and an open that fails leaves the file as it is; a successful rename moves the contents and a failed one leaves the target; a
  removal that reports success, or that nothing was there, leaves nothing; a temporary file has
  the name the pattern asks for, lies in its directory and did not exist before; and no operation touches the contents of another path.
\<close>

definition temp_name :: "string \<Rightarrow> bool" where
  "temp_name p \<longleftrightarrow> sublist ''.tmp-'' p"

definition write_law :: "'fs vfs \<Rightarrow> bool" where
  "write_law v \<longleftrightarrow> (\<forall>p d s s1 s2 s3 n. vTruncate v p s = (True, s1) \<longrightarrow> vCopy v p d s1 = (True, n, s2) \<longrightarrow>
     vClose v p s2 = (True, s3) \<longrightarrow> vRead v p s3 = Inr d \<and> n = int (length d))
   \<and> (\<forall>p s s1. vTruncate v p s = (False, s1) \<longrightarrow> vRead v p s1 = vRead v p s)"

definition temp_law :: "'fs vfs \<Rightarrow> bool" where
  "temp_law v \<longleftrightarrow> (\<forall>dir p s s1. osCreateTemp v dir s = (Some p, s1) \<longrightarrow> temp_name p
   \<and> prefix dir p \<and> vRead v p s = Inl NotExist
   \<and> (\<forall>d s2 s3 n. vCopy v p d s1 = (True, n, s2) \<longrightarrow> vClose v p s2 = (True, s3) \<longrightarrow> vRead v p s3 = Inr d \<and> n = int (length d))
   \<and> (\<forall>d s2 s3 s4 n. vCopy v p d s1 = (True, n, s2) \<longrightarrow> osSync v p s2 = (True, s3) \<longrightarrow> vClose v p s3 = (True, s4)
        \<longrightarrow> vRead v p s4 = Inr d))"

definition rename_law :: "'fs vfs \<Rightarrow> bool" where
  "rename_law v \<longleftrightarrow> (\<forall>p q s s' ok. osRename v p q s = (ok, s') \<longrightarrow> vRead v q s' = (if ok then vRead v p s else vRead v q s))"

definition remove_law :: "'fs vfs \<Rightarrow> bool" where
  "remove_law v \<longleftrightarrow> (\<forall>p s s' e. vRemove v p s = (e, s') \<longrightarrow> \<not> real_error e \<longrightarrow> vRead v p s' = Inl NotExist)"

definition frame_law :: "'fs vfs \<Rightarrow> bool" where
  "frame_law v \<longleftrightarrow> (\<forall>p q d s r. vRead v q (snd (vMkdirAll v p s)) = vRead v q s
   \<and> (q \<noteq> p \<longrightarrow> vRead v q (snd (vTruncate v p s)) = vRead v q s
     \<and> vRead v q (snd (snd (vCopy v p d s))) = vRead v q s \<and> vRead v q (snd (vClose v p s)) = vRead v q s
     \<and> vRead v q (snd (osSync v p s)) = vRead v q s \<and> vRead v q (snd (vRemove v p s)) = vRead v q s
     \<and> (q \<noteq> r \<longrightarrow> vRead v q (snd (osRename v p r s)) = vRead v q s))
   \<and> (fst (osCreateTemp v p s) \<noteq> Some q \<longrightarrow> vRead v q (snd (osCreateTemp v p s)) = vRead v q s))"

definition vfs_laws :: "'fs vfs \<Rightarrow> bool" where
  "vfs_laws v \<longleftrightarrow> write_law v \<and> temp_law v \<and> rename_law v \<and> remove_law v \<and> frame_law v"

lemma vfs_frame:
  assumes "vfs_laws v"
  shows "vRead v q (snd (vMkdirAll v p s)) = vRead v q s"
    and "q \<noteq> p \<Longrightarrow> vRead v q (snd (vTruncate v p s)) = vRead v q s"
    and "q \<noteq> p \<Longrightarrow> vRead v q (snd (snd (vCopy v p d s))) = vRead v q s"
    and "q \<noteq> p \<Longrightarrow> vRead v q (snd (vClose v p s)) = vRead v q s"
    and "q \<noteq> p \<Longrightarrow> vRead v q (snd (osSync v p s)) = vRead v q s"
    and "q \<noteq> p \<Longrightarrow> vRead v q (snd (vRemove v p s)) = vRead v q s"
    and "q \<noteq> p \<Longrightarrow> q \<noteq> r \<Longrightarrow> vRead v q (snd (osRename v p r s)) = vRead v q s"
    and "fst (osCreateTemp v p s) \<noteq> Some q \<Longrightarrow> vRead v q (snd (osCreateTemp v p s)) = vRead v q s"
  using assms unfolding vfs_laws_def frame_law_def by blast+

lemma vfs_written:
  assumes "vfs_laws v" "vTruncate v p s = (True, s1)" "vCopy v p d s1 = (True, n, s2)" "vClose v p s2 = (True, s3)"
  shows "vRead v p s3 = Inr d \<and> n = int (length d)"
  using assms unfolding vfs_laws_def write_law_def by blast

lemma vfs_temp:
  assumes "vfs_laws v" "osCreateTemp v dir s = (Some p, s1)"
  shows "temp_name p" "prefix dir p" "vRead v p s = Inl NotExist"
    and "vCopy v p d s1 = (True, n, s2) \<Longrightarrow> vClose v p s2 = (True, s3) \<Longrightarrow> vRead v p s3 = Inr d \<and> n = int (length d)"
    and "vCopy v p d s1 = (True, n, s2) \<Longrightarrow> osSync v p s2 = (True, s3) \<Longrightarrow> vClose v p s3 = (True, s4) \<Longrightarrow> vRead v p s4 = Inr d"
proof -
  have "temp_law v" using assms(1) by (simp add: vfs_laws_def)
  note law = this [unfolded temp_law_def, rule_format, OF assms(2)]
  show "temp_name p" "prefix dir p" "vRead v p s = Inl NotExist" using law by (blast intro: conjunct1 conjunct2)+
  show "vCopy v p d s1 = (True, n, s2) \<Longrightarrow> vClose v p s2 = (True, s3) \<Longrightarrow> vRead v p s3 = Inr d \<and> n = int (length d)"
    using law by blast
  show "vCopy v p d s1 = (True, n, s2) \<Longrightarrow> osSync v p s2 = (True, s3) \<Longrightarrow> vClose v p s3 = (True, s4) \<Longrightarrow> vRead v p s4 = Inr d"
    using law by blast
qed

lemma vfs_rename:
  "vfs_laws v \<Longrightarrow> osRename v p q s = (ok, s') \<Longrightarrow> vRead v q s' = (if ok then vRead v p s else vRead v q s)"
  unfolding vfs_laws_def rename_law_def by blast

lemma vfs_removed: "vfs_laws v \<Longrightarrow> vRemove v p s = (e, s') \<Longrightarrow> \<not> real_error e \<Longrightarrow> vRead v p s' = Inl NotExist"
  unfolding vfs_laws_def remove_law_def by blast

lemma vfsWrite_read:
  assumes "vfs_laws v" "vfsWrite v p r s = ((n, pub, err), s')"
  shows "q \<noteq> p \<Longrightarrow> vRead v q s' = vRead v q s"
    and "\<not> err \<Longrightarrow> vRead v p s' = Inr (fst r) \<and> n = int (length (fst r)) \<and> pub \<and> \<not> snd r"
    and "\<not> pub \<Longrightarrow> err \<and> vRead v p s' = vRead v p s"
proof -
  obtain ok1 s1 where 1: "vMkdirAll v (Dir p) s = (ok1, s1)" by (rule prod.exhaust)
  obtain ok2 s2 where 2: "vTruncate v p s1 = (ok2, s2)" by (rule prod.exhaust)
  obtain ok3 n3 s3 where 3: "vCopy v p (fst r) s2 = (ok3, n3, s3)" by (metis prod_cases3)
  obtain ok4 s4 where 4: "vClose v p s3 = (ok4, s4)" by (rule prod.exhaust)
  have eq: "((n, pub, err), s') = (if \<not> ok1 then ((0, False, True), s1) else if \<not> ok2 then ((0, False, True), s2)
      else if \<not> ok3 \<or> snd r then ((n3, True, True), s4) else if \<not> ok4 then ((n3, True, True), s4) else ((n3, True, False), s4))"
    using assms(2) by (cases ok1; cases ok2; cases ok3; cases ok4; cases "snd r"; simp add: vfsWrite_def 1 2 3 4)
  have w: "ok2 \<Longrightarrow> ok3 \<Longrightarrow> ok4 \<Longrightarrow> vRead v p s4 = Inr (fst r) \<and> n3 = int (length (fst r))"
    using vfs_written [OF assms(1), of p s1 s2 "fst r" n3 s3 s4] 2 3 4 by simp
  show "\<not> err \<Longrightarrow> vRead v p s' = Inr (fst r) \<and> n = int (length (fst r)) \<and> pub \<and> \<not> snd r"
    using eq w by (auto split: if_splits)
  have "vRead v p s2 = vRead v p s1" if "\<not> ok2"
  proof -
    have "vTruncate v p s1 = (False, s2)" using 2 that by simp
    then show ?thesis using assms(1) unfolding vfs_laws_def write_law_def by blast
  qed
  then show "\<not> pub \<Longrightarrow> err \<and> vRead v p s' = vRead v p s"
    using eq vfs_frame(1) [OF assms(1), of p "Dir p" s] 1 by (auto split: if_splits)
  assume q: "q \<noteq> p"
  have "vRead v q s1 = vRead v q s" "vRead v q s2 = vRead v q s1" "vRead v q s3 = vRead v q s2" "vRead v q s4 = vRead v q s3"
    using vfs_frame(1) [OF assms(1), of q "Dir p" s] vfs_frame(2) [OF assms(1) q, of s1]
      vfs_frame(3) [OF assms(1) q, of "fst r" s2] vfs_frame(4) [OF assms(1) q, of s3] 1 2 3 4 by simp_all
  then show "vRead v q s' = vRead v q s" using eq by (auto split: if_splits)
qed

text \<open>An atomic write replaces the file completely or not at all, and touches no other file of the cache.\<close>

lemma atomicWriteFile_read:
  assumes "vfs_laws v" "atomicWriteFile v p d s = (err, s')" "\<not> temp_name p" "\<not> temp_name q"
  shows "vRead v q s' = (if q = p \<and> \<not> err then Inr d else vRead v q s)"
proof -
  obtain t s0 where 0: "osCreateTemp v (Dir p) s = (t, s0)" by (rule prod.exhaust)
  have "t \<noteq> Some q" using vfs_temp(1) [OF assms(1), of "Dir p" s] 0 assms(4) by auto
  then have q0: "vRead v q s0 = vRead v q s" using vfs_frame(8) [OF assms(1), of "Dir p" s q] 0 by simp
  show ?thesis
  proof (cases t)
    case None
    with 0 assms(2) q0 show ?thesis by (simp add: atomicWriteFile_def)
  next
    case (Some tmp)
    note temp = vfs_temp [OF assms(1) 0 [unfolded Some]]
    have q: "q \<noteq> tmp" "p \<noteq> tmp" using temp(1) assms(3,4) by auto
    obtain ok1 n1 s1 where 1: "vCopy v tmp d s0 = (ok1, n1, s1)" by (metis prod_cases3)
    obtain ok2 s2 where 2: "osSync v tmp s1 = (ok2, s2)" by (rule prod.exhaust)
    obtain ok3 s3 where 3: "vClose v tmp s2 = (ok3, s3)" by (rule prod.exhaust)
    obtain ok4 s4 where 4: "osRename v tmp p s3 = (ok4, s4)" by (rule prod.exhaust)
    let ?rm = "\<lambda>s. snd (vRemove v tmp s)" and ?cl = "\<lambda>s. snd (vClose v tmp s)"
    have eq: "(err, s') = (if \<not> ok1 then (True, ?rm (?cl s1)) else if \<not> ok2 then (True, ?rm (?cl s2))
        else if \<not> ok3 then (True, ?rm s3) else (\<not> ok4, ?rm s4))"
      using assms(2) by (cases ok1; cases ok2; cases ok3; cases ok4; simp add: atomicWriteFile_def 0 Some 1 2 3 4)
    have f: "vRead v q (?rm s) = vRead v q s" "vRead v q (?cl s) = vRead v q s" for s
      using vfs_frame(4,6) [OF assms(1) q(1)] by simp_all
    have "vRead v q s1 = vRead v q s0" "vRead v q s2 = vRead v q s1" "vRead v q s3 = vRead v q s2"
      using vfs_frame(3) [OF assms(1) q(1), of d s0] vfs_frame(5) [OF assms(1) q(1), of s1] f(2) [of s2] 1 2 3 by simp_all
    then have q3: "vRead v q s3 = vRead v q s" "vRead v q s2 = vRead v q s" "vRead v q s1 = vRead v q s"
      using q0 by simp_all
    have q4: "vRead v q s4 = (if q = p \<and> ok4 then vRead v tmp s3 else vRead v q s3)"
      using vfs_rename [OF assms(1) 4] vfs_frame(7) [OF assms(1) q(1), of p s3] 4 by (cases "q = p") auto
    have "ok1 \<Longrightarrow> ok2 \<Longrightarrow> ok3 \<Longrightarrow> vRead v tmp s3 = Inr d" using temp(5) [of d n1 s1 s2 s3] 1 2 3 by simp
    with eq q3 q4 f show ?thesis by (auto split: if_splits)
  qed
qed

lemma temp_name_made: "temp_name (d @ ''/.tmp-'' @ x)"
proof -
  have "d @ ''/.tmp-'' @ x = (d @ ''/'') @ ''.tmp-'' @ x" by simp
  then show ?thesis unfolding temp_name_def sublist_def by blast
qed

lemma mem_temp_name: "temp_name (mem_temp dir m)"
  unfolding mem_temp_def by (rule temp_name_made)

lemma mem_temp_fresh: "map_of m (mem_temp dir m) = None"
proof -
  let ?longest = "\<lambda>m :: (string, string) gomap. foldr (\<lambda>(p, _) q. if length q \<le> length p then p else q) m []"
  have "length p \<le> length (?longest m)" if "p \<in> fst ` set m" for p
    using that
  proof (induction m)
    case (Cons a m)
    then consider "p = fst a" | "p \<in> fst ` set m" by auto
    then show ?case using Cons.IH by cases (auto split: prod.split)
  qed simp
  moreover have "length (concat (map (\<lambda>_. ''x'') q)) = length q" for q :: string by (induction q) auto
  ultimately have "p \<in> fst ` set m \<Longrightarrow> length p < length (mem_temp dir m)" for p
    by (fastforce simp: mem_temp_def)
  then show ?thesis by (metis less_irrefl map_of_eq_None_iff)
qed

lemma mem_vfs_laws: "vfs_laws mem_vfs"
proof -
  have 1: "write_law mem_vfs" "rename_law mem_vfs" "remove_law mem_vfs"
    by (auto simp: write_law_def rename_law_def remove_law_def mem_vfs_def mem_read_def mem_write_def go_map_simps
        split: if_splits option.splits sum.splits)
  have "temp_law mem_vfs"
    using mem_temp_name mem_temp_fresh
    by (auto simp: temp_law_def mem_vfs_def mem_read_def mem_write_def go_map_simps Let_def) (simp add: mem_temp_def)
  moreover have "frame_law mem_vfs"
    by (auto simp: frame_law_def mem_vfs_def mem_read_def mem_write_def go_map_simps Let_def split: option.splits sum.splits)
  ultimately show ?thesis using 1 by (simp add: vfs_laws_def)
qed

end
