(* ===== verification/Entry_Record.thy ===== *)
theory Entry_Record
  imports Ledger Files Validator
begin

unbundle bit_operations_syntax

text \<open>
  Entry records: the serialized response header with its private preamble (\<^verbatim>\<open>serializeStoredHeader\<close>,
  \<^verbatim>\<open>readStoredHeaders\<close> and \<^verbatim>\<open>hashKey\<close> of \<^verbatim>\<open>src/cache.go\<close>), and the integrity metadata of
  \<^verbatim>\<open>src/integrity.go\<close>. \<^verbatim>\<open>http.Header.Write\<close> and \<^verbatim>\<open>textproto.Reader\<close> are written out; hashes, base64,
  the JSON of the metadata, RFC 3339 times and \<^verbatim>\<open>http.StatusText\<close> are the record \<open>recenv\<close>.
\<close>

subsection \<open>Header text\<close>

abbreviation CR :: char where "CR \<equiv> CHR 0x0D"
abbreviation LF :: char where "LF \<equiv> CHR 0x0A"

definition crlf :: string where "crlf = [CR, LF]"

definition clean_value :: "string \<Rightarrow> string" where
  \<comment> \<open>newlines become spaces, then \<^verbatim>\<open>textproto.TrimString\<close>\<close>
  "clean_value v = trim_by ascii_space (map (\<lambda>c. if c = LF \<or> c = CR then CHR '' '' else c) v)"

definition valid_name :: "string \<Rightarrow> bool" where
  "valid_name n \<longleftrightarrow> n \<noteq> [] \<and> list_all valid_field_byte n"

definition valid_value_byte :: "char \<Rightarrow> bool" where
  "valid_value_byte c \<longleftrightarrow> c = CHR 0x09 \<or> (0x20 \<le> code c \<and> code c \<noteq> 0x7F)"

definition header_lines :: "header \<Rightarrow> (string \<times> string) list" where
  "header_lines h = concat (map (\<lambda>n. map (\<lambda>v. (n, clean_value v)) (header_at h n)) (filter valid_name (sort (map_keys h))))"

definition headersToWriter :: "header \<Rightarrow> string" where
  "headersToWriter h = concat (map (\<lambda>(n, v). n @ '': '' @ v @ crlf) (header_lines h)) @ crlf"

definition ReadLine :: "string \<Rightarrow> (string \<times> string) option" where
  \<comment> \<open>\<open>None\<close> at the end of the input\<close>
  "ReadLine s =
     (if s = [] then None
      else let line = takeWhile (\<lambda>c. c \<noteq> LF) s; rest = drop (length line) s
           in if rest = [] then Some (line, [])
              else Some (if line \<noteq> [] \<and> last line = CR then butlast line else line, tl rest))"

lemma ReadLine_shorter: "ReadLine s = Some (l, r) \<Longrightarrow> length r < length s"
  by (auto simp: ReadLine_def Let_def split: if_splits)

function continue_line :: "string \<Rightarrow> string \<Rightarrow> string \<times> string" where
  "continue_line acc s =
     (if s \<noteq> [] \<and> is_blank (hd s) then
        (case ReadLine (dropWhile is_blank s) of None \<Rightarrow> (acc @ '' '', [])
         | Some (l, r) \<Rightarrow> continue_line (acc @ '' '' @ trim_by is_blank l) r)
      else (acc, s))"
  by pat_completeness auto
termination
  by (relation "measure (\<lambda>(acc, s). length s)")
    (auto dest!: ReadLine_shorter intro: less_le_trans [OF _ length_dropWhile_le])

declare continue_line.simps [simp del]

lemma continue_line_length: "continue_line acc s = (a, r) \<Longrightarrow> length r \<le> length s"
proof (induction acc s rule: continue_line.induct)
  case (1 acc s)
  show ?case
  proof (cases "s \<noteq> [] \<and> is_blank (hd s)")
    case False
    with 1(2) show ?thesis by (simp add: continue_line.simps [of acc s])
  next
    case True
    show ?thesis
    proof (cases "ReadLine (dropWhile is_blank s)")
      case None
      with True 1(2) show ?thesis by (simp add: continue_line.simps [of acc s])
    next
      case (Some lr)
      obtain l r' where lr: "lr = (l, r')" by (cases lr)
      have "length r' < length (dropWhile is_blank s)" using Some lr by (simp add: ReadLine_shorter)
      moreover have "length r \<le> length r'"
        using 1(1) [OF True Some lr [symmetric]] 1(2) True Some lr by (simp add: continue_line.simps [of acc s])
      ultimately show ?thesis using length_dropWhile_le [of is_blank s] by linarith
    qed
  qed
qed

datatype mime_error = ErrEOF | ErrMalformed

definition mime_key :: "string \<Rightarrow> string option" where
  \<comment> \<open>\<^verbatim>\<open>canonicalMIMEHeaderKey\<close>: a space before the colon is accepted but not canonicalized\<close>
  "mime_key k =
     (if k = [] \<or> \<not> list_all (\<lambda>c. valid_field_byte c \<or> c = CHR '' '') k then None
      else if CHR '' '' \<in> set k then Some k else Some (canon_bytes True k))"

function mime_loop :: "header \<Rightarrow> string \<Rightarrow> mime_error + header" where
  "mime_loop h s =
     (case ReadLine s of None \<Rightarrow> Inl ErrEOF
      | Some (line, rest) \<Rightarrow>
        if line = [] then Inr h
        else if CHR '':'' \<notin> set line then Inl ErrMalformed
        else case continue_line (trim_by is_blank line) rest of (kv, rest') \<Rightarrow>
          if kv = [] then Inr h
          else if CHR '':'' \<notin> set kv then Inl ErrMalformed
          else let k = takeWhile (\<lambda>c. c \<noteq> CHR '':'') kv; v = drop (length k + 1) kv in
            case mime_key k of None \<Rightarrow> Inl ErrMalformed
            | Some key \<Rightarrow>
              if \<not> list_all valid_value_byte v then Inl ErrMalformed
              else mime_loop (AList.update key (header_at h key @ [dropWhile is_blank v]) h) rest')"
  by pat_completeness auto
termination
  by (relation "measure (\<lambda>(h, s). length s)")
    (auto dest!: ReadLine_shorter continue_line_length [OF sym])

declare mime_loop.simps [simp del]

definition ReadMIMEHeader :: "string \<Rightarrow> mime_error + header" where
  "ReadMIMEHeader s = (if s \<noteq> [] \<and> is_blank (hd s) then Inl ErrMalformed else mime_loop [] s)"

subsection \<open>Stored headers\<close>

record integrityRecord =
  StoredAt :: time
  Size :: int
  BodySHA256 :: string
  HeaderSHA256 :: string
  KeySHA256 :: string
  mfingerprint :: string

record recenv =
  StatusText :: "int \<Rightarrow> string"
  FormatNano :: "time \<Rightarrow> string"
  ParseNano :: "string \<Rightarrow> time option"
  sha256Text :: "string \<Rightarrow> string"
  base64Encode :: "string \<Rightarrow> string"
  base64Decode :: "string \<Rightarrow> string option"
  MarshalMeta :: "integrityRecord \<Rightarrow> string"
  UnmarshalMeta :: "string \<Rightarrow> integrityRecord option"

definition storedAtPreamble :: string where
  "storedAtPreamble = ''HTTPCACHE/1 ''"

definition integrityPreamble :: string where
  "integrityPreamble = ''HTTPCACHE/2 ''"

definition status_line :: "recenv \<Rightarrow> int \<Rightarrow> string" where
  "status_line x status = ''HTTP/1.1 '' @ Itoa status @ '' '' @ StatusText x status @ crlf"

definition serializeStoredHeader :: "recenv \<Rightarrow> int \<Rightarrow> header \<Rightarrow> time \<Rightarrow> string" where
  "serializeStoredHeader x status h at =
     storedAtPreamble @ FormatNano x at @ crlf @ status_line x status @ headersToWriter h"

record Header =
  hHeader :: header
  hStatusCode :: int

datatype stored_error = ErrRead | ErrTimestamp | ErrMetadata | ErrResponse | ErrStatusCode | ErrHeader

definition parseIntegrityPreamble :: "recenv \<Rightarrow> string \<Rightarrow> integrityRecord option" where
  "parseIntegrityPreamble x line =
     (case base64Decode x (drop (length integrityPreamble) line) of None \<Rightarrow> None | Some encoded \<Rightarrow> UnmarshalMeta x encoded)"

definition read_response :: "string \<Rightarrow> string \<Rightarrow> time \<Rightarrow> stored_error + (Header \<times> time)" where
  \<comment> \<open>the status line and the fields, once the preambles are read\<close>
  "read_response line s at =
     (let f = Split CHR '' '' line in
      if length f < 2 then Inl ErrResponse
      else case ParseInt (f ! 1) of None \<Rightarrow> Inl ErrStatusCode
      | Some status \<Rightarrow> (case ReadMIMEHeader s of Inl _ \<Rightarrow> Inl ErrHeader | Inr h \<Rightarrow> Inr (\<lparr>hHeader = h, hStatusCode = status\<rparr>, at)))"

definition readStoredHeaders :: "recenv \<Rightarrow> string \<Rightarrow> stored_error + (Header \<times> time)" where
  "readStoredHeaders x s =
     (case ReadLine s of None \<Rightarrow> Inl ErrRead
      | Some (line, s) \<Rightarrow>
        case (if prefix storedAtPreamble line
              then (case ParseNano x (drop (length storedAtPreamble) line) of None \<Rightarrow> Inl ErrTimestamp
                    | Some at \<Rightarrow> (case ReadLine s of None \<Rightarrow> Inl ErrRead | Some (line, s) \<Rightarrow> Inr (at, line, s)))
              else Inr (0, line, s)) of
          Inl err \<Rightarrow> Inl err
        | Inr (at, line, s) \<Rightarrow>
          (case (if prefix integrityPreamble line
                 then (case parseIntegrityPreamble x line of None \<Rightarrow> Inl ErrMetadata
                       | Some meta \<Rightarrow> (case ReadLine s of None \<Rightarrow> Inl ErrRead | Some (line, s) \<Rightarrow> Inr (StoredAt meta, line, s)))
                 else Inr (at, line, s)) of
             Inl err \<Rightarrow> Inl err
           | Inr (at, line, s) \<Rightarrow> read_response line s at))"

subsection \<open>Integrity metadata\<close>

datatype integrity_error = DigestMissing | Incomplete | BadEncoding | BadMetadata | ChecksumMismatch | BodyMismatch
  | BodyMissing | BadHeaderRecord

text \<open>A corrupt entry is reported with the fingerprint of the record that was seen.\<close>

type_synonym corruptEntryError = "string \<times> integrity_error"

definition is_hex :: "char \<Rightarrow> bool" where
  "is_hex c \<longleftrightarrow> is_digit c \<or> (97 \<le> code c \<and> code c \<le> 102) \<or> (65 \<le> code c \<and> code c \<le> 70)"

definition validDigest :: "string \<Rightarrow> bool" where
  "validDigest s \<longleftrightarrow> list_all is_hex s \<and> length s = 64"

definition recordDigest :: "recenv \<Rightarrow> integrityRecord \<Rightarrow> string \<Rightarrow> string" where
  "recordDigest x meta rec = sha256Text x (MarshalMeta x (meta\<lparr>HeaderSHA256 := []\<rparr>) @ [LF] @ rec)"

definition serializeIntegrityHeader :: "recenv \<Rightarrow> int \<Rightarrow> header \<Rightarrow> integrityRecord \<Rightarrow> string" where
  "serializeIntegrityHeader x status h meta =
     (let rec = status_line x status @ headersToWriter h;
          meta = meta\<lparr>HeaderSHA256 := recordDigest x meta rec\<rparr>
      in integrityPreamble @ base64Encode x (MarshalMeta x meta) @ crlf @ rec)"

definition serializeCacheHeader :: "recenv \<Rightarrow> IntegrityMode \<Rightarrow> int \<Rightarrow> header \<Rightarrow> time \<Rightarrow> string \<Rightarrow> int \<Rightarrow> string \<Rightarrow> string" where
  "serializeCacheHeader x mode status h at key size_of digest =
     (if mode = IntegrityDisabled then serializeStoredHeader x status h at
      else serializeIntegrityHeader x status h
        \<lparr>StoredAt = at, Size = size_of, BodySHA256 = digest, HeaderSHA256 = [], KeySHA256 = sha256Text x key, mfingerprint = []\<rparr>)"

fun find_crlf :: "string \<Rightarrow> (string \<times> string) option" where
  \<comment> \<open>the text before and after the first \<^verbatim>\<open>"\r\n"\<close>\<close>
  "find_crlf (a # b # s) = (if a = CR \<and> b = LF then Some ([], s) else map_option (apfst ((#) a)) (find_crlf (b # s)))"
| "find_crlf s = None"

definition decodeIntegrityRecord ::
  "recenv \<Rightarrow> string \<Rightarrow> string \<Rightarrow> bool \<Rightarrow> bool \<Rightarrow> corruptEntryError + integrityRecord option" where
  "decodeIntegrityRecord x raw key required checkKey =
     (let fail = (\<lambda>reason. Inl (sha256Text x raw, reason)) in
      if \<not> prefix integrityPreamble raw then (if required then fail DigestMissing else Inr None)
      else case find_crlf raw of None \<Rightarrow> fail Incomplete
      | Some (line, rec) \<Rightarrow>
        case base64Decode x (drop (length integrityPreamble) line) of None \<Rightarrow> fail BadEncoding
        | Some encoded \<Rightarrow>
          case UnmarshalMeta x encoded of None \<Rightarrow> fail BadMetadata
          | Some meta \<Rightarrow>
            if isZero (StoredAt meta) \<or> Size meta < 0 \<or> \<not> validDigest (BodySHA256 meta)
              \<or> \<not> validDigest (HeaderSHA256 meta) \<or> \<not> validDigest (KeySHA256 meta) then fail BadMetadata
            else if (checkKey \<and> KeySHA256 meta \<noteq> sha256Text x key) \<or> HeaderSHA256 meta \<noteq> recordDigest x meta rec
              then fail ChecksumMismatch
            else Inr (Some (meta\<lparr>mfingerprint := sha256Text x raw\<rparr>)))"

definition decodeIntegrity :: "recenv \<Rightarrow> string \<Rightarrow> string \<Rightarrow> bool \<Rightarrow> corruptEntryError + integrityRecord option" where
  "decodeIntegrity x raw key required = decodeIntegrityRecord x raw key required True"

definition verifyStoredBody :: "recenv \<Rightarrow> string \<Rightarrow> integrityRecord \<Rightarrow> string \<Rightarrow> corruptEntryError option" where
  "verifyStoredBody x body meta fingerprint =
     (if int (length body) \<noteq> Size meta \<or> sha256Text x body \<noteq> BodySHA256 meta then Some (fingerprint, BodyMismatch) else None)"

subsection \<open>Hashed keys\<close>

definition fnv_step :: "int \<Rightarrow> char \<Rightarrow> int" where
  "fnv_step h c = ((h XOR code c) * 1099511628211) mod 2 ^ 64"

definition hashKey :: "string \<Rightarrow> string" where
  \<comment> \<open>FNV-1a, 64 bits, in hexadecimal\<close>
  "hashKey key = hex 16 (foldl fnv_step 14695981039346656037 key)"

subsection \<open>Reading back a header\<close>

lemma token_bytes:
  "\<not> valid_field_byte CHR '':''" "\<not> valid_field_byte CHR '' ''" "\<not> valid_field_byte CHR 0x09"
  "\<not> valid_field_byte CR" "\<not> valid_field_byte LF"
  by code_simp+

lemma value_bytes: "\<not> valid_value_byte CR" "\<not> valid_value_byte LF"
  by code_simp+

lemma valid_name_bytes: "valid_name n \<Longrightarrow> c \<in> set n \<Longrightarrow> c \<noteq> CHR '':'' \<and> c \<noteq> CHR '' '' \<and> c \<noteq> CR \<and> c \<noteq> LF \<and> \<not> is_blank c"
  using token_bytes by (auto simp: valid_name_def list_all_iff is_blank_def)

lemma is_blank_space: "is_blank c \<Longrightarrow> ascii_space c"
  by (auto simp: is_blank_def ascii_space_def)

lemma trim_by_ends: "trim_by P s = [] \<or> (\<not> P (hd (trim_by P s)) \<and> \<not> P (last (trim_by P s)))"
proof (cases "trim_by P s = []")
  case False
  let ?d = "dropWhile P (rev (dropWhile P s))"
  have t: "trim_by P s = rev ?d" by (simp add: trim_by_def)
  have d: "?d \<noteq> []" using False t by simp
  have "\<not> P (last (trim_by P s))" using hd_dropWhile [of P "rev (dropWhile P s)"] d
    by (simp add: t last_rev)
  moreover have "\<not> P (hd (trim_by P s))"
  proof -
    have "dropWhile P s \<noteq> []" using d by (cases "dropWhile P s") simp_all
    then have h: "\<not> P (hd (dropWhile P s))" by (rule hd_dropWhile)
    have "rev (dropWhile P s) = takeWhile P (rev (dropWhile P s)) @ ?d" by simp
    then have "last ?d = last (rev (dropWhile P s))" using d by (metis last_appendR)
    then show ?thesis using h d by (simp add: t hd_rev last_rev)
  qed
  ultimately show ?thesis by simp
qed simp

lemma clean_value_ends: "clean_value v = [] \<or> (\<not> is_blank (hd (clean_value v)) \<and> \<not> is_blank (last (clean_value v)))"
  using trim_by_ends [of ascii_space] is_blank_space unfolding clean_value_def by blast

definition wire_line :: "string \<times> string \<Rightarrow> string" where
  "wire_line = (\<lambda>(n, v). n @ '': '' @ v @ crlf)"

definition wire_ok :: "string \<times> string \<Rightarrow> bool" where
  "wire_ok = (\<lambda>(n, v). valid_name n \<and> list_all valid_value_byte v
     \<and> (v = [] \<or> (\<not> is_blank (hd v) \<and> \<not> is_blank (last v))))"

definition collect_line :: "header \<Rightarrow> string \<times> string \<Rightarrow> header" where
  "collect_line = (\<lambda>h (n, v). AList.update (canon_bytes True n) (header_at h (canon_bytes True n) @ [v]) h)"

lemma ReadLine_crlf: "LF \<notin> set l \<Longrightarrow> ReadLine (l @ crlf @ s) = Some (l, s)"
  by (auto simp: ReadLine_def crlf_def Let_def takeWhile_append2 takeWhile_append)

lemma wire_line_head: "wire_ok l \<Longrightarrow> wire_line l @ s \<noteq> [] \<and> \<not> is_blank (hd (wire_line l @ s))"
  using valid_name_bytes [of "fst l" "hd (fst l)"]
  by (cases l; cases "fst l") (simp_all add: wire_ok_def wire_line_def valid_name_def)

lemma wire_lines_head: "list_all wire_ok ls \<Longrightarrow> \<not> is_blank (hd (concat (map wire_line ls) @ crlf @ s))"
  using wire_line_head by (cases ls) (auto simp: crlf_def is_blank_def)

lemma takeWhile_sep: "c \<notin> set n \<Longrightarrow> takeWhile (\<lambda>d. d \<noteq> c) (n @ c # s) = n"
  by (induction n) auto

lemma dropWhile_hd: "s = [] \<or> \<not> P (hd s) \<Longrightarrow> dropWhile P s = s"
  by (cases s) auto

lemma mime_key_name: "valid_name n \<Longrightarrow> mime_key n = Some (canon_bytes True n)"
  using valid_name_bytes [of n "CHR '' ''"] by (auto simp: mime_key_def valid_name_def list_all_iff)

lemma mime_loop_line:
  assumes l: "wire_ok (n, v)" and s: "s \<noteq> [] \<Longrightarrow> \<not> is_blank (hd s)"
  shows "mime_loop h (wire_line (n, v) @ s) = mime_loop (collect_line h (n, v)) s"
proof -
  let ?line = "n @ '': '' @ v"
  have n: "valid_name n" "n \<noteq> []" and v: "list_all valid_value_byte v" "v = [] \<or> (\<not> is_blank (hd v) \<and> \<not> is_blank (last v))"
    using l by (auto simp: wire_ok_def valid_name_def)
  have "LF \<notin> set ?line" using valid_name_bytes [OF n(1)] v(1) value_bytes by (auto simp: list_all_iff)
  then have rl: "ReadLine (wire_line (n, v) @ s) = Some (?line, s)"
    using ReadLine_crlf [of ?line s] by (simp add: wire_line_def)
  let ?kv = "n @ (if v = [] then '':'' else '': '' @ v)"
  have hd: "\<not> is_blank (hd n)" using valid_name_bytes [OF n(1)] n(2) by simp
  have "dropWhile is_blank (?line) = ?line" using hd n(2) by (cases n) auto
  moreover have "dropWhile is_blank (rev ?line) = rev ?kv"
    using v(2) by (cases v rule: rev_cases) (auto simp: is_blank_def)
  ultimately have tr: "trim_by is_blank ?line = ?kv" by (simp add: trim_by_def)
  have cont: "continue_line ?kv s = (?kv, s)" using s by (cases s) (simp_all add: continue_line.simps [of ?kv])
  have colon: "CHR '':'' \<notin> set n" using valid_name_bytes [OF n(1)] by blast
  have tk: "takeWhile (\<lambda>c. c \<noteq> CHR '':'') ?kv = n"
    using takeWhile_sep [OF colon, of "[]"] takeWhile_sep [OF colon, of "CHR '' '' # v"] by simp
  have blank: "is_blank CHR '' ''" by (simp add: is_blank_def)
  have sp: "valid_value_byte CHR '' ''" by code_simp
  have dw: "dropWhile is_blank v = v" using v(2) dropWhile_hd by blast
  have val: "list_all valid_value_byte (drop (length n + 1) ?kv)" "dropWhile is_blank (drop (length n + 1) ?kv) = v"
    using v(1) sp blank dw by simp_all
  have ne: "?line \<noteq> []" "CHR '':'' \<in> set ?line" "?kv \<noteq> []" "CHR '':'' \<in> set ?kv" by simp_all
  show ?thesis
    by (simp only: mime_loop.simps [of h] rl tr cont collect_line_def Let_def option.case prod.case ne tk val
        mime_key_name [OF n(1)] if_False if_True not_not simp_thms)
qed

lemma mime_loop_lines:
  "list_all wire_ok ls \<Longrightarrow> mime_loop h (concat (map wire_line ls) @ crlf @ s) = Inr (foldl collect_line h ls)"
proof (induction ls arbitrary: h)
  case Nil
  then show ?case by (simp add: mime_loop.simps ReadLine_crlf [of "[]", simplified])
next
  case (Cons l ls)
  then show ?case using wire_lines_head [of ls s] by (cases l) (simp add: mime_loop_line del: hd_append)
qed


definition storable :: "header \<Rightarrow> bool" where
  \<comment> \<open>no value holds a control byte other than a tab or a newline\<close>
  "storable h \<longleftrightarrow> list_all (\<lambda>(n, v). list_all valid_value_byte v) (header_lines h)"

definition canonical :: "header \<Rightarrow> bool" where
  "canonical h \<longleftrightarrow> go_map h \<and> list_all (\<lambda>n. valid_name n \<longrightarrow> canon_bytes True n = n) (map_keys h)"

lemma header_lines_ok: "storable h \<Longrightarrow> list_all wire_ok (header_lines h)"
  using clean_value_ends by (fastforce simp: storable_def wire_ok_def header_lines_def list_all_iff)

lemma collect_lines:
  "header_at (foldl collect_line h ls) k = header_at h k @ map snd (filter (\<lambda>(n, v). canon_bytes True n = k) ls)"
  by (induction ls arbitrary: h) (auto simp: collect_line_def go_map_simps)

lemma collect_keys: "go_map h \<Longrightarrow> go_map (foldl collect_line h ls)"
  by (induction ls arbitrary: h) (auto simp: collect_line_def)

lemma concat_selected: "distinct ns \<Longrightarrow> concat (map (\<lambda>n. if n = k then f n else []) ns) = (if k \<in> set ns then f k else [])"
  by (induction ns) auto

lemma values_on_the_wire:
  assumes "canonical h"
  shows "map snd (filter (\<lambda>(n, v). canon_bytes True n = k) (header_lines h)) = (if valid_name k then map clean_value (header_at h k) else [])"
proof -
  let ?ns = "filter valid_name (sort (map_keys h))"
  have ns: "distinct ?ns" "set ?ns = {n \<in> fst ` set h. valid_name n}"
    using assms by (auto simp: canonical_def go_map_def map_keys_def)
  have c: "n \<in> set ?ns \<Longrightarrow> canon_bytes True n = n" for n
    using assms by (auto simp: canonical_def list_all_iff map_keys_def)
  have "map snd (filter (\<lambda>(n, v). canon_bytes True n = k) (header_lines h))
      = concat (map (\<lambda>n. if n = k then map clean_value (header_at h n) else []) ?ns)"
    using c by (auto simp: header_lines_def filter_concat map_concat comp_def filter_map intro!: arg_cong [of _ _ concat] map_cong)
  also have "\<dots> = (if k \<in> set ?ns then map clean_value (header_at h k) else [])"
    by (rule concat_selected [OF ns(1)])
  also have "\<dots> = (if valid_name k then map clean_value (header_at h k) else [])"
    by (simp only: ns(2)) (auto simp: header_at_def map_of_fst_Some split: option.splits)
  finally show ?thesis .
qed

lemma ReadMIMEHeader_written:
  assumes "storable h"
  shows "ReadMIMEHeader (headersToWriter h) = Inr (foldl collect_line [] (header_lines h))"
proof -
  note ok = header_lines_ok [OF assms]
  have w: "headersToWriter h = concat (map wire_line (header_lines h)) @ crlf @ []"
    by (simp add: headersToWriter_def wire_line_def)
  show ?thesis using wire_lines_head [OF ok, of "[]"] mime_loop_lines [OF ok, of "[]" "[]"]
    by (simp add: ReadMIMEHeader_def w)
qed

lemma collected_header:
  assumes "canonical h"
  shows "header_at (foldl collect_line [] (header_lines h)) k = (if valid_name k then map clean_value (header_at h k) else [])"
  using collect_lines [of "[]" "header_lines h" k] values_on_the_wire [OF assms, of k] by (simp add: header_at_def)

subsection \<open>Reading back a stored record\<close>

text \<open>
  What the libraries promise: RFC 3339 texts and status texts hold no newline and a formatted time
  parses back; base64 output holds no newline and decodes to its input; digests are 64 hexadecimal
  digits; and the metadata that is written decodes to itself, without the unexported fingerprint.
\<close>

definition text_laws :: "recenv \<Rightarrow> bool" where
  "text_laws x \<longleftrightarrow> (\<forall>status. LF \<notin> set (StatusText x status)) \<and> (\<forall>s. CR \<notin> set (base64Encode x s) \<and> LF \<notin> set (base64Encode x s))
     \<and> (\<forall>s. base64Decode x (base64Encode x s) = Some s) \<and> (\<forall>s. validDigest (sha256Text x s))"

definition time_law :: "recenv \<Rightarrow> time \<Rightarrow> bool" where
  "time_law x at \<longleftrightarrow> LF \<notin> set (FormatNano x at) \<and> ParseNano x (FormatNano x at) = Some at"

definition meta_law :: "recenv \<Rightarrow> integrityRecord \<Rightarrow> bool" where
  "meta_law x m \<longleftrightarrow> UnmarshalMeta x (MarshalMeta x m) = Some (m\<lparr>mfingerprint := []\<rparr>)"

lemma decimal_bytes: "c \<in> set (Itoa i) \<Longrightarrow> is_digit c \<or> c = CHR ''-''"
  using decimal_digits [of i] decimal_digits [of "- i"] by (auto simp: Itoa_def list_all_iff split: if_splits)

lemma Itoa_no: "\<not> is_digit c \<Longrightarrow> c \<noteq> CHR ''-'' \<Longrightarrow> c \<notin> set (Itoa i)"
  using decimal_bytes by blast

lemma not_digits: "\<not> is_digit CR" "\<not> is_digit LF" "\<not> is_digit CHR '' ''" "\<not> is_digit CHR '':''" "\<not> is_digit CHR '';''"
  by code_simp+

lemma read_response_written:
  assumes "text_laws x" "int64 status" "storable h"
  obtains line where "ReadLine (status_line x status @ s) = Some (line, s)"
    "\<not> prefix storedAtPreamble line" "\<not> prefix integrityPreamble line"
    "read_response line (headersToWriter h) at = Inr (\<lparr>hHeader = foldl collect_line [] (header_lines h), hStatusCode = status\<rparr>, at)"
proof
  let ?line = "''HTTP/1.1 '' @ Itoa status @ '' '' @ StatusText x status"
  have "LF \<notin> set ?line" using assms(1) Itoa_no [of LF] not_digits by (simp add: text_laws_def)
  then show "ReadLine (status_line x status @ s) = Some (?line, s)"
    using ReadLine_crlf [of ?line s] by (simp add: status_line_def)
  show "\<not> prefix storedAtPreamble ?line" "\<not> prefix integrityPreamble ?line"
    by (simp_all add: storedAtPreamble_def integrityPreamble_def)
  have f: "Split CHR '' '' ?line = ''HTTP/1.1'' # Itoa status # Split CHR '' '' (StatusText x status)"
    using Split_append_sep [of "CHR '' ''" "''HTTP/1.1''"] Split_append_sep [OF Itoa_no, of "CHR '' ''" status] not_digits by simp
  show "read_response ?line (headersToWriter h) at
      = Inr (\<lparr>hHeader = foldl collect_line [] (header_lines h), hStatusCode = status\<rparr>, at)"
    by (simp only: read_response_def f Let_def) (simp add: ParseInt_Itoa assms(2) ReadMIMEHeader_written [OF assms(3)])
qed

lemma read_stored_header:
  assumes "text_laws x" "time_law x at" "int64 status" "storable h"
  shows "readStoredHeaders x (serializeStoredHeader x status h at)
    = Inr (\<lparr>hHeader = foldl collect_line [] (header_lines h), hStatusCode = status\<rparr>, at)"
proof -
  let ?first = "storedAtPreamble @ FormatNano x at"
  obtain line where line: "ReadLine (status_line x status @ headersToWriter h) = Some (line, headersToWriter h)"
    "\<not> prefix storedAtPreamble line" "\<not> prefix integrityPreamble line"
    "read_response line (headersToWriter h) at = Inr (\<lparr>hHeader = foldl collect_line [] (header_lines h), hStatusCode = status\<rparr>, at)"
    using read_response_written [OF assms(1,3,4)] by metis
  have "LF \<notin> set storedAtPreamble" by code_simp
  then have first: "ReadLine (serializeStoredHeader x status h at) = Some (?first, status_line x status @ headersToWriter h)"
    using ReadLine_crlf [of ?first] assms(2) by (simp add: serializeStoredHeader_def time_law_def)
  show ?thesis using line assms(2) by (simp add: readStoredHeaders_def first time_law_def)
qed

lemma find_crlf_append: "CR \<notin> set l \<Longrightarrow> find_crlf (l @ crlf @ s) = Some (l, s)"
proof (induction l)
  case Nil
  then show ?case by (simp add: crlf_def)
next
  case (Cons a l)
  then show ?case by (cases l) (auto simp: crlf_def)
qed

definition sealed_meta :: "recenv \<Rightarrow> int \<Rightarrow> header \<Rightarrow> integrityRecord \<Rightarrow> integrityRecord" where
  "sealed_meta x status h m = m\<lparr>HeaderSHA256 := recordDigest x m (status_line x status @ headersToWriter h)\<rparr>"

lemma read_integrity_header:
  assumes "text_laws x" "meta_law x (sealed_meta x status h m)" "int64 status" "storable h"
  shows "readStoredHeaders x (serializeIntegrityHeader x status h m)
    = Inr (\<lparr>hHeader = foldl collect_line [] (header_lines h), hStatusCode = status\<rparr>, StoredAt m)"
proof -
  let ?first = "integrityPreamble @ base64Encode x (MarshalMeta x (sealed_meta x status h m))"
  obtain line where line: "ReadLine (status_line x status @ headersToWriter h) = Some (line, headersToWriter h)"
    "\<not> prefix storedAtPreamble line" "\<not> prefix integrityPreamble line"
    "read_response line (headersToWriter h) (StoredAt m) = Inr (\<lparr>hHeader = foldl collect_line [] (header_lines h), hStatusCode = status\<rparr>, StoredAt m)"
    using read_response_written [OF assms(1,3,4)] by metis
  have "LF \<notin> set integrityPreamble" by code_simp
  then have first: "ReadLine (serializeIntegrityHeader x status h m) = Some (?first, status_line x status @ headersToWriter h)"
    using ReadLine_crlf [of ?first] assms(1) by (simp add: serializeIntegrityHeader_def sealed_meta_def text_laws_def Let_def)
  have "\<not> prefix storedAtPreamble ?first" by (simp add: storedAtPreamble_def integrityPreamble_def)
  moreover have "parseIntegrityPreamble x ?first = Some ((sealed_meta x status h m)\<lparr>mfingerprint := []\<rparr>)"
    using assms(1,2) by (simp add: parseIntegrityPreamble_def text_laws_def meta_law_def)
  ultimately show ?thesis using line by (simp add: readStoredHeaders_def first sealed_meta_def)
qed

lemma decode_written:
  assumes "text_laws x" "meta_law x (sealed_meta x status h m)"
    and m: "\<not> isZero (StoredAt m)" "0 \<le> Size m" "validDigest (BodySHA256 m)" "KeySHA256 m = sha256Text x key" "mfingerprint m = []"
  defines "raw \<equiv> serializeIntegrityHeader x status h m"
  shows "decodeIntegrity x raw key required = Inr (Some ((sealed_meta x status h m)\<lparr>mfingerprint := sha256Text x raw\<rparr>))"
proof -
  let ?meta = "sealed_meta x status h m" and ?rec = "status_line x status @ headersToWriter h"
  let ?first = "integrityPreamble @ base64Encode x (MarshalMeta x ?meta)"
  have "CR \<notin> set integrityPreamble" by code_simp
  then have cut: "find_crlf raw = Some (?first, ?rec)"
    using find_crlf_append [of ?first ?rec] assms(1)
    by (simp add: raw_def serializeIntegrityHeader_def sealed_meta_def text_laws_def Let_def)
  have pre: "prefix integrityPreamble raw" by (simp add: raw_def serializeIntegrityHeader_def Let_def)
  have un: "UnmarshalMeta x (MarshalMeta x ?meta) = Some ?meta"
    using assms(2) m(5) by (simp add: meta_law_def sealed_meta_def)
  have dig: "HeaderSHA256 ?meta = recordDigest x ?meta ?rec" by (simp add: sealed_meta_def recordDigest_def)
  have "validDigest (HeaderSHA256 ?meta)" using assms(1) by (simp add: sealed_meta_def recordDigest_def text_laws_def)
  moreover have "validDigest (KeySHA256 ?meta)" using assms(1) m(4) by (simp add: sealed_meta_def text_laws_def)
  moreover have "base64Decode x (base64Encode x (MarshalMeta x ?meta)) = Some (MarshalMeta x ?meta)"
    using assms(1) by (simp add: text_laws_def)
  ultimately show ?thesis
    using m dig pre cut un
    by (simp add: decodeIntegrity_def decodeIntegrityRecord_def Let_def)
       (simp add: sealed_meta_def)
qed

subsection \<open>Properties\<close>

definition entry_meta :: "recenv \<Rightarrow> time \<Rightarrow> string \<Rightarrow> int \<Rightarrow> string \<Rightarrow> integrityRecord" where
  "entry_meta x at key n digest =
     \<lparr>StoredAt = at, Size = n, BodySHA256 = digest, HeaderSHA256 = [], KeySHA256 = sha256Text x key, mfingerprint = []\<rparr>"

lemma entry_meta_simps [simp]:
  "StoredAt (entry_meta x at key n digest) = at" "Size (entry_meta x at key n digest) = n"
  "BodySHA256 (entry_meta x at key n digest) = digest" "KeySHA256 (entry_meta x at key n digest) = sha256Text x key"
  "mfingerprint (entry_meta x at key n digest) = []"
  by (simp_all add: entry_meta_def)

lemma serialize_sealed:
  "serializeCacheHeader x IntegritySHA256 status h at key n digest = serializeIntegrityHeader x status h (entry_meta x at key n digest)"
  "serializeCacheHeader x IntegrityDisabled status h at key n digest = serializeStoredHeader x status h at"
  by (simp_all add: serializeCacheHeader_def entry_meta_def)

text \<open>
  a header that is stored is read back: whatever the integrity mode, the record holds the
  status, the time of storage and, under every field name, the lines that were stored, cleaned of
  newlines and outer space; only names that are no tokens are left out.
\<close>

lemma stored_header_round_trip:
  assumes "text_laws x" "time_law x at" "meta_law x (sealed_meta x status h (entry_meta x at key n digest))"
    and "int64 status" "storable h" "canonical h"
  shows "\<exists>h'. readStoredHeaders x (serializeCacheHeader x mode status h at key n digest)
      = Inr (\<lparr>hHeader = h', hStatusCode = status\<rparr>, at)
    \<and> (\<forall>name. header_at h' name = (if valid_name name then map clean_value (header_at h name) else []))"
proof -
  note read = read_stored_header [OF assms(1,2,4,5)] read_integrity_header [OF assms(1,3,4,5), simplified]
  show ?thesis
    using collected_header [OF assms(6)] read by (cases mode) (auto simp: serialize_sealed)
qed

definition sealed_text :: "recenv \<Rightarrow> integrityRecord \<Rightarrow> string \<Rightarrow> string" where
  \<comment> \<open>what the record digest is computed from\<close>
  "sealed_text x m rec = MarshalMeta x (m\<lparr>HeaderSHA256 := []\<rparr>) @ [LF] @ rec"

text \<open>
  the checksums of a sealed entry. What was written is accepted for its own key and body; and
  where the digest function does not collide on the texts in question, another key, another
  serialized response behind the same metadata, and another body are each rejected.
\<close>

lemma integrity_detects_corruption:
  assumes "text_laws x" "meta_law x (sealed_meta x status h (entry_meta x at key (int (length body)) (sha256Text x body)))"
    and "\<not> isZero at"
  defines "m \<equiv> entry_meta x at key (int (length body)) (sha256Text x body)"
    and "line \<equiv> integrityPreamble @ base64Encode x (MarshalMeta x (sealed_meta x status h
      (entry_meta x at key (int (length body)) (sha256Text x body)))) @ crlf"
    and "rec \<equiv> status_line x status @ headersToWriter h"
  assumes "inj_on (sha256Text x) {key, key'}" "inj_on (sha256Text x) {body, body'}"
    and "inj_on (sha256Text x) {sealed_text x m rec, sealed_text x m rec'}"
  shows "serializeIntegrityHeader x status h m = line @ rec
    \<and> (\<exists>meta. decodeIntegrity x (line @ rec) key required = Inr (Some meta) \<and> verifyStoredBody x body meta fp = None
      \<and> (body' \<noteq> body \<longrightarrow> verifyStoredBody x body' meta fp = Some (fp, BodyMismatch)))
    \<and> (key' \<noteq> key \<longrightarrow> decodeIntegrity x (line @ rec) key' required = Inl (sha256Text x (line @ rec), ChecksumMismatch))
    \<and> (rec' \<noteq> rec \<longrightarrow> decodeIntegrity x (line @ rec') key required = Inl (sha256Text x (line @ rec'), ChecksumMismatch))"
proof -
  let ?meta = "sealed_meta x status h m"
  have meta: "meta_law x ?meta" using assms(2) by (simp add: m_def)
  have line: "line = integrityPreamble @ base64Encode x (MarshalMeta x ?meta) @ crlf" by (simp add: line_def m_def)
  have ser: "serializeIntegrityHeader x status h m = line @ rec"
    by (simp add: serializeIntegrityHeader_def line rec_def sealed_meta_def Let_def)
  have dig: "validDigest (sha256Text x s)" for s using assms(1) by (simp add: text_laws_def)
  have acc: "decodeIntegrity x (line @ rec) key required = Inr (Some (?meta\<lparr>mfingerprint := sha256Text x (line @ rec)\<rparr>))"
    using decode_written [OF assms(1) meta, of key required] assms(3) dig ser by (simp add: m_def)
  have body: "sha256Text x body' = sha256Text x body \<Longrightarrow> body' = body" using assms(8) by (auto dest: inj_onD)
  have own: "\<exists>meta. decodeIntegrity x (line @ rec) key required = Inr (Some meta) \<and> verifyStoredBody x body meta fp = None
      \<and> (body' \<noteq> body \<longrightarrow> verifyStoredBody x body' meta fp = Some (fp, BodyMismatch))"
    using acc body by (auto simp: verifyStoredBody_def sealed_meta_def m_def)
  have un: "UnmarshalMeta x (MarshalMeta x ?meta) = Some ?meta"
    using meta by (simp add: meta_law_def sealed_meta_def m_def)
  have "CR \<notin> set integrityPreamble" by code_simp
  then have cut: "find_crlf (line @ s) = Some (integrityPreamble @ base64Encode x (MarshalMeta x ?meta), s)" for s
    using find_crlf_append [of "integrityPreamble @ base64Encode x (MarshalMeta x ?meta)" s] assms(1)
    by (simp add: line text_laws_def)
  have valid: "validDigest (HeaderSHA256 ?meta)" "validDigest (KeySHA256 ?meta)" "validDigest (BodySHA256 ?meta)"
      "0 \<le> Size ?meta" "\<not> isZero (StoredAt ?meta)" "KeySHA256 ?meta = sha256Text x key"
    using dig assms(3) by (simp_all add: sealed_meta_def recordDigest_def m_def)
  have dec: "decodeIntegrity x (line @ s) k required = (if sha256Text x key \<noteq> sha256Text x k \<or> HeaderSHA256 ?meta \<noteq> recordDigest x ?meta s
      then Inl (sha256Text x (line @ s), ChecksumMismatch) else Inr (Some (?meta\<lparr>mfingerprint := sha256Text x (line @ s)\<rparr>)))" for s k
    using un cut valid assms(1) by (simp add: decodeIntegrity_def decodeIntegrityRecord_def Let_def text_laws_def line)
  have key: "key' \<noteq> key \<Longrightarrow> decodeIntegrity x (line @ rec) key' required = Inl (sha256Text x (line @ rec), ChecksumMismatch)"
    using assms(7) by (auto simp: dec dest: inj_onD)
  have "recordDigest x ?meta s = sha256Text x (sealed_text x m s)" for s
    by (simp add: recordDigest_def sealed_text_def sealed_meta_def)
  moreover have "HeaderSHA256 ?meta = sha256Text x (sealed_text x m rec)"
    by (simp add: recordDigest_def sealed_text_def sealed_meta_def rec_def)
  ultimately have "rec' \<noteq> rec \<Longrightarrow> decodeIntegrity x (line @ rec') key required = Inl (sha256Text x (line @ rec'), ChecksumMismatch)"
    using assms(9) by (auto simp: dec sealed_text_def dest: inj_onD)
  with ser own key show ?thesis by blast
qed

text \<open>
  File names are 64-bit FNV-1a hashes of the keys, so distinct keys can share their files.
\<close>

lemma hashed_keys_collide:
  "hashKey ''8yn0iYCKYHlIj4-BwPqk'' = hashKey ''GReLUrM4wMqfg9yzV3KQ'' \<and> ''8yn0iYCKYHlIj4-BwPqk'' \<noteq> ''GReLUrM4wMqfg9yzV3KQ''"
  by code_simp

subsection \<open>A concrete encoding\<close>

fun bits_of :: "string \<Rightarrow> string" where
  "bits_of [] = []"
| "bits_of (Char b0 b1 b2 b3 b4 b5 b6 b7 # s) = map (\<lambda>b. if b then CHR ''1'' else CHR ''0'') [b0, b1, b2, b3, b4, b5, b6, b7] @ bits_of s"

fun of_bits :: "string \<Rightarrow> string option" where
  "of_bits [] = Some []"
| "of_bits (b0 # b1 # b2 # b3 # b4 # b5 # b6 # b7 # s) =
     map_option ((#) (Char (b0 = CHR ''1'') (b1 = CHR ''1'') (b2 = CHR ''1'') (b3 = CHR ''1'')
       (b4 = CHR ''1'') (b5 = CHR ''1'') (b6 = CHR ''1'') (b7 = CHR ''1''))) (of_bits s)"
| "of_bits _ = None"

lemma of_bits_bits: "of_bits (bits_of s) = Some s"
  by (induction s rule: bits_of.induct) simp_all

lemma bits_of_set: "set (bits_of s) \<subseteq> {CHR ''0'', CHR ''1''}"
  by (induction s rule: bits_of.induct) auto

definition join_meta :: "integrityRecord \<Rightarrow> string" where
  "join_meta m = Join [Itoa (StoredAt m), Itoa (Size m), BodySHA256 m, HeaderSHA256 m, KeySHA256 m] '';''"

definition split_meta :: "string \<Rightarrow> integrityRecord option" where
  "split_meta s = (case Split CHR '';'' s of
     [at, n, b, h, k] \<Rightarrow> (case (ParseInt at, ParseInt n) of
        (Some at, Some n) \<Rightarrow> Some \<lparr>StoredAt = at, Size = n, BodySHA256 = b, HeaderSHA256 = h, KeySHA256 = k, mfingerprint = []\<rparr>
      | _ \<Rightarrow> None)
   | _ \<Rightarrow> None)"

definition plain_recenv :: recenv where
  "plain_recenv = \<lparr>StatusText = \<lambda>_. ''OK'', FormatNano = Itoa, ParseNano = ParseInt,
     sha256Text = \<lambda>s. hex 64 (case s of [] \<Rightarrow> 0 | c # _ \<Rightarrow> code c + 256 * int (length s)), base64Encode = bits_of, base64Decode = of_bits,
     MarshalMeta = join_meta, UnmarshalMeta = split_meta\<rparr>"

lemma hexd_is_hex: "0 \<le> n \<Longrightarrow> n < 16 \<Longrightarrow> is_hex (hexd n)"
  by (auto simp: is_hex_def is_digit_def hexd_def)

lemma hex_valid: "list_all is_hex (hex w n) \<and> length (hex w n) = w"
  by (induction w arbitrary: n) (auto simp: hexd_is_hex)

lemma plain_text_laws: "text_laws plain_recenv"
proof -
  have "CR \<notin> set (bits_of s)" "LF \<notin> set (bits_of s)" for s using bits_of_set [of s] by auto
  then show ?thesis using hex_valid by (simp add: text_laws_def plain_recenv_def of_bits_bits validDigest_def)
qed

lemma Itoa_plain: "int64 at \<Longrightarrow> time_law plain_recenv at"
  by (simp add: time_law_def plain_recenv_def ParseInt_Itoa Itoa_no not_digits)

lemma hex_no_separator: "CHR '';'' \<notin> set (hex w n)"
proof
  assume "CHR '';'' \<in> set (hex w n)"
  then have "is_hex CHR '';''" using hex_valid [of w n] by (auto simp: list_all_iff)
  moreover have "\<not> is_hex CHR '';''" by code_simp
  ultimately show False by simp
qed

lemma plain_meta_law:
  assumes "int64 (StoredAt m)" "int64 (Size m)" "CHR '';'' \<notin> set (BodySHA256 m)" "CHR '';'' \<notin> set (HeaderSHA256 m)"
    "CHR '';'' \<notin> set (KeySHA256 m)"
  shows "meta_law plain_recenv m"
proof -
  have no: "CHR '';'' \<notin> set (Itoa i)" for i by (rule Itoa_no) (simp_all add: not_digits)
  have "Split CHR '';'' (join_meta m) = [Itoa (StoredAt m), Itoa (Size m), BodySHA256 m, HeaderSHA256 m, KeySHA256 m]"
    using assms no by (simp add: join_meta_def Split_append_sep Split_no_sep)
  with assms show ?thesis by (simp add: meta_law_def plain_recenv_def split_meta_def ParseInt_Itoa)
qed

definition example_header :: header where
  "example_header = [(''Etag'', [''v1'']), (''Content-Length'', [''2'']), (''X-Note'', ['' a'', ''b''])]"

lemma plain_sealed_law:
  assumes "int64 at" "int64 n"
  shows "meta_law plain_recenv (sealed_meta plain_recenv status h (entry_meta plain_recenv at key n (sha256Text plain_recenv b)))"
  using assms hex_no_separator
  by (intro plain_meta_law) (simp_all add: sealed_meta_def entry_meta_def recordDigest_def plain_recenv_def)

lemma example_header_ok: "storable example_header \<and> canonical example_header"
  by code_simp

lemma small_int64: "0 \<le> i \<Longrightarrow> i < 2 ^ 31 \<Longrightarrow> int64 i"
  by (simp add: int64_def)

lemma stored_header_round_trip_witness:
  "\<exists>h'. readStoredHeaders plain_recenv (serializeCacheHeader plain_recenv IntegritySHA256 200 example_header 7 ''k'' 2
        (sha256Text plain_recenv ''hi'')) = Inr (\<lparr>hHeader = h', hStatusCode = 200\<rparr>, 7)
    \<and> header_at h' ''X-Note'' = [''a'', ''b'']"
proof -
  have "valid_name ''X-Note''" "map clean_value (header_at example_header ''X-Note'') = [''a'', ''b'']" by code_simp+
  then show ?thesis
    using stored_header_round_trip [OF plain_text_laws Itoa_plain [of 7] plain_sealed_law [of 7 2 200 example_header "''k''" "''hi''"],
        of IntegritySHA256] example_header_ok
    by (auto simp: small_int64)
qed

lemma two_point_inj: "f a \<noteq> f b \<Longrightarrow> inj_on f {a, b}"
  by (auto simp: inj_on_def)
lemma integrity_detects_corruption_witness:
  "decodeIntegrity plain_recenv (serializeIntegrityHeader plain_recenv 200 example_header
      (entry_meta plain_recenv 7 ''k'' (int (length ''hi'')) (sha256Text plain_recenv ''hi''))) ''l'' True
    = Inl (sha256Text plain_recenv (serializeIntegrityHeader plain_recenv 200 example_header
      (entry_meta plain_recenv 7 ''k'' (int (length ''hi'')) (sha256Text plain_recenv ''hi''))), ChecksumMismatch)"
proof -
  let ?x = plain_recenv
  let ?m = "entry_meta ?x 7 ''k'' (int (length ''hi'')) (sha256Text ?x ''hi'')"
  let ?rec = "status_line ?x 200 @ headersToWriter example_header"
  have 1: "inj_on (sha256Text ?x) {''k'', ''l''}" by (rule two_point_inj) code_simp
  have 2: "inj_on (sha256Text ?x) {''hi'', ''other''}" by (rule two_point_inj) code_simp
  have 3: "inj_on (sha256Text ?x) {sealed_text ?x ?m ?rec, sealed_text ?x ?m []}" by (rule two_point_inj) code_simp
  have at: "\<not> isZero 7" "int64 7" "int64 (int (length ''hi''))" by code_simp+
  have kl: "''l'' \<noteq> ''k''" by simp
  have law: "meta_law ?x (sealed_meta ?x 200 example_header ?m)"
    by (rule plain_sealed_law [OF at(2,3)])
  note all = integrity_detects_corruption [OF plain_text_laws law at(1) 1 2 3, of True]
  show ?thesis using all kl by (simp only: simp_thms)
qed
end
