(* ===== verification/Markers.thy ===== *)
theory Markers
  imports Ledger Files
begin

text \<open>
  Invalidation markers of \<^verbatim>\<open>src/cache.go\<close>: the map from keys to invalidation times, its two-phase
  update by \<^verbatim>\<open>Invalidate\<close>, its snapshots on the backing store, its recovery at start-up and its
  expiry; and the handler's own record of \<^verbatim>\<open>src/handler.go\<close> for caches that keep none.

  \<^verbatim>\<open>encoding/json\<close> is a parameter, a record of the two encodings the source uses and their
  decoders; \<open>codec_laws\<close> says that decoding inverts encoding.
\<close>

type_synonym markers = "(string, time) gomap"

record codec =
  MarshalMarkers :: "markers \<Rightarrow> string option"
  UnmarshalMarkers :: "string \<Rightarrow> markers option"
  MarshalSnapshot :: "int \<Rightarrow> markers \<Rightarrow> string option"
  UnmarshalSnapshot :: "string \<Rightarrow> (int \<times> markers option) option"

definition codec_laws :: "codec \<Rightarrow> bool" where
  "codec_laws cd \<longleftrightarrow>
     (\<forall>m d. MarshalMarkers cd m = Some d \<longrightarrow> (\<exists>m'. UnmarshalMarkers cd d = Some m' \<and> map_of m' = map_of m))
   \<and> (\<forall>g m d. MarshalSnapshot cd g m = Some d \<longrightarrow>
        (\<exists>m'. UnmarshalSnapshot cd d = Some (g, Some m') \<and> map_of m' = map_of m))"

subsection \<open>Snapshots\<close>

definition staleMapPath :: string where
  "staleMapPath = ''stale-markers.json''"

definition invalidationBarrierTime :: time where
  \<comment> \<open>9999-12-31T23:59:59.999999999Z: 3652059 days after the zero time, less a nanosecond\<close>
  "invalidationBarrierTime = 3652059 * 86400 * 1000000000 - 1"

definition staleMapSlotPath :: "int \<Rightarrow> string" where
  "staleMapSlotPath generation = ''stale-markers.'' @ Itoa (generation mod 2) @ ''.json''"

definition persistStale :: "'fs vfs \<Rightarrow> codec \<Rightarrow> markers \<Rightarrow> 'fs cache \<Rightarrow> 'fs cache" where
  "persistStale v cd snapshot c =
     (let next = (if diskRoot c then staleGeneration c else (staleGeneration c + 1) mod 2 ^ 64)
      in case (if diskRoot c then MarshalMarkers cd snapshot else MarshalSnapshot cd next snapshot) of
        None \<Rightarrow> c
      | Some encoded \<Rightarrow>
          if diskRoot c then c\<lparr>fs := snd (atomicWriteFile v staleMapPath encoded (fs c))\<rparr>
          else let ((n, published, err), s) = vfsWrite v (staleMapSlotPath next) (encoded, False) (fs c)
               in if err then c\<lparr>fs := s\<rparr> else c\<lparr>fs := s, staleGeneration := next\<rparr>)"

definition snapshotStaleLocked :: "'fs cache \<Rightarrow> markers" where
  "snapshotStaleLocked c = staleMap c"

subsection \<open>Invalidation\<close>

definition mark_all :: "string list \<Rightarrow> time \<Rightarrow> markers \<Rightarrow> markers" where
  "mark_all keys at m = foldl (\<lambda>m key. AList.update key at m) m keys"

text \<open>The first critical section publishes the barrier, the second the final time; other operations may run between them.\<close>

definition invalidate_barrier :: "'fs vfs \<Rightarrow> codec \<Rightarrow> string list \<Rightarrow> 'fs cache \<Rightarrow> 'fs cache" where
  "invalidate_barrier v cd keys c =
     (let c = c\<lparr>staleMap := mark_all keys invalidationBarrierTime (staleMap c)\<rparr>
      in persistStale v cd (snapshotStaleLocked c) c)"

definition invalidate_final :: "'fs vfs \<Rightarrow> codec \<Rightarrow> time \<Rightarrow> string list \<Rightarrow> 'fs cache \<Rightarrow> 'fs cache" where
  "invalidate_final v cd now keys c =
     (let c = c\<lparr>staleMap := mark_all keys now (staleMap c)\<rparr>
      in persistStale v cd (snapshotStaleLocked c) c)"

definition Invalidate :: "'fs vfs \<Rightarrow> codec \<Rightarrow> time \<Rightarrow> string list \<Rightarrow> 'fs cache \<Rightarrow> 'fs cache" where
  "Invalidate v cd now keys c =
     (if keys = [] then c else invalidate_final v cd now keys (invalidate_barrier v cd keys c))"

definition StaleAt :: "'fs cache \<Rightarrow> string \<Rightarrow> time option" where
  "StaleAt c key = map_of (staleMap c) key"

definition StaleSnapshot :: "'fs cache \<Rightarrow> string list \<Rightarrow> markers" where
  "StaleSnapshot c keys =
     foldl (\<lambda>snapshot key. case map_of (staleMap c) key of Some at \<Rightarrow> AList.update key at snapshot | None \<Rightarrow> snapshot) [] keys"

subsection \<open>Recovery\<close>

definition restoreStale :: "time \<Rightarrow> markers \<Rightarrow> 'fs cache \<Rightarrow> bool \<times> 'fs cache" where
  "restoreStale recoveredAt restored c =
     (list_ex (\<lambda>(key, at). at = invalidationBarrierTime) restored,
      c\<lparr>staleMap := foldl (\<lambda>m (key, at).
          let at = (if at = invalidationBarrierTime then recoveredAt else at)
          in if map_of m key = None then AList.update key at m else m) (staleMap c) restored\<rparr>)"

definition readSlot :: "'fs vfs \<Rightarrow> codec \<Rightarrow> int \<Rightarrow> 'fs \<Rightarrow> (int \<times> markers) option" where
  \<comment> \<open>one round of the loop over the slots: a missing, undecodable or invalid slot is skipped\<close>
  "readSlot v cd slot s =
     (case vRead v (staleMapSlotPath slot) s of Inl _ \<Rightarrow> None
      | Inr d \<Rightarrow> (case UnmarshalSnapshot cd d of
          Some (g, Some m) \<Rightarrow> if g = 0 then None else Some (g, m)
        | _ \<Rightarrow> None))"

definition bestSlot :: "(int \<times> markers) option \<Rightarrow> (int \<times> markers) option \<Rightarrow> (int \<times> markers) option" where
  "bestSlot best candidate =
     (case (best, candidate) of (None, _) \<Rightarrow> candidate | (_, None) \<Rightarrow> best
      | (Some b, Some x) \<Rightarrow> if fst x > fst b then candidate else best)"

definition restore_and_persist :: "'fs vfs \<Rightarrow> codec \<Rightarrow> time \<Rightarrow> markers \<Rightarrow> 'fs cache \<Rightarrow> 'fs cache" where
  "restore_and_persist v cd now restored c =
     (let (recovered, c) = restoreStale now restored c
      in if recovered then persistStale v cd (snapshotStaleLocked c) c else c)"

definition loadStale :: "'fs vfs \<Rightarrow> codec \<Rightarrow> time \<Rightarrow> 'fs cache \<Rightarrow> 'fs cache" where
  "loadStale v cd now c =
     (case (if diskRoot c then None else bestSlot (bestSlot None (readSlot v cd 0 (fs c))) (readSlot v cd 1 (fs c))) of
        Some (g, m) \<Rightarrow> restore_and_persist v cd now m (c\<lparr>staleGeneration := g\<rparr>)
      | None \<Rightarrow> (case vRead v staleMapPath (fs c) of Inl _ \<Rightarrow> c
          | Inr d \<Rightarrow> (case UnmarshalMarkers cd d of None \<Rightarrow> c | Some m \<Rightarrow> restore_and_persist v cd now m c)))"

subsection \<open>Expiry\<close>

definition staleRetention :: "'fs cache \<Rightarrow> duration" where
  "staleRetention c = (if TTL (cfg c) \<le> 0 then 0 else max (StaleMapTTL (cfg c)) (TTL (cfg c)))"

definition cleanupStaleMap :: "'fs vfs \<Rightarrow> codec \<Rightarrow> time \<Rightarrow> 'fs cache \<Rightarrow> int \<times> 'fs cache" where
  "cleanupStaleMap v cd now c =
     (let retention = staleRetention c in
      if retention \<le> 0 then (0, c)
      else
        let cutoff = now - retention;
            kept = filter (\<lambda>(key, at). \<not> at < cutoff) (staleMap c);
            removed = int (length (staleMap c)) - int (length kept);
            c = c\<lparr>staleMap := kept\<rparr>
        in (removed, if removed > 0 then persistStale v cd (snapshotStaleLocked c) c else c))"

record CleanupResult =
  RemovedItems :: int
  RemovedBytes :: int
  RemovedStaleEntries :: int
  CleanupDuration :: duration

definition Cleanup :: "'fs vfs \<Rightarrow> codec \<Rightarrow> time \<Rightarrow> time \<Rightarrow> 'fs cache \<Rightarrow> CleanupResult \<times> 'fs cache" where
  "Cleanup v cd start finish c =
     (let (items, bytes, stales, c) =
            (if TTL (cfg c) > 0 then
               let (removed, bytes, complete, c) = cleanupTTLExpired v start c in
               if complete then let (n, c) = cleanupStaleMap v cd start c in (removed, bytes, n, c)
               else (removed, bytes, 0, c)
             else let (n, c) = cleanupStaleMap v cd start c in (0, 0, n, c));
          (items, bytes, c) =
            (if MaxSize (cfg c) > 0 then
               let (removed, b, c) = enforceMaxSize v c in (items + removed, bytes + b, c)
             else (items, bytes, c))
      in (\<lparr>RemovedItems = items, RemovedBytes = bytes, RemovedStaleEntries = stales,
           CleanupDuration = time_sub finish start\<rparr>, c))"

subsection \<open>The handler's record\<close>

text \<open>
  \<open>keepsMarkers\<close> says that the handler's cache implements \<^verbatim>\<open>staleAtChecker\<close>; then the handler records
  nothing. A proof of freshness is its time and an identity that distinguishes equal times.
\<close>

record localFreshProof =
  proofAt :: time
  proofId :: nat

record localPublication =
  pactive :: int
  poverlap :: bool

record handlerMarks =
  keepsMarkers :: bool
  localStale :: markers
  localFresh :: "(string, localFreshProof) gomap"
  localPublications :: "(string, localPublication) gomap"
  localStaleTTL :: duration
  nextProof :: nat

definition staleMarkerTTL :: "handlerMarks \<Rightarrow> duration" where
  "staleMarkerTTL h = (if localStaleTTL h > 0 then localStaleTTL h else TTL DefaultCacheConfig)"

definition recordStale :: "time \<Rightarrow> string list \<Rightarrow> handlerMarks \<Rightarrow> handlerMarks" where
  "recordStale now keys h =
     (if keepsMarkers h then h
      else let cutoff = now - staleMarkerTTL h
           in h\<lparr>localStale := mark_all keys now (filter (\<lambda>(key, at). \<not> at < cutoff) (localStale h)),
                localFresh := filter (\<lambda>(key, p). \<not> proofAt p < cutoff) (localFresh h)\<rparr>)"

definition locallyFreshAfter :: "handlerMarks \<Rightarrow> string \<Rightarrow> time \<Rightarrow> bool" where
  "locallyFreshAfter h key at =
     (if keepsMarkers h then False
      else case map_of (localFresh h) key of None \<Rightarrow> False | Some p \<Rightarrow> at < proofAt p)"

definition local_staleAt :: "handlerMarks \<Rightarrow> string \<Rightarrow> time option" where
  "local_staleAt h key = map_of (localStale h) key"

subsection \<open>Marking\<close>

lemma map_of_mark_all [go_map_simps]: "map_of (mark_all keys at m) k = (if k \<in> set keys then Some at else map_of m k)"
  unfolding mark_all_def by (induction keys arbitrary: m) (auto simp: update_conv')

lemma go_map_mark_all [simp]: "go_map m \<Longrightarrow> go_map (mark_all keys at m)"
  unfolding mark_all_def by (induction keys arbitrary: m) auto

lemma persist_frame [simp]:
  "staleMap (persistStale v cd m c) = staleMap c" "lruIndex (persistStale v cd m c) = lruIndex c"
  "lruList (persistStale v cd m c) = lruList c" "totalSize (persistStale v cd m c) = totalSize c"
  "reservations (persistStale v cd m c) = reservations c" "reservedSize (persistStale v cd m c) = reservedSize c"
  "cfg (persistStale v cd m c) = cfg c" "diskRoot (persistStale v cd m c) = diskRoot c"
  "nextGeneration (persistStale v cd m c) = nextGeneration c"
  by (simp_all add: persistStale_def Let_def split: option.split prod.split)

lemma Invalidate_marks:
  "map_of (staleMap (Invalidate v cd now keys c)) k = (if k \<in> set keys then Some now else map_of (staleMap c) k)"
  by (simp add: Invalidate_def invalidate_final_def invalidate_barrier_def Let_def go_map_simps)

subsection \<open>Marker records\<close>

text \<open>
  What the readers rely on, whoever keeps the record: recording marks the given keys with the
  current time and touches no other marker unless it has expired.
\<close>

locale marker_record =
  fixes inv :: "'s \<Rightarrow> bool" and look :: "'s \<Rightarrow> string \<Rightarrow> time option"
    and record_at :: "time \<Rightarrow> string list \<Rightarrow> 's \<Rightarrow> 's" and expired :: "'s \<Rightarrow> time \<Rightarrow> time \<Rightarrow> bool"
  assumes record_inv: "inv s \<Longrightarrow> inv (record_at now keys s)"
    and record_marks: "inv s \<Longrightarrow> k \<in> set keys \<Longrightarrow> look (record_at now keys s) k = Some now"
    and record_keeps: "inv s \<Longrightarrow> k \<notin> set keys \<Longrightarrow> look s k = Some t \<Longrightarrow> \<not> expired s now t \<Longrightarrow>
      look (record_at now keys s) k = Some t"
    and expired_record: "inv s \<Longrightarrow> expired (record_at now keys s) now' t = expired s now' t"
begin

definition history :: "(time \<times> string list) list \<Rightarrow> 's \<Rightarrow> 's" where
  "history hist s = foldl (\<lambda>s (now, keys). record_at now keys s) s hist"

lemma marker_survives:
  "inv s \<Longrightarrow> look s k = Some t \<Longrightarrow> (\<forall>(now, keys) \<in> set hist. k \<notin> set keys \<and> \<not> expired s now t) \<Longrightarrow>
    look (history hist s) k = Some t"
proof (induction hist arbitrary: s)
  case Nil
  then show ?case by (simp add: history_def)
next
  case (Cons h hist)
  obtain now keys where h: "h = (now, keys)" by (cases h)
  with Cons.prems have "look (record_at now keys s) k = Some t" by (intro record_keeps) auto
  with Cons.IH [of "record_at now keys s"] Cons.prems h show ?case
    by (auto simp: history_def record_inv expired_record)
qed

lemma last_invalidation_governs:
  assumes "inv s" "k \<in> set keys" "\<forall>(now', keys') \<in> set later. k \<notin> set keys' \<and> \<not> expired s now' now"
  shows "look (history ((now, keys) # later) s) k = Some now"
  using assms marker_survives [of "record_at now keys s" k now later]
  by (auto simp: history_def record_inv record_marks expired_record)

end

interpretation cm: marker_record "\<lambda>_. True" StaleAt "Invalidate v cd" "\<lambda>_ _ _. False"
  for v :: "'fs vfs" and cd
  by unfold_locales (simp_all add: StaleAt_def Invalidate_marks)

interpretation hm: marker_record "\<lambda>h. \<not> keepsMarkers h \<and> go_map (localStale h)" local_staleAt recordStale
  "\<lambda>h now t. t < now - staleMarkerTTL h"
  by unfold_locales (auto simp: local_staleAt_def recordStale_def Let_def go_map_simps staleMarkerTTL_def)

text \<open>
  an invalidation is remembered. After a key was invalidated at \<open>t\<close>, whatever other keys are
  invalidated later, the cache's marker of the key is \<open>t\<close>; the handler's own record keeps it as long
  as it is not older than its retention when a later invalidation sweeps.
\<close>

lemma invalidation_is_remembered:
  assumes "k \<in> set keys" "\<forall>(now', keys') \<in> set later. k \<notin> set keys'"
    and "\<not> keepsMarkers h" "go_map (localStale h)" "\<forall>(now', keys') \<in> set later. now' - staleMarkerTTL h \<le> t"
  shows "StaleAt (foldl (\<lambda>c (now, keys). Invalidate v cd now keys c) (Invalidate v cd t keys c) later) k = Some t
    \<and> local_staleAt (foldl (\<lambda>h (now, keys). recordStale now keys h) (recordStale t keys h) later) k = Some t"
proof -
  have "StaleAt (cm.history v cd ((t, keys) # later) c) k = Some t"
    using assms(1,2) by (intro cm.last_invalidation_governs) auto
  moreover have "local_staleAt (hm.history ((t, keys) # later) h) k = Some t"
    using assms by (intro hm.last_invalidation_governs) force+
  ultimately show ?thesis by (simp add: cm.history_def hm.history_def)
qed

subsection \<open>Cleanup and markers\<close>

lemma sweep_complete:
  assumes "ledger_ok c" "sweep v (\<lambda>_. True) pick ks c = (gone, False, c')"
    and "k \<in> set ks" "map_of (lruIndex c') k = Some e"
  shows "\<exists>c0. same_but_entries c c0 \<and> pick c0 e = Pass"
  using assms(1-3)
proof (induction ks arbitrary: c gone)
  case Nil
  then show ?case by simp
next
  case (Cons j ks)
  show ?case
  proof (cases "map_of (lruIndex c) j")
    case None
    with Cons.prems(2) have sw: "sweep v (\<lambda>_. True) pick ks c = (gone, False, c')" by simp
    have "k \<noteq> j" using None assms(4) sweep_ok [OF Cons.prems(1) sw] by (auto split: if_splits)
    with Cons.IH [OF Cons.prems(1) sw] Cons.prems(3) show ?thesis by simp
  next
    case (Some entry)
    show ?thesis
    proof (cases "pick c entry")
      case Pass
      with Some Cons.prems(2) have sw: "sweep v (\<lambda>_. True) pick ks c = (gone, False, c')" by simp
      show ?thesis
      proof (cases "k = j")
        case True
        have "map_of (lruIndex c') j = Some entry \<or> map_of (lruIndex c') j = None"
          using Some sweep_ok [OF Cons.prems(1) sw] by (auto split: if_splits)
        with True assms(4) have "e = entry" by auto
        with Pass same_but_entries_refl show ?thesis by blast
      next
        case False
        with Cons.IH [OF Cons.prems(1) sw] Cons.prems(3) show ?thesis by simp
      qed
    next
      case Keep
      with Some Cons.prems(2) show ?thesis by (auto split: prod.splits)
    next
      case Take
      obtain err c1 where r: "removeEntry v entry c = (err, c1)" by (rule prod.exhaust)
      obtain g where sw: "sweep v (\<lambda>_. True) pick ks c1 = (g, False, c')" and ok: "\<not> err"
        using Cons.prems(2) Some Take r by (auto split: prod.splits)
      note rm = removeEntry_ok [OF Cons.prems(1) Some r]
      have same: "same_but_entries c c1" using rm by (simp add: same_but_entries_def)
      have "map_of (lruIndex c1) j = None" using rm(2) ok by (simp add: go_map_simps)
      then have "k \<noteq> j" using assms(4) sweep_ok [OF rm(1) sw] by (auto split: if_splits)
      with Cons.IH [OF rm(1) sw] Cons.prems(3) same show ?thesis
        using same_but_entries_trans by (metis set_ConsD)
    qed
  qed
qed

lemma ttl_complete:
  assumes "ledger_ok c" "cleanupTTLExpired v now c = (n, b, True, c')" "map_of (lruIndex c') k = Some e"
  shows "now - TTL (cfg c) \<le> estoredAt e"
proof -
  let ?pick = "\<lambda>c0 entry. if \<not> estoredAt entry < now - TTL (cfg c) then Pass else if active c0 (ehashedKey entry) then Keep else Take"
  obtain gone where sw: "sweep v (\<lambda>_. True) ?pick (rev (lruList c)) c = (gone, False, c')"
    using assms(2) by (auto simp: cleanupTTLExpired_def Let_def split: prod.splits)
  have "map_of (lruIndex c) k \<noteq> None" using sweep_ok [OF assms(1) sw] assms(3) by (auto split: if_splits)
  then have "k \<in> set (rev (lruList c))" using assms(1) by (simp add: ledger_ok_def)
  from sweep_complete [OF assms(1) sw this assms(3)] show ?thesis by (auto split: if_splits)
qed

lemma cleanup_stale_frame:
  assumes "cleanupStaleMap v cd now c = (n, c')" "go_map (staleMap c)"
  shows "lruIndex c' = lruIndex c" "lruList c' = lruList c" "totalSize c' = totalSize c" "reservations c' = reservations c"
    "reservedSize c' = reservedSize c" "cfg c' = cfg c"
    "map_of (staleMap c') k = (if 0 < staleRetention c then case map_of (staleMap c) k of None \<Rightarrow> None
       | Some t \<Rightarrow> if t < now - staleRetention c then None else Some t else map_of (staleMap c) k)"
  using assms by (auto simp: cleanupStaleMap_def Let_def go_map_simps split: if_splits option.splits)

text \<open>
  C32: cleanup frees a marker only when nothing it governs is left. If a cleanup cycle removes the
  marker of some key that was invalidated at \<open>t\<close>, then every entry still tracked afterwards was
  stored after \<open>t\<close>, under any key, so no pre-mutation entry (a \<^verbatim>\<open>Vary\<close> variant, say) can come back as
  fresh; with \<^verbatim>\<open>TTL\<close> eviction off, no marker is removed at all.
\<close>

theorem cleanup_frees_only_spent_markers:
  assumes "ledger_ok c" "go_map (staleMap c)" "Cleanup v cd start finish c = (result, c')"
    and "map_of (staleMap c) k = Some t" "map_of (staleMap c') k = None"
  shows "0 < TTL (cfg c) \<and> (\<forall>j e. map_of (lruIndex c') j = Some e \<longrightarrow> t < estoredAt e)"
proof -
  define c2 where "c2 = (if TTL (cfg c) > 0 then
      let (n, b, complete, c1) = cleanupTTLExpired v start c in if complete then snd (cleanupStaleMap v cd start c1) else c1
    else snd (cleanupStaleMap v cd start c))"
  have c': "c' = (if MaxSize (cfg c2) > 0 then snd (snd (enforceMaxSize v c2)) else c2)"
    using assms(3) unfolding Cleanup_def c2_def
    by (auto simp: Let_def split: prod.splits if_splits)
  obtain n b complete c1 where ttl: "cleanupTTLExpired v start c = (n, b, complete, c1)" by (metis prod_cases4)
  note sw = ttl_sweep [OF assms(1) ttl]
  have stale1: "staleMap c1 = staleMap c" "cfg c1 = cfg c" using sw(2) by (simp_all add: same_but_entries_def)
  obtain m c3 where cs: "cleanupStaleMap v cd start c1 = (m, c3)" by (rule prod.exhaust)
  obtain m' c4 where cs': "cleanupStaleMap v cd start c = (m', c4)" by (rule prod.exhaust)
  have ok2: "ledger_ok c2"
  proof -
    have "go_map (staleMap c1)" using stale1 assms(2) by simp
    from cleanup_stale_frame(1-5) [OF cs this] have "ledger_ok c3" by (rule ledger_ok_frame [OF sw(1)])
    moreover from cleanup_stale_frame(1-5) [OF cs' assms(2)] have "ledger_ok c4" by (rule ledger_ok_frame [OF assms(1)])
    ultimately show ?thesis using sw(1) by (simp add: c2_def ttl cs cs')
  qed
  obtain m2 b2 c5 where mx: "enforceMaxSize v c2 = (m2, b2, c5)" by (metis prod_cases3)
  note mx' = max_size_sweep [OF ok2 mx]
  have stale: "staleMap c' = staleMap c2"
    using mx'(2) by (simp add: c' mx same_but_entries_def)
  have sub: "map_of (lruIndex c') j = Some e \<Longrightarrow> map_of (lruIndex c2) j = Some e" for j e
  proof -
    obtain gone left where "sweep v (\<lambda>c. totalSize c > MaxSize (cfg c))
        (\<lambda>c entry. if active c (ehashedKey entry) then Pass else Take) (rev (lruList c2)) c2 = (gone, left, c5)"
      using mx by (auto simp: enforceMaxSize_def Let_def split: prod.splits)
    from sweep_ok [OF ok2 this] show "map_of (lruIndex c') j = Some e \<Longrightarrow> ?thesis"
      by (auto simp: c' mx split: if_splits)
  qed
  have ttl_pos: "0 < TTL (cfg c)" and fin: "complete" and old: "t < start - staleRetention c1"
    using assms(4,5) stale cleanup_stale_frame(7) [OF cs, of k] cleanup_stale_frame(7) [OF cs' assms(2), of k] stale1 assms(2)
    by (auto simp: c2_def ttl cs cs' staleRetention_def split: if_splits)
  have "t < estoredAt e" if "map_of (lruIndex c') j = Some e" for j e
  proof -
    have "map_of (lruIndex c3) j = Some e" using sub [OF that] ttl_pos fin by (simp add: c2_def ttl cs)
    then have "map_of (lruIndex c1) j = Some e" using cleanup_stale_frame(1) [OF cs] stale1 assms(2) by simp
    then have "start - TTL (cfg c) \<le> estoredAt e" using ttl_complete [OF assms(1)] ttl fin by simp
    moreover have "start - staleRetention c1 \<le> start - TTL (cfg c)" using stale1 ttl_pos by (simp add: staleRetention_def)
    ultimately show ?thesis using old by linarith
  qed
  with ttl_pos show ?thesis by blast
qed

subsection \<open>Restarts\<close>

definition recover :: "time \<Rightarrow> time \<Rightarrow> time" where
  "recover now at = (if at = invalidationBarrierTime then now else at)"

lemma restore_fold:
  "map_of (foldl (\<lambda>m (key, at). let at = (if at = invalidationBarrierTime then now else at)
       in if map_of m key = None then AList.update key at m else m) acc r) k =
   (case map_of acc k of Some x \<Rightarrow> Some x | None \<Rightarrow> map_option (recover now) (map_of r k))"
proof (induction r arbitrary: acc)
  case Nil
  then show ?case by (simp split: option.split)
next
  case (Cons a r)
  obtain key at where "a = (key, at)" by (cases a)
  with Cons.IH show ?case by (auto simp: Let_def update_conv' recover_def split: option.split)
qed

lemma restored_marker:
  "staleMap c = [] \<Longrightarrow> StaleAt (restore_and_persist v cd now m c) k = map_option (recover now) (map_of m k)"
  using restore_fold [of now "[]" m k]
  by (simp add: restore_and_persist_def restoreStale_def StaleAt_def)

lemma marker_paths: "\<not> temp_name staleMapPath" by code_simp

text \<open>
  C33: a disk cache's invalidations survive a restart. When the snapshot of the markers was written,
  a new process on the same directory starts with exactly these markers; a barrier left by an
  interrupted \<^verbatim>\<open>Invalidate\<close> becomes the restart time, which no surviving file is newer than.
\<close>

theorem disk_markers_survive_restart:
  assumes "vfs_laws v" "codec_laws cd" "diskRoot c" "MarshalMarkers cd (staleMap c) = Some d"
    and "\<not> fst (atomicWriteFile v staleMapPath d (fs c))"
    and "diskRoot c'" "staleMap c' = []" "fs c' = fs (persistStale v cd (snapshotStaleLocked c) c)"
  shows "StaleAt (loadStale v cd now c') k = map_option (recover now) (StaleAt c k)"
proof -
  obtain err s where w: "atomicWriteFile v staleMapPath d (fs c) = (err, s)" by (rule prod.exhaust)
  have fs': "fs c' = s" using assms(3,4,8) w by (simp add: persistStale_def snapshotStaleLocked_def)
  have r: "vRead v staleMapPath s = Inr d"
    using atomicWriteFile_read [OF assms(1) w marker_paths marker_paths] assms(5) w by simp
  obtain m where m: "UnmarshalMarkers cd d = Some m" "map_of m = map_of (staleMap c)"
    using assms(2,4) unfolding codec_laws_def by blast
  show ?thesis
    using restored_marker [OF assms(7), of v cd now m k] assms(6) fs' r m
    by (simp add: loadStale_def StaleAt_def)
qed

definition other_slot :: "'fs vfs \<Rightarrow> codec \<Rightarrow> int \<Rightarrow> 'fs \<Rightarrow> bool" where
  "other_slot v cd g s \<longleftrightarrow> (case readSlot v cd (g + 1) s of None \<Rightarrow> True | Some (g', _) \<Rightarrow> g' < g)"

text \<open>The journal's newest complete generation is \<open>g\<close> and holds the markers \<open>m\<close> (none when \<open>g\<close> is 0).\<close>

definition journal :: "'fs vfs \<Rightarrow> codec \<Rightarrow> 'fs \<Rightarrow> int \<Rightarrow> markers \<Rightarrow> bool" where
  "journal v cd s g m \<longleftrightarrow> 0 \<le> g \<and>
     (if g = 0 then readSlot v cd 0 s = None \<and> readSlot v cd 1 s = None
      else (\<exists>m'. readSlot v cd g s = Some (g, m') \<and> map_of m' = map_of m) \<and> other_slot v cd g s)"

lemma slot_path_mod: "staleMapSlotPath (g mod 2) = staleMapSlotPath g"
  by (simp add: staleMapSlotPath_def)

lemma readSlot_mod: "readSlot v cd (g mod 2) s = readSlot v cd g s"
  by (simp add: readSlot_def slot_path_mod)

lemma slot_paths_differ: "staleMapSlotPath g \<noteq> staleMapSlotPath (g + 1)"
proof -
  have "Itoa 0 \<noteq> Itoa 1" by code_simp
  then show ?thesis
    by (cases "g mod 2 = 0") (auto simp: staleMapSlotPath_def mod_add_left_eq [symmetric])
qed

lemma load_journal:
  assumes "journal v cd (fs c) g m" "g \<noteq> 0" "\<not> diskRoot c" "staleMap c = []"
  shows "StaleAt (loadStale v cd now c) k = map_option (recover now) (map_of m k)"
proof -
  obtain m' where g: "readSlot v cd g (fs c) = Some (g, m')" "map_of m' = map_of m" and o: "other_slot v cd g (fs c)"
    using assms(1,2) by (auto simp: journal_def)
  have "bestSlot (bestSlot None (readSlot v cd 0 (fs c))) (readSlot v cd 1 (fs c)) = Some (g, m')"
  proof (cases "g mod 2 = 0")
    case True
    then have "readSlot v cd 0 (fs c) = readSlot v cd g (fs c)" by (metis readSlot_mod)
    moreover have "(g + 1) mod 2 = 1" using True by presburger
    then have "readSlot v cd 1 (fs c) = readSlot v cd (g + 1) (fs c)" by (metis readSlot_mod)
    ultimately show ?thesis
      using g o by (auto simp: bestSlot_def other_slot_def split: option.splits)
  next
    case False
    then have "g mod 2 = 1" "(g + 1) mod 2 = 0" by presburger+
    then have "readSlot v cd 1 (fs c) = readSlot v cd g (fs c)" "readSlot v cd 0 (fs c) = readSlot v cd (g + 1) (fs c)"
      by (metis readSlot_mod)+
    then show ?thesis
      using g o by (auto simp: bestSlot_def other_slot_def split: option.splits)
  qed
  then show ?thesis
    using assms(3,4) restored_marker [of "c\<lparr>staleGeneration := g\<rparr>" v cd now m' k] g(2) by (simp add: loadStale_def)
qed


subsection \<open>Concrete runs\<close>

text \<open>A line-based encoding that refuses what it cannot read back, to run the model with.\<close>

definition enc_markers :: "markers \<Rightarrow> string" where
  "enc_markers m = concat (map (\<lambda>(k, t). k @ '' '' @ Itoa t @ [CHR 0x0A]) m)"

definition dec_line :: "string \<Rightarrow> (string \<times> time) option" where
  "dec_line l = (case Split CHR '' '' l of [k, t] \<Rightarrow> map_option (Pair k) (ParseInt t) | _ \<Rightarrow> None)"

definition dec_markers :: "string \<Rightarrow> markers option" where
  "dec_markers d = those (map dec_line (butlast (Split (CHR 0x0A) d)))"

definition dec_snapshot :: "string \<Rightarrow> (int \<times> markers option) option" where
  "dec_snapshot d = (case Split (CHR 0x0A) d of l # ls \<Rightarrow>
     (case (ParseInt l, those (map dec_line (butlast ls))) of (Some g, Some m) \<Rightarrow> Some (g, Some m) | _ \<Rightarrow> None) | [] \<Rightarrow> None)"

definition line_codec :: codec where
  "line_codec = \<lparr>
     MarshalMarkers = \<lambda>m. let d = enc_markers m in if dec_markers d = Some m then Some d else None,
     UnmarshalMarkers = dec_markers,
     MarshalSnapshot = \<lambda>g m. let d = Itoa g @ [CHR 0x0A] @ enc_markers m in if dec_snapshot d = Some (g, Some m) then Some d else None,
     UnmarshalSnapshot = dec_snapshot\<rparr>"

lemma line_codec_laws: "codec_laws line_codec"
  by (auto simp: codec_laws_def line_codec_def Let_def split: if_splits)

definition example_cache :: "bool \<Rightarrow> (string, string) gomap cache" where
  "example_cache disk = empty_cache [] disk example_config"

lemma invalidation_is_remembered_witness:
  "StaleAt (Invalidate mem_vfs line_codec 9 [''b''] (Invalidate mem_vfs line_codec 5 [''a''] (example_cache False))) ''a'' = Some 5
   \<and> local_staleAt (recordStale 9 [''b''] (recordStale 5 [''a''] \<lparr>keepsMarkers = False, localStale = [], localFresh = [],
        localPublications = [], localStaleTTL = 100, nextProof = 0\<rparr>)) ''a'' = Some 5"
  using invalidation_is_remembered [of "''a''" "[''a'']" "[(9, [''b''])]" "\<lparr>keepsMarkers = False, localStale = [], localFresh = [],
        localPublications = [], localStaleTTL = 100, nextProof = 0\<rparr>" 5 mem_vfs line_codec "example_cache False"]
  by (simp add: staleMarkerTTL_def)

lemma example_cache_ok: "ledger_ok (example_cache disk)"
  by (simp add: example_cache_def empty_ledger_ok)

definition example_expired :: "(string, string) gomap cache" where
  "example_expired = trackEntry 0 ''k'' ''h'' 1 10000000000000000 (Invalidate mem_vfs line_codec 100 [''gone''] (example_cache False))"

lemma cleanup_frees_only_spent_markers_witness:
  "StaleAt (snd (Cleanup mem_vfs line_codec 10000000000000005 10000000000000006 example_expired)) ''gone'' = None
   \<and> 0 < TTL (cfg example_expired)"
proof -
  obtain result c' where r: "Cleanup mem_vfs line_codec 10000000000000005 10000000000000006 example_expired = (result, c')"
    by (rule prod.exhaust)
  have "ledger_ok (Invalidate mem_vfs line_codec 100 [''gone''] (example_cache False))"
    by (rule ledger_ok_frame [OF example_cache_ok [of False]])
      (simp_all add: Invalidate_def invalidate_final_def invalidate_barrier_def Let_def)
  then have ok: "ledger_ok example_expired" unfolding example_expired_def by (rule track_ok) simp
  have f: "go_map (staleMap example_expired)" "map_of (staleMap example_expired) ''gone'' = Some 100"
    "StaleAt (snd (Cleanup mem_vfs line_codec 10000000000000005 10000000000000006 example_expired)) ''gone'' = None"
    by code_simp+
  have "map_of (staleMap c') ''gone'' = None" using f(3) by (simp add: r StaleAt_def)
  from cleanup_frees_only_spent_markers [OF ok f(1) r f(2) this] f(3) show ?thesis by (simp add: r)
qed

lemma disk_markers_survive_restart_witness:
  "StaleAt (loadStale mem_vfs line_codec 99 ((example_cache True)\<lparr>fs := fs (persistStale mem_vfs line_codec
      (snapshotStaleLocked ((example_cache True)\<lparr>staleMap := [(''a'', 7)]\<rparr>)) ((example_cache True)\<lparr>staleMap := [(''a'', 7)]\<rparr>))\<rparr>)) ''a'' = Some 7"
proof -
  let ?c = "(example_cache True)\<lparr>staleMap := [(''a'', 7)]\<rparr>"
  let ?c' = "(example_cache True)\<lparr>fs := fs (persistStale mem_vfs line_codec (snapshotStaleLocked ?c) ?c)\<rparr>"
  have f: "MarshalMarkers line_codec (staleMap ?c) = Some (enc_markers [(''a'', 7)])"
    "\<not> fst (atomicWriteFile mem_vfs staleMapPath (enc_markers [(''a'', 7)]) (fs ?c))"
    by code_simp+
  have d: "diskRoot ?c" "diskRoot ?c'" "staleMap ?c' = []" "fs ?c' = fs (persistStale mem_vfs line_codec (snapshotStaleLocked ?c) ?c)"
    by (simp_all add: example_cache_def empty_cache_def)
  from disk_markers_survive_restart [OF mem_vfs_laws line_codec_laws d(1) f d(2-4), of 99 "''a''"]
  show ?thesis by (simp add: StaleAt_def recover_def invalidationBarrierTime_def)
qed


end
