(* ===== verification/Staged.thy ===== *)
theory Staged
  imports Entry_Record Markers
begin

text \<open>
  Entry files between writing and publication: \<^verbatim>\<open>stagedEntry\<close>, \<^verbatim>\<open>stageWriteContext\<close>, \<^verbatim>\<open>commitStaged\<close> and
  \<^verbatim>\<open>abandonStaged\<close> of \<^verbatim>\<open>src/cache.go\<close>, with the leases of \<^verbatim>\<open>src/staging_budget.go\<close> they hold.

  What a call meets from outside is the record \<open>storeenv\<close>: at which check the context is found
  cancelled, after how many bytes a copy stops (the context was cancelled, the budget refused
  more, or the source broke), how a staging budget answers, whether rewinding fails, and the
  readings of the clock. Nothing is assumed of it.
\<close>

subsection \<open>Staging\<close>

datatype checkpoint = Entered | Locked | AtStage string | AtLease string | HeaderStaged string | Prepared | Publishing

datatype lease_answer = NoBudget | Granted | Refused

record storeenv =
  polled :: "checkpoint \<Rightarrow> bool"
  cut :: "string \<Rightarrow> nat option"
  lease_for :: "string \<Rightarrow> lease_answer"
  seekFails :: "string \<Rightarrow> bool"
  clockAt :: "string \<Rightarrow> time"
  clockTrack :: "string \<Rightarrow> time"
  clockDiscard :: "string \<Rightarrow> time"

definition limited :: "storeenv \<Rightarrow> string \<Rightarrow> string \<Rightarrow> reader" where
  \<comment> \<open>what a copy to \<open>path\<close> delivers through \<^verbatim>\<open>contextReader\<close> or \<^verbatim>\<open>stagingWriter\<close>\<close>
  "limited en path d = (case cut en path of None \<Rightarrow> (d, False) | Some n \<Rightarrow> (take n d, True))"

record stagedEntry =
  tmpPath :: string
  starget :: string
  published :: bool
  leased :: bool

definition abandon_one :: "'fs vfs \<Rightarrow> stagedEntry option \<Rightarrow> 'fs \<Rightarrow> stagedEntry option \<times> 'fs" where
  "abandon_one v e s =
     (case e of None \<Rightarrow> (None, s)
      | Some e \<Rightarrow>
        if tmpPath e = [] then (Some e, s)
        else let (err, s) = vRemove v (tmpPath e) s
             in if real_error err then (Some e, s) else (Some (e\<lparr>tmpPath := [], leased := False\<rparr>), s))"

fun abandonStaged :: "'fs vfs \<Rightarrow> stagedEntry option list \<Rightarrow> 'fs \<Rightarrow> stagedEntry option list \<times> 'fs" where
  "abandonStaged v [] s = ([], s)"
| "abandonStaged v (e # es) s =
     (let (e, s) = abandon_one v e s; (es, s) = abandonStaged v es s in (e # es, s))"

definition stagingDir :: string where
  "stagingDir = stagingPrefix @ formatPrefix"

definition stageWriteContext ::
  "'fs vfs \<Rightarrow> storeenv \<Rightarrow> bool \<Rightarrow> string \<Rightarrow> string \<Rightarrow> 'fs \<Rightarrow> (stagedEntry option \<times> int \<times> bool) \<times> 'fs" where
  \<comment> \<open>the staged entry, the bytes written, and whether it failed\<close>
  "stageWriteContext v en disk path d s =
     (if polled en (AtStage path) then ((None, 0, True), s)
      else let (ok, s) = vMkdirAll v (Dir path) s in
      if \<not> ok then ((None, 0, True), s)
      else if \<not> disk then
        let ((n, pub, err), s) = vfsWrite v path (limited en path d) s
        in ((Some \<lparr>tmpPath = [], starget = [], published = pub, leased = False\<rparr>, n, err), s)
      else let (ok, s) = vMkdirAll v stagingDir s in
      if \<not> ok then ((None, 0, True), s)
      else if polled en (AtLease path) \<or> lease_for en path = Refused then ((None, 0, True), s)
      else case osCreateTemp v stagingDir s of
        (None, s) \<Rightarrow> ((None, 0, True), s)
      | (Some tmp, s) \<Rightarrow>
          let e = \<lparr>tmpPath = tmp, starget = path, published = False, leased = (lease_for en path = Granted)\<rparr>;
              (ok, n, s) = vCopy v tmp (fst (limited en path d)) s;
              (closed, s) = vClose v tmp s
          in if \<not> ok \<or> snd (limited en path d) \<or> \<not> closed
             then let (e', s) = abandon_one v (Some e) s in ((e', n, True), s)
             else ((Some e, n, False), s))"

fun commitStagedLocked :: "'fs vfs \<Rightarrow> stagedEntry option list \<Rightarrow> 'fs \<Rightarrow> bool \<times> stagedEntry option list \<times> 'fs" where
  "commitStagedLocked v [] s = (False, [], s)"
| "commitStagedLocked v (None # es) s =
     (let (err, es, s) = commitStagedLocked v es s in (err, None # es, s))"
| "commitStagedLocked v (Some e # es) s =
     (if tmpPath e = [] then let (err, es, s) = commitStagedLocked v es s in (err, Some e # es, s)
      else let (ok, s) = osRename v (tmpPath e) (starget e) s in
      if \<not> ok then (True, Some e # es, s)
      else let (err, es, s) = commitStagedLocked v es s
           in (err, Some (e\<lparr>tmpPath := [], published := True, leased := False\<rparr>) # es, s))"

definition anyPublished :: "stagedEntry option list \<Rightarrow> bool" where
  "anyPublished es \<longleftrightarrow> list_ex (\<lambda>e. case e of None \<Rightarrow> False | Some e \<Rightarrow> published e) es"

definition sweepStaging :: "'fs vfs \<Rightarrow> 'fs cache \<Rightarrow> 'fs cache" where
  "sweepStaging v c =
     (if \<not> diskRoot c \<or> DisableStagingSweep (cfg c) then c
      else case vReadDir v stagingDir (fs c) of Inl _ \<Rightarrow> c
      | Inr files \<Rightarrow>
          c\<lparr>fs := foldl (\<lambda>s (n, dir). if dir then s else snd (vRemove v (stagingDir @ n) s)) (fs c) files\<rparr>)"

subsection \<open>Paths\<close>

definition entry_path :: "string \<Rightarrow> string \<Rightarrow> bool" where
  "entry_path k q \<longleftrightarrow> q = bodyPath k \<or> q = headerPath k"

lemma entry_path_simps [simp]: "entry_path k (bodyPath j) \<longleftrightarrow> j = k" "entry_path k (headerPath j) \<longleftrightarrow> j = k"
  by (auto simp: entry_path_def bodyPath_def headerPath_def bodyPrefix_def headerPrefix_def)

lemma body_header_path [simp]: "bodyPath k \<noteq> headerPath j" "headerPath j \<noteq> bodyPath k"
  by (simp_all add: bodyPath_def headerPath_def bodyPrefix_def headerPrefix_def)

lemma entry_path_inj [simp]: "bodyPath k = bodyPath j \<longleftrightarrow> k = j" "headerPath k = headerPath j \<longleftrightarrow> k = j"
  by (simp_all add: bodyPath_def headerPath_def)

lemma staging_outside: "prefix stagingDir q \<Longrightarrow> \<not> entry_path k q"
  by (auto simp: entry_path_def stagingDir_def stagingPrefix_def bodyPath_def headerPath_def bodyPrefix_def headerPrefix_def)

lemma staging_paths [simp]: "\<not> prefix stagingDir (bodyPath k)" "\<not> prefix stagingDir (headerPath k)"
  using staging_outside by (metis entry_path_simps)+

lemma staging_not_empty: "prefix stagingDir q \<Longrightarrow> q \<noteq> []"
  by (auto simp: stagingDir_def stagingPrefix_def)

subsection \<open>What staging, committing and abandoning do to the files\<close>

text \<open>
  \<open>staged_as v disk target d e s\<close>: the staged entry \<open>e\<close> carries the contents \<open>d\<close> for \<open>target\<close>. On a disk
  cache they wait in a staging file, otherwise they are in place already.
\<close>

definition staged_as :: "'fs vfs \<Rightarrow> bool \<Rightarrow> string \<Rightarrow> string \<Rightarrow> stagedEntry option \<Rightarrow> 'fs \<Rightarrow> bool" where
  "staged_as v disk target d e s \<longleftrightarrow> (case e of None \<Rightarrow> False | Some e \<Rightarrow>
     if disk then starget e = target \<and> \<not> published e \<and> prefix stagingDir (tmpPath e) \<and> vRead v (tmpPath e) s = Inr d
     else tmpPath e = [] \<and> published e \<and> vRead v target s = Inr d)"

definition unpublished :: "stagedEntry option \<Rightarrow> bool" where
  "unpublished e \<longleftrightarrow> (case e of None \<Rightarrow> True | Some e \<Rightarrow> \<not> published e)"

definition in_staging :: "stagedEntry option \<Rightarrow> bool" where
  "in_staging e \<longleftrightarrow> (case e of None \<Rightarrow> True | Some e \<Rightarrow> tmpPath e = [] \<or> prefix stagingDir (tmpPath e))"

lemma triple_pairE: obtains a b c d where "x = ((a, b, c), d)"
  by (metis prod.exhaust)

lemma abandon_one_files:
  assumes "vfs_laws v" "abandon_one v e s = (e', s')" "in_staging e"
  shows "\<not> prefix stagingDir q \<Longrightarrow> vRead v q s' = vRead v q s" "unpublished e' = unpublished e" "in_staging e'"
    and "vRead v q s \<noteq> Inl NotExist \<Longrightarrow> (\<forall>x. e = Some x \<longrightarrow> tmpPath x \<noteq> q) \<Longrightarrow> vRead v q s' = vRead v q s"
  using assms vfs_frame(6) [OF assms(1)]
  by (auto simp: abandon_one_def unpublished_def in_staging_def Let_def split: option.splits if_splits prod.splits)
     (metis snd_conv)+

lemma abandon_files:
  assumes "vfs_laws v" "list_all in_staging es" "\<not> prefix stagingDir q"
  shows "vRead v q (snd (abandonStaged v es s)) = vRead v q s"
  using assms(2)
proof (induction es arbitrary: s)
  case (Cons e es)
  obtain e' s' where a: "abandon_one v e s = (e', s')" by (rule prod.exhaust)
  have "vRead v q s' = vRead v q s" using abandon_one_files(1) [OF assms(1) a] Cons.prems assms(3) by simp
  with Cons a show ?case by (simp split: prod.split) (metis snd_conv)
qed simp

lemma stage_in_place:
  assumes "vfs_laws v" "stageWriteContext v en False p d s = ((e, n, err), s')"
  shows "q \<noteq> p \<Longrightarrow> vRead v q s' = vRead v q s"
    and "\<not> err \<Longrightarrow> staged_as v False p d e s' \<and> n = int (length d)"
    and "unpublished e \<Longrightarrow> vRead v p s' = vRead v p s" and "in_staging e"
proof -
  obtain ok s1 where 1: "vMkdirAll v (Dir p) s = (ok, s1)" by (rule prod.exhaust)
  obtain n2 pub err2 s2 where 2: "vfsWrite v p (limited en p d) s1 = ((n2, pub, err2), s2)" by (rule triple_pairE)
  note w = vfsWrite_read [OF assms(1) 2]
  have m: "vRead v q s1 = vRead v q s" for q using vfs_frame(1) [OF assms(1), of q "Dir p" s] 1 by simp
  have eq: "((e, n, err), s') = (if polled en (AtStage p) then ((None, 0, True), s) else if \<not> ok then ((None, 0, True), s1)
      else ((Some \<lparr>tmpPath = [], starget = [], published = pub, leased = False\<rparr>, n2, err2), s2))"
    using assms(2) 1 2 by (cases ok; simp add: stageWriteContext_def split: if_splits)
  show "q \<noteq> p \<Longrightarrow> vRead v q s' = vRead v q s" using eq w(1) m by (auto split: if_splits)
  show "unpublished e \<Longrightarrow> vRead v p s' = vRead v p s" using eq w(3) m by (auto simp: unpublished_def split: if_splits)
  show "in_staging e" using eq by (auto simp: in_staging_def split: if_splits)
  show "\<not> err \<Longrightarrow> staged_as v False p d e s' \<and> n = int (length d)"
    using eq w(2) by (auto simp: staged_as_def limited_def split: if_splits option.splits)
qed

lemma stage_on_disk:
  assumes "vfs_laws v" "stageWriteContext v en True p d s = ((e, n, err), s')"
  shows "(\<forall>q. \<not> prefix stagingDir q \<or> vRead v q s \<noteq> Inl NotExist \<longrightarrow> vRead v q s' = vRead v q s)
    \<and> (\<not> err \<longrightarrow> staged_as v True p d e s' \<and> n = int (length d) \<and> vRead v (tmpPath (the e)) s = Inl NotExist)
    \<and> unpublished e \<and> in_staging e"
proof -
  obtain ok1 s1 where 1: "vMkdirAll v (Dir p) s = (ok1, s1)" by (rule prod.exhaust)
  obtain ok2 s2 where 2: "vMkdirAll v stagingDir s1 = (ok2, s2)" by (rule prod.exhaust)
  obtain t s3 where 3: "osCreateTemp v stagingDir s2 = (t, s3)" by (rule prod.exhaust)
  have m: "vRead v q s2 = vRead v q s" "vRead v q s1 = vRead v q s" for q
    using vfs_frame(1) [OF assms(1), of q "Dir p" s] vfs_frame(1) [OF assms(1), of q stagingDir s1] 1 2 by simp_all
  let ?refused = "polled en (AtLease p) \<or> lease_for en p = Refused"
  have c3: "t \<noteq> Some q \<Longrightarrow> vRead v q s3 = vRead v q s" for q
    using vfs_frame(8) [OF assms(1), of stagingDir s2 q] 3 m by simp
  consider (early) s0 where "((e, n, err), s') = ((None, 0, True), s0)" "s0 = s \<or> s0 = s1 \<or> s0 = s2 \<or> (s0 = s3 \<and> t = None)"
    | (made) tmp where "t = Some tmp" "\<not> polled en (AtStage p)" "ok1" "ok2" "\<not> ?refused"
    using assms(2) 1 2 3
    by (cases ok1; cases ok2; cases t; cases "polled en (AtStage p)"; cases ?refused) (auto simp: stageWriteContext_def)
  then show ?thesis
  proof cases
    case early
    then show ?thesis using m c3 by (auto simp: unpublished_def in_staging_def)
  next
    case made
    let ?l = "limited en p d"
    let ?e = "\<lparr>tmpPath = tmp, starget = p, published = False, leased = (lease_for en p = Granted)\<rparr>"
    obtain ok4 n4 s4 where 4: "vCopy v tmp (fst ?l) s3 = (ok4, n4, s4)" by (metis prod_cases3)
    obtain ok5 s5 where 5: "vClose v tmp s4 = (ok5, s5)" by (rule prod.exhaust)
    obtain e6 s6 where 6: "abandon_one v (Some ?e) s5 = (e6, s6)" by (rule prod.exhaust)
    have eq: "((e, n, err), s') = (if \<not> ok4 \<or> snd ?l \<or> \<not> ok5 then ((e6, n4, True), s6) else ((Some ?e, n4, False), s5))"
      using assms(2) made 1 2 3 4 5 6 by (cases ok4; cases ok5; cases "snd ?l"; simp add: stageWriteContext_def)
    have tmp: "prefix stagingDir tmp" "vRead v tmp s = Inl NotExist"
      using vfs_temp(2,3) [OF assms(1) 3 [unfolded made(1)]] m by simp_all
    have s5: "q \<noteq> tmp \<Longrightarrow> vRead v q s5 = vRead v q s" for q
      using c3 [of q] made(1) vfs_frame(3) [OF assms(1), of q tmp "fst ?l" s3] vfs_frame(4) [OF assms(1), of q tmp s4] 4 5 by simp
    have in6: "in_staging (Some ?e)" using tmp by (simp add: in_staging_def)
    have s6: "q \<noteq> tmp \<Longrightarrow> vRead v q s6 = vRead v q s5" for q
      using 6 vfs_frame(6) [OF assms(1), of q tmp s5] staging_not_empty [OF tmp(1)]
      by (auto simp: abandon_one_def split: prod.splits if_splits)
    have out: "q \<noteq> tmp" if "\<not> prefix stagingDir q \<or> vRead v q s \<noteq> Inl NotExist" for q
      using that tmp by auto
    have files: "\<forall>q. \<not> prefix stagingDir q \<or> vRead v q s \<noteq> Inl NotExist \<longrightarrow> vRead v q s' = vRead v q s"
      using eq s5 s6 out by (auto split: if_splits)
    have "ok4 \<Longrightarrow> ok5 \<Longrightarrow> vRead v tmp s5 = Inr (fst ?l) \<and> n4 = int (length (fst ?l))"
      using vfs_temp(4) [OF assms(1) 3 [unfolded made(1)], of "fst ?l" n4 s4 s5] 4 5 by simp
    then have "\<not> err \<longrightarrow> staged_as v True p d e s' \<and> n = int (length d) \<and> vRead v (tmpPath (the e)) s = Inl NotExist"
      using eq tmp by (auto simp: staged_as_def limited_def split: if_splits option.splits)
    moreover have "unpublished e" "in_staging e"
      using eq abandon_one_files(2,3) [OF assms(1) 6 in6] in6 by (auto simp: unpublished_def split: if_splits)
    ultimately show ?thesis using files by blast
  qed
qed

lemma commit_in_place: "list_all (\<lambda>e. \<exists>x. e = Some x \<and> tmpPath x = []) es \<Longrightarrow> commitStagedLocked v es s = (False, es, s)"
  by (induction es) auto

text \<open>The contents \<open>d\<close> of every target \<open>t\<close> are waiting in a staging file of their own.\<close>

definition all_staged :: "'fs vfs \<Rightarrow> stagedEntry option list \<Rightarrow> (string \<times> string) list \<Rightarrow> 'fs \<Rightarrow> bool" where
  "all_staged v es tds s \<longleftrightarrow> list_all2 (\<lambda>e (t, d). staged_as v True t d e s) es tds
     \<and> distinct (map (tmpPath \<circ> the) es) \<and> distinct (map fst tds) \<and> list_all (\<lambda>(t, d). \<not> prefix stagingDir t) tds"

lemma staged_as_frame:
  "staged_as v True t d e s \<Longrightarrow> vRead v (tmpPath (the e)) s' = vRead v (tmpPath (the e)) s \<Longrightarrow> staged_as v True t d e s'"
  by (auto simp: staged_as_def split: option.splits)

lemma all_staged_temp:
  assumes "all_staged v es tds s" "e \<in> set es"
  obtains x where "e = Some x" "prefix stagingDir (tmpPath x)"
proof -
  obtain i where "i < length es" "e = es ! i" using assms(2) by (auto simp: in_set_conv_nth)
  then have "case tds ! i of (t, d) \<Rightarrow> staged_as v True t d e s"
    using assms(1) unfolding all_staged_def by (auto dest: list_all2_nthD)
  then show ?thesis using that by (auto simp: staged_as_def split: option.splits prod.splits)
qed

lemma all_staged_in_staging: "all_staged v es tds s \<Longrightarrow> list_all in_staging es"
  by (auto simp: list_all_iff in_staging_def elim: all_staged_temp)

lemma all_staged_mono:
  assumes "all_staged v es tds s" "\<And>e. e \<in> set es \<Longrightarrow> vRead v (tmpPath (the e)) s' = vRead v (tmpPath (the e)) s"
  shows "all_staged v es tds s'"
proof -
  have l: "list_all2 (\<lambda>e (t, d). staged_as v True t d e s) es tds" using assms(1) by (simp add: all_staged_def)
  have "list_all2 (\<lambda>e (t, d). staged_as v True t d e s') es tds"
  proof (rule list_all2_all_nthI)
    show "length es = length tds" using l by (rule list_all2_lengthD)
    fix i assume i: "i < length es"
    show "case tds ! i of (t, d) \<Rightarrow> staged_as v True t d (es ! i) s'"
      using list_all2_nthD [OF l i] assms(2) [of "es ! i"] i by (cases "tds ! i") (simp add: staged_as_frame)
  qed
  with assms(1) show ?thesis by (simp add: all_staged_def)
qed

lemma commit_on_disk:
  assumes "vfs_laws v" "all_staged v es tds s" "commitStagedLocked v es s = (err, es', s')"
  shows "(\<not> err \<longrightarrow> (\<forall>(t, d) \<in> set tds. vRead v t s' = Inr d))
    \<and> (\<forall>q. q \<notin> fst ` set tds \<and> \<not> prefix stagingDir q \<longrightarrow> vRead v q s' = vRead v q s)
    \<and> (err \<and> \<not> anyPublished es' \<longrightarrow> (\<forall>q. \<not> prefix stagingDir q \<longrightarrow> vRead v q s' = vRead v q s))
    \<and> list_all in_staging es' \<and> length es' = length es"
  using assms(2,3)
proof (induction es arbitrary: tds s err es')
  case Nil
  then show ?case by (simp add: all_staged_def)
next
  case (Cons e es)
  then obtain t d tds' where tds: "tds = (t, d) # tds'" by (auto simp: all_staged_def list_all2_Cons1)
  have e: "staged_as v True t d e s" and rest: "all_staged v es tds' s" and t: "\<not> prefix stagingDir t" "t \<notin> fst ` set tds'"
    and fresh: "tmpPath (the e) \<notin> tmpPath ` the ` set es"
    using Cons.prems(1) by (simp_all add: tds all_staged_def image_comp)
  from e obtain x where x: "e = Some x" "starget x = t" "\<not> published x" "prefix stagingDir (tmpPath x)"
      "vRead v (tmpPath x) s = Inr d"
    by (cases e) (simp_all add: staged_as_def)
  have ne: "tmpPath x \<noteq> []" using staging_not_empty [OF x(4)] .
  obtain ok s1 where r: "osRename v (tmpPath x) t s = (ok, s1)" by (rule prod.exhaust)
  have s1: "vRead v q s1 = vRead v q s" if "q \<noteq> tmpPath x" "q \<noteq> t" for q
    using vfs_frame(7) [OF assms(1) that, of s] r by simp
  have t1: "vRead v t s1 = (if ok then Inr d else vRead v t s)" using vfs_rename [OF assms(1) r] x(5) by simp
  show ?case
  proof (cases ok)
    case False
    then have "err" "es' = e # es" "s' = s1" using Cons.prems(2) r ne x(1,2) by simp_all
    moreover have "vRead v q s1 = vRead v q s" if "\<not> prefix stagingDir q" for q
      using s1 [of q] t1 False x(4) that by (cases "q = t") auto
    ultimately show ?thesis using all_staged_in_staging [OF Cons.prems(1)] by simp
  next
    case True
    obtain err2 es2 s2 where c: "commitStagedLocked v es s1 = (err2, es2, s2)" by (metis prod_cases3)
    have res: "err = err2" "s' = s2" "es' = Some (x\<lparr>tmpPath := [], published := True, leased := False\<rparr>) # es2"
      using Cons.prems(2) r ne x(1,2) True c by simp_all
    have tmp: "prefix stagingDir (tmpPath (the e'))" if "e' \<in> set es" for e'
      by (rule all_staged_temp [OF rest that]) simp
    have same: "vRead v (tmpPath (the e')) s1 = vRead v (tmpPath (the e')) s" if "e' \<in> set es" for e'
    proof (rule s1)
      show "tmpPath (the e') \<noteq> tmpPath x" using fresh that x(1) by (metis imageI option.sel)
      show "tmpPath (the e') \<noteq> t" using tmp [OF that] t(1) by blast
    qed
    have rest1: "all_staged v es tds' s1" using rest same by (rule all_staged_mono)
    note IH = Cons.IH [OF rest1 c [folded res(2)]]
    have "\<not> err2 \<Longrightarrow> vRead v t s' = Inr d" using IH t1 True t by simp
    moreover have "vRead v q s' = vRead v q s" if "q \<notin> fst ` set tds" "\<not> prefix stagingDir q" for q
      using IH s1 [of q] that x(4) by (auto simp: tds)
    moreover have "in_staging (Some (x\<lparr>tmpPath := [], published := True, leased := False\<rparr>))" by (simp add: in_staging_def)
    moreover have "anyPublished es'" by (simp add: res anyPublished_def)
    ultimately show ?thesis using IH unfolding res(1,3) tds by simp
  qed
qed

end
