(* ===== verification/Store.thy ===== *)
theory Store
  imports Staged
begin

text \<open>
  Storing a response (\<^verbatim>\<open>StoreContext\<close> of \<^verbatim>\<open>src/cache.go\<close> and the operations it is made of): target
  keys are deduplicated by their hashes, every target's old entry is protected by a reservation,
  body and header of every target are staged and admitted, all are published together, and a
  failure drops the staged files and, if something was already published, every target.

  The call holds \<^verbatim>\<open>generationMu\<close> for reading and the writer lock of every target throughout, so
  no other store, freshening or final invalidation of these keys runs during it.
\<close>

subsection \<open>Operations\<close>

datatype cache_error =
    NotFoundInCache
  | CorruptEntry corruptEntryError
  | HeaderError stored_error
  | Admission admission_error
  | Cancelled
  | StageFailed
  | SeekFailed
  | ShortBody
  | PublishFailed
  | OpenFailed
  | SupersededValidation
  | ReplacedEntry
  | SizeFailed

record preparedCacheEntry =
  pkey :: string
  phashedKey :: string
  pstoredAt :: time
  pbody :: "stagedEntry option"
  pheader :: "stagedEntry option"
  psize :: int

fun uniqueKeys :: "string list \<Rightarrow> string list \<Rightarrow> string list" where
  "uniqueKeys seen [] = []"
| "uniqueKeys seen (key # keys) =
     (let hashed = hashKey key
      in if hashed \<in> set seen then uniqueKeys seen keys else key # uniqueKeys (hashed # seen) keys)"

definition lockStoreKeys :: "string list \<Rightarrow> string list \<times> string list" where
  \<comment> \<open>the targets in the caller's order, and the order in which their locks are taken\<close>
  "lockStoreKeys keys = (let unique = uniqueKeys [] keys in (unique, sort (map hashKey unique)))"

definition responseSuperseded :: "goenv \<Rightarrow> resource \<Rightarrow> string list \<Rightarrow> 'fs cache \<Rightarrow> bool" where
  "responseSuperseded e res keys c \<longleftrightarrow>
     list_ex (\<lambda>key. case StaleAt c key of None \<Rightarrow> False | Some staleTime \<Rightarrow> \<not> ReceivedAfter e res staleTime) keys"

definition expectedBodySize :: "header \<Rightarrow> int option" where
  "expectedBodySize h = (case ParseInt (Get h ''Content-Length'') of None \<Rightarrow> None
     | Some n \<Rightarrow> if n < 0 then None else Some n)"

definition zero_digest :: string where
  "zero_digest = replicate 64 CHR ''0''"

definition reserve_if :: "'fs vfs \<Rightarrow> string \<Rightarrow> int option \<Rightarrow> 'fs cache \<Rightarrow> admission_error option \<times> 'fs cache" where
  \<comment> \<open>admission before the write, when the size is known; the sum is an \<^verbatim>\<open>int64\<close>\<close>
  "reserve_if v k size_known c = (case size_known of None \<Rightarrow> (None, c) | Some n \<Rightarrow> reserveEntry v k (wrap64 n) c)"

definition prepareResourceForKey ::
  "'fs vfs \<Rightarrow> recenv \<Rightarrow> storeenv \<Rightarrow> resource \<Rightarrow> preparedCacheEntry \<Rightarrow> int option \<Rightarrow> 'fs cache
    \<Rightarrow> cache_error option \<times> preparedCacheEntry \<times> 'fs cache" where
  "prepareResourceForKey v x en res entry expected c =
     (let key = pkey entry; k = phashedKey entry; at = pstoredAt entry;
          serialize = serializeCacheHeader x (Integrity (cfg c)) (statusCode res) (rheader res) at key in
      if seekFails en key then (Some SeekFailed, entry, c)
      else
        let headerData = serialize (case expected of None \<Rightarrow> 0 | Some n \<Rightarrow> n) zero_digest;
            (refused, c) = reserve_if v k (map_option (\<lambda>n. n + int (length headerData)) expected) c in
        case refused of Some err \<Rightarrow> (Some (Admission err), entry, c)
        | None \<Rightarrow>
          let body = (case expected of None \<Rightarrow> rbody res | Some n \<Rightarrow> take (nat n) (rbody res));
              ((staged, written, err), s) = stageWriteContext v en (diskRoot c) (bodyPath k) body (fs c);
              c = c\<lparr>fs := s\<rparr>;
              entry = entry\<lparr>pbody := staged, psize := written + int (length headerData)\<rparr> in
          if err then (Some StageFailed, entry, c)
          else if expected \<noteq> None \<and> expected \<noteq> Some written then (Some ShortBody, entry, c)
          else
            let headerData = serialize written (sha256Text x body);
                (refused, c) = reserveEntry v k (wrap64 (written + int (length headerData))) c in
            case refused of Some err \<Rightarrow> (Some (Admission err), entry, c)
            | None \<Rightarrow>
              let ((staged, headerBytes, err), s) = stageWriteContext v en (diskRoot c) (headerPath k) headerData (fs c);
                  c = c\<lparr>fs := s\<rparr>;
                  entry = entry\<lparr>pheader := staged, psize := written + headerBytes\<rparr>
              in if err then (Some StageFailed, entry, c)
                 else if polled en (HeaderStaged key) then (Some Cancelled, entry, c)
                 else (None, entry, c))"

fun prepare_all ::
  "'fs vfs \<Rightarrow> recenv \<Rightarrow> storeenv \<Rightarrow> resource \<Rightarrow> int option \<Rightarrow> preparedCacheEntry list \<Rightarrow> 'fs cache
    \<Rightarrow> cache_error option \<times> preparedCacheEntry list \<times> 'fs cache" where
  "prepare_all v x en res expected [] c = (None, [], c)"
| "prepare_all v x en res expected (entry # entries) c =
     (let (err, entry, c) = prepareResourceForKey v x en res entry expected c in
      case err of Some err \<Rightarrow> (Some err, entry # entries, c)
      | None \<Rightarrow> let (err, entries, c) = prepare_all v x en res expected entries c in (err, entry # entries, c))"

definition prepareStoreEntries ::
  "'fs vfs \<Rightarrow> recenv \<Rightarrow> storeenv \<Rightarrow> resource \<Rightarrow> preparedCacheEntry list \<Rightarrow> 'fs cache
    \<Rightarrow> cache_error option \<times> preparedCacheEntry list \<times> 'fs cache" where
  "prepareStoreEntries v x en res entries c =
     (let (err, entries, c) = prepare_all v x en res (expectedBodySize (rheader res)) entries c
      in if err \<noteq> None then (err, entries, c)
         else (if polled en Prepared then Some Cancelled else None, entries, c))"

fun staged_files :: "preparedCacheEntry list \<Rightarrow> stagedEntry option list" where
  "staged_files [] = []"
| "staged_files (p # ps) = pbody p # pheader p # staged_files ps"

fun with_files :: "preparedCacheEntry list \<Rightarrow> stagedEntry option list \<Rightarrow> preparedCacheEntry list" where
  \<comment> \<open>the entries share their staged files with the list that is committed\<close>
  "with_files (p # ps) (b # h # es) = p\<lparr>pbody := b, pheader := h\<rparr> # with_files ps es"
| "with_files ps es = ps"

definition mark_residual :: "'fs vfs \<Rightarrow> codec \<Rightarrow> time \<Rightarrow> string \<Rightarrow> 'fs cache \<Rightarrow> 'fs cache" where
  "mark_residual v cd now key c =
     (let c = (if (case StaleAt c key of None \<Rightarrow> 0 | Some t \<Rightarrow> t) < now then c\<lparr>staleMap := AList.update key now (staleMap c)\<rparr> else c)
      in persistStale v cd (snapshotStaleLocked c) c)"

fun discard_entries :: "'fs vfs \<Rightarrow> codec \<Rightarrow> storeenv \<Rightarrow> preparedCacheEntry list \<Rightarrow> 'fs cache \<Rightarrow> 'fs cache" where
  "discard_entries v cd en [] c = c"
| "discard_entries v cd en (p # ps) c =
     (let (err, c) = discardUnadmitted v (clockTrack en (pkey p)) (pkey p) (phashedKey p) (psize p) (pstoredAt p) c;
          c = (if err then mark_residual v cd (clockDiscard en (pkey p)) (pkey p) c else c)
      in discard_entries v cd en ps c)"

definition discardPreparedStore ::
  "'fs vfs \<Rightarrow> codec \<Rightarrow> storeenv \<Rightarrow> preparedCacheEntry list \<Rightarrow> 'fs cache \<Rightarrow> 'fs cache" where
  "discardPreparedStore v cd en entries c =
     (let pub = anyPublished (staged_files entries);
          c = c\<lparr>fs := snd (abandonStaged v (staged_files entries) (fs c))\<rparr>
      in if \<not> pub then c else discard_entries v cd en entries c)"

definition prepared_for :: "storeenv \<Rightarrow> string \<Rightarrow> preparedCacheEntry" where
  "prepared_for en key = \<lparr>pkey = key, phashedKey = hashKey key, pstoredAt = clockAt en key, pbody = None, pheader = None, psize = 0\<rparr>"

definition publish_all :: "'fs vfs \<Rightarrow> codec \<Rightarrow> storeenv \<Rightarrow> preparedCacheEntry list \<Rightarrow> 'fs cache \<Rightarrow> cache_error option \<times> 'fs cache" where
  \<comment> \<open>the part of \<^verbatim>\<open>StoreContext\<close> under \<^verbatim>\<open>publishMu\<close>, after every entry was prepared\<close>
  "publish_all v cd en entries c =
     (if polled en Publishing then (Some Cancelled, discardPreparedStore v cd en entries c)
      else let (err, files, s) = commitStagedLocked v (staged_files entries) (fs c); c = c\<lparr>fs := s\<rparr> in
      if err then (Some PublishFailed, discardPreparedStore v cd en (with_files entries files) c)
      else (None, foldl (\<lambda>c p. trackEntry (clockTrack en (pkey p)) (pkey p) (phashedKey p) (psize p) (pstoredAt p) c) c entries))"

definition StoreContext ::
  "'fs vfs \<Rightarrow> recenv \<Rightarrow> codec \<Rightarrow> goenv \<Rightarrow> storeenv \<Rightarrow> resource \<Rightarrow> string list \<Rightarrow> 'fs cache \<Rightarrow> cache_error option \<times> 'fs cache" where
  "StoreContext v x cd e en res keys c =
     (if polled en Entered then (Some Cancelled, c)
      else if keys = [] then (None, c)
      else let unique = fst (lockStoreKeys keys) in
      if polled en Locked then (Some Cancelled, c)
      else if responseSuperseded e res unique c then (None, c)
      else
        let entries = map (prepared_for en) unique;
            c = foldl (\<lambda>c p. beginReservation (phashedKey p) c) c entries;
            (err, entries, c) = prepareStoreEntries v x en res entries c;
            (result, c) = (case err of Some err \<Rightarrow> (Some err, discardPreparedStore v cd en entries c)
                           | None \<Rightarrow> publish_all v cd en entries c)
        in (result, foldl (\<lambda>c p. releaseReservation (phashedKey p) c) c (rev entries)))"

subsection \<open>Files an admission leaves alone\<close>

text \<open>A path is guarded if it belongs to no entry, or to one with an active reservation.\<close>

definition guarded :: "'fs cache \<Rightarrow> string \<Rightarrow> bool" where
  "guarded c q \<longleftrightarrow> (\<forall>j. entry_path j q \<longrightarrow> active c j)"

lemma remove_files_frame: "vfs_laws v \<Longrightarrow> \<not> entry_path k q \<Longrightarrow> vRead v q (snd (remove_files v k s)) = vRead v q s"
  using vfs_frame(6) [of v q]
  by (simp add: remove_files_def entry_path_def split: prod.split) (metis snd_conv)

lemma remove_files_gone:
  assumes "vfs_laws v" "remove_files v k s = (False, s')"
  shows "vRead v (bodyPath k) s' = Inl NotExist \<and> vRead v (headerPath k) s' = Inl NotExist"
proof -
  obtain e1 s1 where 1: "vRemove v (bodyPath k) s = (e1, s1)" by (rule prod.exhaust)
  obtain e2 s2 where 2: "vRemove v (headerPath k) s1 = (e2, s2)" by (rule prod.exhaust)
  have r: "\<not> real_error e1" "\<not> real_error e2" "s' = s2" using assms(2) 1 2 by (auto simp: remove_files_def)
  show ?thesis
    using vfs_removed [OF assms(1) 1] vfs_removed [OF assms(1) 2] r vfs_frame(6) [OF assms(1), of "bodyPath k" "headerPath k" s1] 2
    by simp
qed

lemma removeEntry_files:
  assumes "vfs_laws v" "removeEntry v e c = (err, c')"
  shows "\<not> entry_path (ehashedKey e) q \<Longrightarrow> vRead v q (fs c') = vRead v q (fs c)"
    and "\<not> err \<Longrightarrow> vRead v (bodyPath (ehashedKey e)) (fs c') = Inl NotExist \<and> vRead v (headerPath (ehashedKey e)) (fs c') = Inl NotExist"
    and "same_but_entries c c'"
proof -
  obtain err1 s1 where r: "remove_files v (ehashedKey e) (fs c) = (err1, s1)" by (rule prod.exhaust)
  have eq: "err = err1" "fs c' = s1" "same_but_entries c c'"
    using assms(2) r by (cases err1; auto simp: removeEntry_def same_but_entries_def Let_def)+
  show "\<not> entry_path (ehashedKey e) q \<Longrightarrow> vRead v q (fs c') = vRead v q (fs c)"
    using remove_files_frame [OF assms(1), of "ehashedKey e" q "fs c"] r eq by simp
  show "\<not> err \<Longrightarrow> vRead v (bodyPath (ehashedKey e)) (fs c') = Inl NotExist \<and> vRead v (headerPath (ehashedKey e)) (fs c') = Inl NotExist"
    using remove_files_gone [OF assms(1), of "ehashedKey e" "fs c" s1] r eq by simp
  show "same_but_entries c c'" by (rule eq)
qed

lemma sweep_files:
  assumes "vfs_laws v" "sweep v go pick ks c = (gone, left, c')"
    and "\<And>c0 e. same_but_entries c c0 \<Longrightarrow> pick c0 e = Take \<Longrightarrow> \<not> entry_path (ehashedKey e) q"
  shows "vRead v q (fs c') = vRead v q (fs c)"
  using assms(2,3)
proof (induction ks arbitrary: c gone left)
  case (Cons k ks)
  show ?case
  proof (cases "go c \<and> map_of (lruIndex c) k \<noteq> None")
    case False
    then show ?thesis using Cons by (auto split: if_splits)
  next
    case True
    then obtain e where e: "map_of (lruIndex c) k = Some e" "go c" by auto
    show ?thesis
    proof (cases "pick c e")
      case Take
      obtain err c1 where r: "removeEntry v e c = (err, c1)" by (rule prod.exhaust)
      note f = removeEntry_files [OF assms(1) r]
      obtain gone1 left1 where "sweep v go pick ks c1 = (gone1, left1, c')"
        using Cons.prems(1) e Take r by (auto split: prod.splits)
      from Cons.IH [OF this] Cons.prems(2) f(3) have "vRead v q (fs c') = vRead v q (fs c1)"
        by (meson same_but_entries_trans)
      also have "\<dots> = vRead v q (fs c)" using f(1) Cons.prems(2) [OF same_but_entries_refl Take] by blast
      finally show ?thesis .
    qed (use Cons e in \<open>auto split: prod.splits\<close>)
  qed
qed simp

lemma same_active: "same_but_entries c c' \<Longrightarrow> active c' = active c"
  by (auto simp: same_but_entries_def active_def)

lemma reserve_files:
  assumes "vfs_laws v" "reserveEntry v k n c = (err, c')" "guarded c q \<or> entry_path k q"
  shows "vRead v q (fs c') = vRead v q (fs c)"
proof -
  obtain err1 c1 where ev: "evictForAdmissionLocked v k n c = (err1, c1)" by (rule prod.exhaust)
  have fs: "fs c' = fs c1" using assms(2) ev by (auto simp: reserveEntry_def Let_def split: option.splits)
  let ?pick = "\<lambda>c entry. if ehashedKey entry = k \<or> active c (ehashedKey entry) then Pass else Take"
  have not: "\<not> entry_path (ehashedKey e) q" if "same_but_entries c c0" "?pick c0 e = Take" for c0 e
  proof
    assume "entry_path (ehashedKey e) q"
    moreover have "\<not> active c (ehashedKey e)" "ehashedKey e \<noteq> k"
      using that same_active [of c c0] by (auto split: if_splits)
    ultimately show False using assms(3) by (auto simp: guarded_def entry_path_def)
  qed
  have "vRead v q (fs c1) = vRead v q (fs c)"
  proof (cases "n < 0 \<or> MaxSize (cfg c) \<le> 0 \<or> n > MaxSize (cfg c)")
    case True
    then show ?thesis using ev by (auto simp: evictForAdmissionLocked_def split: if_splits)
  next
    case False
    obtain go gone failed where sw: "sweep v go ?pick (rev (lruList c)) c = (gone, failed, c1)"
      using ev False by (simp add: evictForAdmissionLocked_def Let_def split: prod.splits if_splits)
    show ?thesis by (rule sweep_files [OF assms(1) sw not])
  qed
  then show ?thesis using fs by simp
qed

lemma reserve_active:
  assumes "ledger_ok c" "reserveEntry v k n c = (err, c')" "active c k"
  shows "active c' = active c"
proof
  fix j
  show "active c' j = active c j"
    using reserve_ok(8-10) [OF assms(1,2)] assms(3) by (cases "j = k"; cases err) (auto simp: active_def)
qed

subsection \<open>Preparing one target\<close>

definition stored_body :: "resource \<Rightarrow> string" where
  "stored_body res = (case expectedBodySize (rheader res) of None \<Rightarrow> rbody res | Some n \<Rightarrow> take (nat n) (rbody res))"

definition stored_record :: "recenv \<Rightarrow> IntegrityMode \<Rightarrow> resource \<Rightarrow> string \<Rightarrow> time \<Rightarrow> string" where
  "stored_record x mode res key at = serializeCacheHeader x mode (statusCode res) (rheader res) at key
     (int (length (stored_body res))) (sha256Text x (stored_body res))"

text \<open>
  From \<open>c\<close> to \<open>c'\<close> only files of the entries \<open>ks\<close>, of evicted entries and new staging files changed.
\<close>

definition prep_frame :: "'fs vfs \<Rightarrow> string set \<Rightarrow> 'fs cache \<Rightarrow> 'fs cache \<Rightarrow> bool" where
  "prep_frame v ks c c' \<longleftrightarrow> ledger_ok c' \<and> cfg c' = cfg c \<and> diskRoot c' = diskRoot c \<and> staleMap c' = staleMap c \<and> active c' = active c
     \<and> (\<forall>q. guarded c q \<and> (\<forall>k \<in> ks. \<not> entry_path k q) \<and> (prefix stagingDir q \<longrightarrow> vRead v q (fs c) \<noteq> Inl NotExist)
          \<longrightarrow> vRead v q (fs c') = vRead v q (fs c))"

definition untouched :: "'fs vfs \<Rightarrow> string \<Rightarrow> 'fs cache \<Rightarrow> 'fs cache \<Rightarrow> bool" where
  "untouched v k c c' \<longleftrightarrow> (\<forall>q. entry_path k q \<longrightarrow> vRead v q (fs c') = vRead v q (fs c))"

lemma prep_frame_refl: "ledger_ok c \<Longrightarrow> prep_frame v ks c c"
  by (simp add: prep_frame_def)

lemma prep_frame_trans:
  assumes "prep_frame v ks c c1" "prep_frame v ks' c1 c2" "ks \<subseteq> ls" "ks' \<subseteq> ls"
  shows "prep_frame v ls c c2"
proof -
  have g: "guarded c1 q = guarded c q" for q using assms(1) by (simp add: prep_frame_def guarded_def)
  show ?thesis
    using assms g unfolding prep_frame_def by (metis subsetD)
qed

lemma prep_frame_mono: "prep_frame v ks c c' \<Longrightarrow> ks \<subseteq> ls \<Longrightarrow> prep_frame v ls c c'"
  unfolding prep_frame_def by blast

lemma entry_path_unique: "entry_path k q \<Longrightarrow> entry_path j q \<Longrightarrow> j = k"
  by (auto simp: entry_path_def)

lemma prep_frame_untouched: "prep_frame v ks c c' \<Longrightarrow> active c k \<Longrightarrow> k \<notin> ks \<Longrightarrow> untouched v k c c'"
  unfolding prep_frame_def untouched_def guarded_def using entry_path_unique staging_outside by metis

lemma untouched_trans: "untouched v k c c1 \<Longrightarrow> untouched v k c1 c2 \<Longrightarrow> untouched v k c c2"
  by (simp add: untouched_def)

lemma reserve_prep:
  assumes "vfs_laws v" "ledger_ok c" "active c k" "reserveEntry v k n c = (err, c')"
  shows "prep_frame v {} c c'" "untouched v k c c'"
  using reserve_files [OF assms(1,4)] reserve_ok(1,2,4,6) [OF assms(2,4)] reserve_active [OF assms(2,4,3)]
  by (auto simp: prep_frame_def untouched_def)

lemma reserve_if_prep:
  assumes "vfs_laws v" "ledger_ok c" "active c k" "reserve_if v k n c = (err, c')"
  shows "prep_frame v {} c c'" "untouched v k c c'"
  using assms reserve_prep [OF assms(1-3)]
  by (auto simp: reserve_if_def prep_frame_refl untouched_def split: option.splits)

lemma guarded_fs [simp]: "guarded (c\<lparr>fs := s\<rparr>) = guarded c" "active (c\<lparr>fs := s\<rparr>) = active c"
  by (auto simp: guarded_def active_def)

lemma stage_prep:
  assumes "vfs_laws v" "ledger_ok c" "stageWriteContext v en (diskRoot c) p d (fs c) = ((e, n, err), s)" "entry_path k p"
  shows "prep_frame v {k} c (c\<lparr>fs := s\<rparr>)" "in_staging e"
    and "unpublished e \<Longrightarrow> untouched v k c (c\<lparr>fs := s\<rparr>)" "diskRoot c \<Longrightarrow> unpublished e"
    and "\<not> err \<Longrightarrow> staged_as v (diskRoot c) p d e s \<and> n = int (length d)
      \<and> (diskRoot c \<longrightarrow> vRead v (tmpPath (the e)) (fs c) = Inl NotExist)"
    and "q \<noteq> p \<Longrightarrow> entry_path k q \<Longrightarrow> vRead v q s = vRead v q (fs c)"
proof -
  have out: "\<not> prefix stagingDir q" if "entry_path j q" for q j using that staging_outside by blast
  have l: "ledger_ok (c\<lparr>fs := s\<rparr>)" by (rule ledger_ok_frame [OF assms(2)]) simp_all
  consider "diskRoot c" | "\<not> diskRoot c" by blast
  then have "prep_frame v {k} c (c\<lparr>fs := s\<rparr>) \<and> in_staging e \<and> (unpublished e \<longrightarrow> untouched v k c (c\<lparr>fs := s\<rparr>))
      \<and> (diskRoot c \<longrightarrow> unpublished e)
      \<and> (\<not> err \<longrightarrow> staged_as v (diskRoot c) p d e s \<and> n = int (length d) \<and> (diskRoot c \<longrightarrow> vRead v (tmpPath (the e)) (fs c) = Inl NotExist))
      \<and> (\<forall>q. q \<noteq> p \<and> entry_path k q \<longrightarrow> vRead v q s = vRead v q (fs c))"
  proof cases
    case 1
    then have "stageWriteContext v en True p d (fs c) = ((e, n, err), s)" using assms(3) by simp
    note d = stage_on_disk [OF assms(1) this]
    show ?thesis using d 1 l out by (auto simp: prep_frame_def untouched_def)
  next
    case 2
    then have "stageWriteContext v en False p d (fs c) = ((e, n, err), s)" using assms(3) by simp
    note d = stage_in_place [OF assms(1) this]
    have "untouched v k c (c\<lparr>fs := s\<rparr>)" if "unpublished e"
      using d(1,3) that unfolding untouched_def by (metis cache.select_convs(1) cache.update_convs(1) cache.surjective)
    moreover have "prep_frame v {k} c (c\<lparr>fs := s\<rparr>)"
    proof -
      have "q \<noteq> p" if "\<not> entry_path k q" for q using that assms(4) by blast
      then show ?thesis using d(1) l by (auto simp: prep_frame_def)
    qed
    ultimately show ?thesis using d(1,2,4) 2 by auto
  qed
  then show "prep_frame v {k} c (c\<lparr>fs := s\<rparr>)" "in_staging e"
    and "unpublished e \<Longrightarrow> untouched v k c (c\<lparr>fs := s\<rparr>)" "diskRoot c \<Longrightarrow> unpublished e"
    and "\<not> err \<Longrightarrow> staged_as v (diskRoot c) p d e s \<and> n = int (length d)
      \<and> (diskRoot c \<longrightarrow> vRead v (tmpPath (the e)) (fs c) = Inl NotExist)"
    and "q \<noteq> p \<Longrightarrow> entry_path k q \<Longrightarrow> vRead v q s = vRead v q (fs c)"
    by blast+
qed

lemma staging_guarded: "prefix stagingDir q \<Longrightarrow> guarded c q"
  using staging_outside by (auto simp: guarded_def)

lemma staged_as_prep:
  assumes "staged_as v disk t d e (fs c)" "prep_frame v ks c c'" "vRead v t (fs c') = vRead v t (fs c)"
  shows "staged_as v disk t d e (fs c')"
proof -
  have q: "vRead v q (fs c') = vRead v q (fs c)" if "prefix stagingDir q" "vRead v q (fs c) = Inr d" for q
    using assms(2) that staging_guarded staging_outside unfolding prep_frame_def by (metis Inl_Inr_False)
  show ?thesis using assms(1,3) q by (auto simp: staged_as_def split: option.splits if_splits)
qed

lemma staged_as_temp: "staged_as v True t d e s \<Longrightarrow> prefix stagingDir (tmpPath (the e)) \<and> vRead v (tmpPath (the e)) s = Inr d"
  by (auto simp: staged_as_def split: option.splits)

lemma fresh_before:
  assumes "prep_frame v ks c c1" "vRead v q (fs c1) = Inl NotExist" "prefix stagingDir q"
  shows "vRead v q (fs c) = Inl NotExist"
proof (rule ccontr)
  assume "vRead v q (fs c) \<noteq> Inl NotExist"
  then have "vRead v q (fs c1) = vRead v q (fs c)"
    using assms(1,3) staging_guarded staging_outside unfolding prep_frame_def by metis
  with \<open>vRead v q (fs c) \<noteq> Inl NotExist\<close> assms(2) show False by simp
qed

definition prepared_entry :: "'fs vfs \<Rightarrow> recenv \<Rightarrow> resource \<Rightarrow> 'fs cache \<Rightarrow> preparedCacheEntry \<Rightarrow> 'fs \<Rightarrow> bool" where
  "prepared_entry v x res c p s \<longleftrightarrow>
     staged_as v (diskRoot c) (bodyPath (phashedKey p)) (stored_body res) (pbody p) s
     \<and> staged_as v (diskRoot c) (headerPath (phashedKey p)) (stored_record x (Integrity (cfg c)) res (pkey p) (pstoredAt p)) (pheader p) s
     \<and> psize p = int (length (stored_body res)) + int (length (stored_record x (Integrity (cfg c)) res (pkey p) (pstoredAt p)))
     \<and> (diskRoot c \<longrightarrow> tmpPath (the (pbody p)) \<noteq> tmpPath (the (pheader p)))"

definition same_target :: "preparedCacheEntry \<Rightarrow> preparedCacheEntry \<Rightarrow> bool" where
  "same_target p p' \<longleftrightarrow> pkey p' = pkey p \<and> phashedKey p' = phashedKey p \<and> pstoredAt p' = pstoredAt p"

definition none_published :: "preparedCacheEntry \<Rightarrow> bool" where
  "none_published p \<longleftrightarrow> unpublished (pbody p) \<and> unpublished (pheader p)"

text \<open>The states a preparation passes through, each reached by an admission or a staged write.\<close>

lemma prepare_steps:
  assumes "prepareResourceForKey v x en res p (expectedBodySize (rheader res)) c = (err, p', c')"
  obtains (early) "c' = c" "p' = p" "err \<noteq> None"
  | (refused) a err1 where "reserve_if v (phashedKey p) a c = (err1, c')" "p' = p" "err \<noteq> None"
  | (bodied) a c1 b n err2 s1 where "reserve_if v (phashedKey p) a c = (None, c1)"
      "stageWriteContext v en (diskRoot c1) (bodyPath (phashedKey p)) (stored_body res) (fs c1) = ((b, n, err2), s1)"
      "\<exists>z. p' = p\<lparr>pbody := b, psize := z\<rparr>" "c' = c1\<lparr>fs := s1\<rparr>" "err \<noteq> None"
  | (unadmitted) a c1 b n s1 m err2 where "reserve_if v (phashedKey p) a c = (None, c1)"
      "stageWriteContext v en (diskRoot c1) (bodyPath (phashedKey p)) (stored_body res) (fs c1) = ((b, n, False), s1)"
      "reserveEntry v (phashedKey p) m (c1\<lparr>fs := s1\<rparr>) = (err2, c')"
      "\<exists>z. p' = p\<lparr>pbody := b, psize := z\<rparr>" "err \<noteq> None"
  | (headed) a c1 b n s1 m c2 h n2 err2 s2 where "reserve_if v (phashedKey p) a c = (None, c1)"
      "stageWriteContext v en (diskRoot c1) (bodyPath (phashedKey p)) (stored_body res) (fs c1) = ((b, n, False), s1)"
      "reserveEntry v (phashedKey p) m (c1\<lparr>fs := s1\<rparr>) = (None, c2)"
      "stageWriteContext v en (diskRoot c2) (headerPath (phashedKey p))
         (serializeCacheHeader x (Integrity (cfg c)) (statusCode res) (rheader res) (pstoredAt p) (pkey p) n (sha256Text x (stored_body res)))
         (fs c2) = ((h, n2, err2), s2)"
      "p' = p\<lparr>pbody := b, pheader := h, psize := n + n2\<rparr>" "c' = c2\<lparr>fs := s2\<rparr>" "err = None \<longrightarrow> \<not> err2"
proof -
  let ?ser = "serializeCacheHeader x (Integrity (cfg c)) (statusCode res) (rheader res) (pstoredAt p) (pkey p)"
  let ?k = "phashedKey p" and ?exp = "expectedBodySize (rheader res)"
  define hd0 where "hd0 = ?ser (case ?exp of None \<Rightarrow> 0 | Some n \<Rightarrow> n) zero_digest"
  define a where "a = map_option (\<lambda>n. n + int (length hd0)) ?exp"
  obtain r1 c1 where 1: "reserve_if v ?k a c = (r1, c1)" by (rule prod.exhaust)
  define body where "body = stored_body res"
  obtain b n err2 s1 where 2: "stageWriteContext v en (diskRoot c1) (bodyPath ?k) body (fs c1) = ((b, n, err2), s1)"
    by (rule triple_pairE)
  define m where "m = wrap64 (n + int (length (?ser n (sha256Text x body))))"
  obtain r3 c2 where 3: "reserveEntry v ?k m (c1\<lparr>fs := s1\<rparr>) = (r3, c2)" by (rule prod.exhaust)
  obtain h n2 err4 s2 where 4: "stageWriteContext v en (diskRoot c2) (headerPath ?k) (?ser n (sha256Text x body)) (fs c2) = ((h, n2, err4), s2)"
    by (rule triple_pairE)
  have eq: "(err, p', c') = (if seekFails en (pkey p) then (Some SeekFailed, p, c)
      else case r1 of Some e1 \<Rightarrow> (Some (Admission e1), p, c1) | None \<Rightarrow>
        (let p1 = p\<lparr>pbody := b, psize := n + int (length hd0)\<rparr>; c1 = c1\<lparr>fs := s1\<rparr> in
        if err2 then (Some StageFailed, p1, c1)
        else if ?exp \<noteq> None \<and> ?exp \<noteq> Some n then (Some ShortBody, p1, c1)
        else case r3 of Some e3 \<Rightarrow> (Some (Admission e3), p1, c2) | None \<Rightarrow>
          (let p2 = p1\<lparr>pheader := h, psize := n + n2\<rparr>; c2 = c2\<lparr>fs := s2\<rparr> in
          if err4 then (Some StageFailed, p2, c2)
          else if polled en (HeaderStaged (pkey p)) then (Some Cancelled, p2, c2) else (None, p2, c2))))"
    unfolding assms [symmetric] prepareResourceForKey_def Let_def hd0_def [symmetric] a_def [symmetric] 1 prod.case
      stored_body_def [symmetric] body_def [symmetric] 2 m_def [symmetric] 3 4
    by (cases r1; cases r3; simp)
  show thesis
  proof (cases "seekFails en (pkey p)")
    case True
    with eq early show ?thesis by simp
  next
    case seek: False
    show ?thesis
    proof (cases r1)
      case (Some e1)
      with eq seek 1 show ?thesis using refused by simp
    next
      case r1: None
      show ?thesis
      proof (cases "err2 \<or> (?exp \<noteq> None \<and> ?exp \<noteq> Some n)")
        case True
        then have "\<exists>z. p' = p\<lparr>pbody := b, psize := z\<rparr>" "c' = c1\<lparr>fs := s1\<rparr>" "err \<noteq> None"
          using eq seek r1 by (auto simp: Let_def split: if_splits)
        from bodied [OF 1 [unfolded r1] 2 [unfolded body_def] this] show ?thesis .
      next
        case e2: False
        show ?thesis
        proof (cases r3)
          case (Some e3)
          then have p: "\<exists>z. p' = p\<lparr>pbody := b, psize := z\<rparr>" "c' = c2" "err \<noteq> None"
            using eq seek r1 e2 by (auto simp: Let_def split: if_splits)
          have "\<not> err2" using e2 by blast
          with unadmitted 1 2 3 r1 p show ?thesis by (simp add: body_def)
        next
          case None
          have "p' = p\<lparr>pbody := b, pheader := h, psize := n + n2\<rparr>" "c' = c2\<lparr>fs := s2\<rparr>" "err = None \<longrightarrow> \<not> err4"
            using eq seek r1 e2 None by (simp_all add: Let_def split: if_splits)
          with headed 1 2 3 4 r1 e2 None show ?thesis by (simp add: body_def)
        qed
      qed
    qed
  qed
qed

definition fresh_temps :: "'fs vfs \<Rightarrow> preparedCacheEntry \<Rightarrow> 'fs \<Rightarrow> bool" where
  "fresh_temps v p s \<longleftrightarrow> vRead v (tmpPath (the (pbody p))) s = Inl NotExist \<and> vRead v (tmpPath (the (pheader p))) s = Inl NotExist"

lemma prepare_one:
  assumes v: "vfs_laws v" and c: "ledger_ok c" "active c (phashedKey p)" and p: "pbody p = None" "pheader p = None"
    and r: "prepareResourceForKey v x en res p (expectedBodySize (rheader res)) c = (err, p', c')"
  shows "prep_frame v {phashedKey p} c c' \<and> same_target p p' \<and> in_staging (pbody p') \<and> in_staging (pheader p')
    \<and> (diskRoot c \<longrightarrow> none_published p') \<and> (none_published p' \<longrightarrow> untouched v (phashedKey p) c c')
    \<and> (err = None \<longrightarrow> prepared_entry v x res c p' (fs c') \<and> (diskRoot c \<longrightarrow> fresh_temps v p' (fs c)))"
  (is "?frame \<and> _")
proof -
  let ?k = "phashedKey p"
  have none: "in_staging None" "unpublished None" by (simp_all add: in_staging_def unpublished_def)
  have k: "entry_path ?k (bodyPath ?k)" "entry_path ?k (headerPath ?k)" by simp_all
  have first: "prep_frame v {?k} c c1 \<and> untouched v ?k c c1 \<and> ledger_ok c1 \<and> active c1 ?k \<and> diskRoot c1 = diskRoot c \<and> cfg c1 = cfg c"
    if "reserve_if v ?k a c = (e1, c1)" for a e1 c1
  proof -
    note f = reserve_if_prep [OF v c that]
    have "prep_frame v {?k} c c1" by (rule prep_frame_mono [OF f(1)]) simp
    with f c show ?thesis by (simp add: prep_frame_def)
  qed
  from r show ?thesis
  proof (cases rule: prepare_steps)
    case early
    then show ?thesis using c p none by (auto simp: prep_frame_refl same_target_def untouched_def none_published_def)
  next
    case refused
    from first [OF this(1)] refused p none show ?thesis by (auto simp: same_target_def none_published_def)
  next
    case (bodied a c1 b n err2 s1)
    note f = first [OF bodied(1)]
    have l1: "ledger_ok c1" using f by simp
    note st = stage_prep [OF v l1 bodied(2) k(1)]
    have "prep_frame v {?k} c c'" using prep_frame_trans [of v "{?k}" c c1 "{?k}" c' "{?k}"] f st(1) bodied(4) by simp
    moreover have "unpublished b \<Longrightarrow> untouched v ?k c c'" using f st(3) bodied(4) by (auto intro: untouched_trans)
    ultimately show ?thesis using bodied(3,5) p none st(2,4) f by (auto simp: same_target_def none_published_def)
  next
    case (unadmitted a c1 b n s1 m err2)
    note f = first [OF unadmitted(1)]
    have l1: "ledger_ok c1" using f by simp
    note st = stage_prep [OF v l1 unadmitted(2) k(1)]
    have l2: "ledger_ok (c1\<lparr>fs := s1\<rparr>)" "active (c1\<lparr>fs := s1\<rparr>) ?k" using st(1) f c(2) by (simp_all add: prep_frame_def)
    note g = reserve_prep [OF v l2 unadmitted(3)]
    have "prep_frame v {?k} c (c1\<lparr>fs := s1\<rparr>)" using prep_frame_trans [of v "{?k}" c c1 "{?k}" _ "{?k}"] f st(1) by simp
    then have "prep_frame v {?k} c c'" using prep_frame_trans [of v "{?k}" c _ "{}" c' "{?k}"] g(1) by simp
    moreover have "unpublished b \<Longrightarrow> untouched v ?k c c'" using f st(3) g(2) by (auto intro: untouched_trans)
    ultimately show ?thesis using unadmitted(4,5) p none st(2,4) f by (auto simp: same_target_def none_published_def)
  next
    case (headed a c1 b n s1 m c2 h n2 err2 s2)
    note f = first [OF headed(1)]
    have l1: "ledger_ok c1" using f by simp
    note st = stage_prep [OF v l1 headed(2) k(1)]
    have l2: "ledger_ok (c1\<lparr>fs := s1\<rparr>)" "active (c1\<lparr>fs := s1\<rparr>) ?k" using st(1) f c(2) by (simp_all add: prep_frame_def)
    note g = reserve_prep [OF v l2 headed(3)]
    have l3: "ledger_ok c2" "diskRoot c2 = diskRoot c" "cfg c2 = cfg c" "active c2 ?k" using g(1) f l2 c(2) by (simp_all add: prep_frame_def)
    note st2 = stage_prep [OF v l3(1) headed(4) k(2)]
    have f1: "prep_frame v {?k} c (c1\<lparr>fs := s1\<rparr>)" using prep_frame_trans [of v "{?k}" c c1 "{?k}" _ "{?k}"] f st(1) by simp
    then have f2: "prep_frame v {?k} c c2" using prep_frame_trans [of v "{?k}" c _ "{}" c2 "{?k}"] g(1) by simp
    then have f3: "prep_frame v {?k} c c'" using prep_frame_trans [of v "{?k}" c c2 "{?k}" c' "{?k}"] st2(1) headed(6) by simp
    have u: "unpublished b \<Longrightarrow> unpublished h \<Longrightarrow> untouched v ?k c c'"
      using f st(3) g(2) st2(3) headed(6) by (auto intro: untouched_trans)
    have n: "n = int (length (stored_body res))" "staged_as v (diskRoot c) (bodyPath ?k) (stored_body res) b s1"
      "diskRoot c \<longrightarrow> vRead v (tmpPath (the b)) (fs c1) = Inl NotExist"
      using st(5) f by auto
    have b2: "staged_as v (diskRoot c) (bodyPath ?k) (stored_body res) b (fs c2)"
      using staged_as_prep [of v "diskRoot c" _ _ b "c1\<lparr>fs := s1\<rparr>" "{}" c2] n(2) g by (simp add: untouched_def)
    have b3: "staged_as v (diskRoot c) (bodyPath ?k) (stored_body res) b (fs c')"
      using staged_as_prep [OF b2 st2(1)] st2(6) [of "bodyPath ?k"] headed(6) by simp
    have all: "prepared_entry v x res c p' (fs c') \<and> (diskRoot c \<longrightarrow> fresh_temps v p' (fs c))" if "err = None"
    proof -
      let ?rec = "stored_record x (Integrity (cfg c)) res (pkey p) (pstoredAt p)"
      have h: "staged_as v (diskRoot c) (headerPath ?k) ?rec h (fs c')" "n2 = int (length ?rec)"
        "diskRoot c \<longrightarrow> vRead v (tmpPath (the h)) (fs c2) = Inl NotExist"
        using st2(5) headed(6,7) that l3 n(1) by (simp_all add: stored_record_def)
      have "fresh_temps v p' (fs c) \<and> tmpPath (the b) \<noteq> tmpPath (the h)" if d: "diskRoot c"
      proof -
        have tb: "prefix stagingDir (tmpPath (the b))" "vRead v (tmpPath (the b)) (fs c2) = Inr (stored_body res)"
          using staged_as_temp [OF b2 [unfolded eqTrueI [OF d]]] by simp_all
        have th: "prefix stagingDir (tmpPath (the h))"
          using staged_as_temp [OF h(1) [unfolded eqTrueI [OF d]]] by simp
        have "vRead v (tmpPath (the b)) (fs c) = Inl NotExist"
          by (rule fresh_before [of v "{?k}" c c1]) (use f n(3) d tb(1) in simp_all)
        moreover have "vRead v (tmpPath (the h)) (fs c) = Inl NotExist"
          by (rule fresh_before [OF f2]) (use h(3) d th in simp_all)
        ultimately show ?thesis using tb h(3) d headed(5) by (auto simp: fresh_temps_def)
      qed
      then show ?thesis using b3 h n(1) headed(5) by (simp add: prepared_entry_def)
    qed
    show ?thesis
      using f3 u all headed(5) st(2,4) st2(2,4) f l3 by (simp add: same_target_def none_published_def)
  qed
qed

subsection \<open>Preparing all targets\<close>

definition temps :: "preparedCacheEntry list \<Rightarrow> string list" where
  "temps ps = map (tmpPath \<circ> the) (staged_files ps)"

lemma temps_simps [simp]: "temps [] = []" "temps (p # ps) = tmpPath (the (pbody p)) # tmpPath (the (pheader p)) # temps ps"
  by (simp_all add: temps_def)

lemma prepared_entry_cong: "cfg c1 = cfg c \<Longrightarrow> diskRoot c1 = diskRoot c \<Longrightarrow> prepared_entry v x res c1 = prepared_entry v x res c"
  by (simp add: prepared_entry_def fun_eq_iff)

lemma prepared_entry_prep:
  assumes "prepared_entry v x res c p (fs c1)" "prep_frame v ks c1 c2" "phashedKey p \<notin> ks" "active c1 (phashedKey p)"
  shows "prepared_entry v x res c p (fs c2)"
proof -
  have u: "untouched v (phashedKey p) c1 c2" using prep_frame_untouched [OF assms(2,4,3)] .
  then show ?thesis
    using assms(1) staged_as_prep [OF _ assms(2)] by (simp add: prepared_entry_def untouched_def)
qed

lemma prepared_temps:
  assumes "prepared_entry v x res c p s" "diskRoot c"
  shows "prefix stagingDir (tmpPath (the (pbody p))) \<and> prefix stagingDir (tmpPath (the (pheader p)))
    \<and> vRead v (tmpPath (the (pbody p))) s \<noteq> Inl NotExist \<and> vRead v (tmpPath (the (pheader p))) s \<noteq> Inl NotExist"
  using assms staged_as_temp [of v _ _ _ s] by (auto simp: prepared_entry_def)

lemma temps_prefix:
  "list_all (\<lambda>p. prepared_entry v x res c p s) ps \<Longrightarrow> diskRoot c \<Longrightarrow> q \<in> set (temps ps) \<Longrightarrow> prefix stagingDir q"
  using prepared_temps by (induction ps) (simp, fastforce)

definition unprepared :: "'fs cache \<Rightarrow> preparedCacheEntry list \<Rightarrow> bool" where
  "unprepared c ps \<longleftrightarrow> list_all (\<lambda>p. active c (phashedKey p) \<and> pbody p = None \<and> pheader p = None) ps
     \<and> distinct (map phashedKey ps)"

lemma unprepared_other:
  assumes "unprepared c (p # ps)" "j \<in> set ps"
  shows "active c (phashedKey j)" "phashedKey j \<noteq> phashedKey p"
proof -
  show "active c (phashedKey j)" using assms by (simp add: unprepared_def list_all_iff)
  have "phashedKey p \<notin> phashedKey ` set ps" using assms(1) by (simp add: unprepared_def)
  then show "phashedKey j \<noteq> phashedKey p" using assms(2) by (metis imageI)
qed

definition prep_spec :: "'fs vfs \<Rightarrow> recenv \<Rightarrow> resource \<Rightarrow> preparedCacheEntry list \<Rightarrow> 'fs cache
    \<Rightarrow> bool \<Rightarrow> preparedCacheEntry list \<Rightarrow> 'fs cache \<Rightarrow> bool" where
  "prep_spec v x res ps c ok ps' c' \<longleftrightarrow>
     prep_frame v (phashedKey ` set ps) c c' \<and> list_all2 same_target ps ps' \<and> list_all in_staging (staged_files ps')
     \<and> (diskRoot c \<longrightarrow> list_all none_published ps')
     \<and> (list_all none_published ps' \<longrightarrow> (\<forall>p \<in> set ps. untouched v (phashedKey p) c c'))
     \<and> (ok \<longrightarrow> list_all (\<lambda>p. prepared_entry v x res c p (fs c')) ps'
          \<and> (diskRoot c \<longrightarrow> distinct (temps ps') \<and> (\<forall>q \<in> set (temps ps'). vRead v q (fs c) = Inl NotExist)))"

lemma prep_spec_stop:
  assumes one: "prep_frame v {phashedKey p} c c1" "same_target p p'" "in_staging (pbody p')" "in_staging (pheader p')"
      "diskRoot c \<longrightarrow> none_published p'" "none_published p' \<longrightarrow> untouched v (phashedKey p) c c1"
    and un: "unprepared c (p # ps)" and l: "ledger_ok c"
  shows "prep_spec v x res (p # ps) c False (p' # ps) c1"
proof -
  have "prep_frame v (phashedKey ` set (p # ps)) c c1" by (rule prep_frame_mono [OF one(1)]) simp
  moreover have "list_all2 same_target ps ps" by (simp add: list_all2_same same_target_def)
  moreover have "list_all in_staging (staged_files ps)" "list_all none_published ps"
    using un by (induction ps) (auto simp: unprepared_def in_staging_def none_published_def unpublished_def)
  moreover have "untouched v (phashedKey j) c c1" if "j \<in> set ps" for j
    by (rule prep_frame_untouched [OF one(1)]) (use unprepared_other [OF un that] in simp_all)
  ultimately show ?thesis using one by (auto simp: prep_spec_def)
qed

lemma prepare_list:
  assumes v: "vfs_laws v" and "ledger_ok c" "unprepared c ps"
    and "prepare_all v x en res (expectedBodySize (rheader res)) ps c = (err, ps', c')"
  shows "prep_spec v x res ps c (err = None) ps' c'"
  using assms(2-4)
proof (induction ps arbitrary: c err ps')
  case Nil
  then show ?case by (simp add: prep_spec_def prep_frame_refl)
next
  case (Cons p ps)
  obtain err1 p' c1 where r: "prepareResourceForKey v x en res p (expectedBodySize (rheader res)) c = (err1, p', c1)"
    by (metis prod_cases3)
  have p: "active c (phashedKey p)" "pbody p = None" "pheader p = None" using Cons.prems(2) by (simp_all add: unprepared_def)
  note one = prepare_one [OF v Cons.prems(1) p r]
  show ?case
  proof (cases err1)
    case (Some e1)
    then have "err = Some e1" "ps' = p' # ps" "c' = c1" using Cons.prems(3) r by simp_all
    with prep_spec_stop [OF _ _ _ _ _ _ Cons.prems(2,1)] one show ?thesis by simp
  next
    case None
    obtain ps2 where rest: "prepare_all v x en res (expectedBodySize (rheader res)) ps c1 = (err, ps2, c')" and ps': "ps' = p' # ps2"
      using Cons.prems(3) r None by (auto split: prod.splits)
    have f: "prep_frame v {phashedKey p} c c1" "ledger_ok c1" "active c1 = active c" "cfg c1 = cfg c" "diskRoot c1 = diskRoot c"
      using one by (simp_all add: prep_frame_def)
    have un: "unprepared c1 ps" "phashedKey p \<notin> phashedKey ` set ps"
      using Cons.prems(2) f(3) by (auto simp: unprepared_def)
    note IH = Cons.IH [OF f(2) un(1) rest, unfolded prep_spec_def]
    have frame: "prep_frame v (phashedKey ` set (p # ps)) c c'"
      by (rule prep_frame_trans [OF f(1), of "phashedKey ` set ps"]) (use IH in auto)
    have pk: "phashedKey p' = phashedKey p" using one by (simp add: same_target_def)
    have un_p: "untouched v (phashedKey p) c1 c'"
      by (rule prep_frame_untouched [of v "phashedKey ` set ps"]) (use IH un(2) p(1) f(3) in auto)
    have un_ps: "untouched v (phashedKey j) c c1" if "j \<in> set ps" for j
      by (rule prep_frame_untouched [OF f(1)]) (use unprepared_other [OF Cons.prems(2) that] in simp_all)
    have unt: "\<forall>j \<in> set (p # ps). untouched v (phashedKey j) c c'" if "list_all none_published ps'"
      using that one IH un_p un_ps unfolding ps' by (auto intro: untouched_trans)
    have ok: "list_all (\<lambda>p. prepared_entry v x res c p (fs c')) ps'
          \<and> (diskRoot c \<longrightarrow> distinct (temps ps') \<and> (\<forall>q \<in> set (temps ps'). vRead v q (fs c) = Inl NotExist))" if "err = None"
    proof
      have pe: "prepared_entry v x res c p' (fs c1)" "diskRoot c \<longrightarrow> fresh_temps v p' (fs c)" using one None by simp_all
      have "prepared_entry v x res c p' (fs c')"
        by (rule prepared_entry_prep [OF pe(1), of "phashedKey ` set ps"]) (use IH pk un(2) p(1) f(3) in auto)
      then show all: "list_all (\<lambda>p. prepared_entry v x res c p (fs c')) ps'"
        using IH that prepared_entry_cong [OF f(4,5)] by (simp add: ps')
      show "diskRoot c \<longrightarrow> distinct (temps ps') \<and> (\<forall>q \<in> set (temps ps'). vRead v q (fs c) = Inl NotExist)"
      proof
        assume d: "diskRoot c"
        have t2: "distinct (temps ps2)" "\<forall>q \<in> set (temps ps2). vRead v q (fs c1) = Inl NotExist" using IH that d f(5) by simp_all
        have in2: "q \<in> set (temps ps2) \<Longrightarrow> prefix stagingDir q" for q using temps_prefix [of v x res c "fs c'" ps2] all d by (simp add: ps')
        note tp = prepared_temps [OF pe(1) d]
        have "\<forall>q \<in> set (temps ps2). vRead v q (fs c) = Inl NotExist" using fresh_before [OF f(1)] t2(2) in2 by blast
        moreover have "distinct (temps ps')"
          using t2 tp pe(1) d by (auto simp: ps' prepared_entry_def)
        ultimately show "distinct (temps ps') \<and> (\<forall>q \<in> set (temps ps'). vRead v q (fs c) = Inl NotExist)"
          using pe(2) d by (simp add: ps' fresh_temps_def)
      qed
    qed
    show ?thesis using frame unt ok one IH f(5) unfolding prep_spec_def ps' by simp
  qed
qed

subsection \<open>Discarding\<close>

lemma hashKey_plain: "CHR ''.'' \<notin> set (hashKey key)"
proof
  assume "CHR ''.'' \<in> set (hashKey key)"
  then have "is_hex CHR ''.''" using hex_valid unfolding hashKey_def by (metis list_all_iff)
  moreover have "\<not> is_hex CHR ''.''" by code_simp
  ultimately show False by simp
qed

lemma entry_path_plain: "entry_path (hashKey key) q \<Longrightarrow> \<not> temp_name q"
proof
  assume e: "entry_path (hashKey key) q" and "temp_name q"
  then have "CHR ''.'' \<in> set q" by (auto simp: temp_name_def sublist_def)
  moreover have "CHR ''.'' \<notin> set q" using e hashKey_plain
    by (auto simp: entry_path_def bodyPath_def headerPath_def bodyPrefix_def headerPrefix_def formatPrefix_def)
  ultimately show False by simp
qed

lemma entry_path_no_marker: "entry_path k q \<Longrightarrow> q \<noteq> staleMapPath \<and> q \<noteq> staleMapSlotPath g"
  by (auto simp: entry_path_def bodyPath_def headerPath_def bodyPrefix_def headerPrefix_def staleMapPath_def staleMapSlotPath_def)

lemma persist_files:
  assumes "vfs_laws v" "entry_path (hashKey key) q"
  shows "vRead v q (fs (persistStale v cd m c)) = vRead v q (fs c)"
proof -
  have q: "\<not> temp_name q" "q \<noteq> staleMapPath" "q \<noteq> staleMapSlotPath g" for g
    using entry_path_plain [OF assms(2)] entry_path_no_marker [OF assms(2)] by auto
  have a: "vRead v q (snd (atomicWriteFile v staleMapPath d s)) = vRead v q s" for d s
    using atomicWriteFile_read [OF assms(1) _ marker_paths q(1), of d s] q(2) by (cases "atomicWriteFile v staleMapPath d s") simp
  have w: "vRead v q (snd (vfsWrite v (staleMapSlotPath g) r s)) = vRead v q s" for g r s
    using vfsWrite_read(1) [OF assms(1) _ q(3)] by (metis prod.collapse)
  show ?thesis
    unfolding persistStale_def Let_def by (simp add: a w split: option.split prod.split) (metis w snd_conv)
qed

lemma discard_files:
  assumes "vfs_laws v" "ledger_ok c" "discardUnadmitted v now key k sz at c = (err, c')"
  shows "\<not> entry_path k q \<Longrightarrow> vRead v q (fs c') = vRead v q (fs c)"
    and "\<not> err \<Longrightarrow> vRead v (bodyPath k) (fs c') = Inl NotExist \<and> vRead v (headerPath k) (fs c') = Inl NotExist"
    and "diskRoot c' = diskRoot c"
proof -
  have "(\<forall>q. \<not> entry_path k q \<longrightarrow> vRead v q (fs c') = vRead v q (fs c))
      \<and> (\<not> err \<longrightarrow> vRead v (bodyPath k) (fs c') = Inl NotExist \<and> vRead v (headerPath k) (fs c') = Inl NotExist) \<and> diskRoot c' = diskRoot c"
  proof (cases "map_of (lruIndex c) k")
    case None
    obtain e s where r: "remove_files v k (fs c) = (e, s)" by (rule prod.exhaust)
    have "fs c' = s" "err = e" "diskRoot c' = diskRoot c"
      using assms(3) None r by (auto simp: discardUnadmitted_def Let_def split: if_splits)
    then show ?thesis using remove_files_frame [OF assms(1), of k _ "fs c"] remove_files_gone [OF assms(1), of k "fs c" s] r
      by (cases e) auto
  next
    case (Some entry)
    have k: "ehashedKey entry = k" using ledger_entry [OF assms(2) Some] by simp
    obtain e c1 where r: "removeEntry v entry c = (e, c1)" by (rule prod.exhaust)
    have "fs c' = fs c1" "err = e" "diskRoot c' = diskRoot c1"
      using assms(3) Some r by (auto simp: discardUnadmitted_def Let_def split: if_splits)
    then show ?thesis using removeEntry_files [OF assms(1) r] k by (auto simp: same_but_entries_def)
  qed
  then show "\<not> entry_path k q \<Longrightarrow> vRead v q (fs c') = vRead v q (fs c)"
    and "\<not> err \<Longrightarrow> vRead v (bodyPath k) (fs c') = Inl NotExist \<and> vRead v (headerPath k) (fs c') = Inl NotExist"
    and "diskRoot c' = diskRoot c" by blast+
qed

lemma mark_residual_frame:
  "lruIndex (mark_residual v cd now key c) = lruIndex c" "lruList (mark_residual v cd now key c) = lruList c"
  "totalSize (mark_residual v cd now key c) = totalSize c" "reservations (mark_residual v cd now key c) = reservations c"
  "reservedSize (mark_residual v cd now key c) = reservedSize c" "cfg (mark_residual v cd now key c) = cfg c"
  "diskRoot (mark_residual v cd now key c) = diskRoot c"
  by (simp_all add: mark_residual_def Let_def)

lemma mark_residual_marks:
  "0 < now \<Longrightarrow> \<exists>t. StaleAt (mark_residual v cd now key c) key = Some t \<and> now \<le> t"
  "StaleAt c j = Some t \<Longrightarrow> \<exists>t'. StaleAt (mark_residual v cd now key c) j = Some t' \<and> t \<le> t'"
  by (auto simp: mark_residual_def StaleAt_def Let_def go_map_simps split: option.splits)

lemma mark_residual_files:
  "vfs_laws v \<Longrightarrow> entry_path (hashKey j) q \<Longrightarrow> vRead v q (fs (mark_residual v cd now key c)) = vRead v q (fs c)"
  by (simp add: mark_residual_def Let_def persist_files)

definition same_setup :: "'fs cache \<Rightarrow> 'fs cache \<Rightarrow> bool" where
  "same_setup c c' \<longleftrightarrow> cfg c' = cfg c \<and> diskRoot c' = diskRoot c"

text \<open>An entry is out of use when its files are gone or a marker at least as late as the discard governs it.\<close>

definition out_of_use :: "'fs vfs \<Rightarrow> time \<Rightarrow> string \<Rightarrow> 'fs cache \<Rightarrow> bool" where
  "out_of_use v now key c \<longleftrightarrow>
     (vRead v (bodyPath (hashKey key)) (fs c) = Inl NotExist \<and> vRead v (headerPath (hashKey key)) (fs c) = Inl NotExist)
     \<or> (\<exists>t. StaleAt c key = Some t \<and> now \<le> t)"

definition discard_one :: "'fs vfs \<Rightarrow> codec \<Rightarrow> storeenv \<Rightarrow> preparedCacheEntry \<Rightarrow> 'fs cache \<Rightarrow> 'fs cache" where
  "discard_one v cd en p c =
     (let (err, c) = discardUnadmitted v (clockTrack en (pkey p)) (pkey p) (phashedKey p) (psize p) (pstoredAt p) c
      in if err then mark_residual v cd (clockDiscard en (pkey p)) (pkey p) c else c)"

lemma discard_entries_Cons: "discard_entries v cd en (p # ps) c = discard_entries v cd en ps (discard_one v cd en p c)"
  by (simp add: discard_one_def Let_def split: prod.split)

lemma discard_one_ok:
  fixes cd :: codec
  assumes "vfs_laws v" "ledger_ok c" "phashedKey p = hashKey (pkey p)" "0 < clockDiscard en (pkey p)"
  defines "c' \<equiv> discard_one v cd en p c"
  shows "ledger_ok c'" "reservations c' = reservations c \<and> same_setup c c'" "out_of_use v (clockDiscard en (pkey p)) (pkey p) c'"
    and "hashKey j \<noteq> phashedKey p \<Longrightarrow> out_of_use v now j c \<Longrightarrow> out_of_use v now j c'"
proof -
  obtain err c1 where d: "discardUnadmitted v (clockTrack en (pkey p)) (pkey p) (phashedKey p) (psize p) (pstoredAt p) c = (err, c1)"
    by (rule prod.exhaust)
  note k = discard_ok [OF assms(2) d] and f = discard_files [OF assms(1,2) d]
  have c': "c' = (if err then mark_residual v cd (clockDiscard en (pkey p)) (pkey p) c1 else c1)"
    by (simp add: c'_def discard_one_def d)
  show "ledger_ok c'" using k(1) ledger_ok_frame [OF k(1) mark_residual_frame(1-5)] by (simp add: c')
  show "reservations c' = reservations c \<and> same_setup c c'" using k(2,4) f(3) by (simp add: c' mark_residual_frame same_setup_def)
  show "out_of_use v (clockDiscard en (pkey p)) (pkey p) c'"
    using f(2) assms(3) mark_residual_marks(1) [OF assms(4)] by (auto simp: c' out_of_use_def)
  assume j: "hashKey j \<noteq> phashedKey p" and o: "out_of_use v now j c"
  have q: "vRead v q (fs c') = vRead v q (fs c)" if e: "entry_path (hashKey j) q" for q
  proof -
    have "\<not> entry_path (phashedKey p) q" using entry_path_unique [OF e, of "phashedKey p"] j by auto
    then show ?thesis using f(1) [of q] mark_residual_files [OF assms(1) e, of cd _ _ c1] by (simp add: c')
  qed
  have m: "\<exists>t'. StaleAt c' j = Some t' \<and> t \<le> t'" if "StaleAt c j = Some t" for t
  proof -
    have "StaleAt c1 j = Some t" using that k(5) by (simp add: StaleAt_def)
    then show ?thesis using mark_residual_marks(2) [of c1 j t v cd] by (cases err) (auto simp: c')
  qed
  from o consider "vRead v (bodyPath (hashKey j)) (fs c) = Inl NotExist" "vRead v (headerPath (hashKey j)) (fs c) = Inl NotExist"
    | t where "StaleAt c j = Some t" "now \<le> t" unfolding out_of_use_def by blast
  then show "out_of_use v now j c'"
  proof cases
    case 1
    then show ?thesis using q [of "bodyPath (hashKey j)"] q [of "headerPath (hashKey j)"] by (simp add: out_of_use_def)
  next
    case 2
    then show ?thesis using m [OF 2(1)] unfolding out_of_use_def by (meson order_trans)
  qed
qed

lemma discard_all:
  assumes "vfs_laws v" "ledger_ok c" "distinct (map phashedKey ps)"
    and "\<And>p. p \<in> set ps \<Longrightarrow> phashedKey p = hashKey (pkey p) \<and> 0 < clockDiscard en (pkey p)"
  shows "ledger_ok (discard_entries v cd en ps c) \<and> reservations (discard_entries v cd en ps c) = reservations c
    \<and> same_setup c (discard_entries v cd en ps c)
    \<and> (\<forall>p \<in> set ps. out_of_use v (clockDiscard en (pkey p)) (pkey p) (discard_entries v cd en ps c))
    \<and> (\<forall>j now. hashKey j \<notin> phashedKey ` set ps \<and> out_of_use v now j c \<longrightarrow> out_of_use v now j (discard_entries v cd en ps c))"
  using assms(2-4)
proof (induction ps arbitrary: c)
  case Nil
  then show ?case by (simp add: same_setup_def)
next
  case (Cons p ps)
  have p: "phashedKey p = hashKey (pkey p)" "0 < clockDiscard en (pkey p)" using Cons.prems(3) by simp_all
  note one = discard_one_ok [OF assms(1) Cons.prems(1) p]
  have "distinct (map phashedKey ps)" using Cons.prems(2) by simp
  note IH = Cons.IH [OF one(1) this Cons.prems(3)]
  have "hashKey (pkey p) \<notin> phashedKey ` set ps" using Cons.prems(2) p by auto
  then show ?case using IH one(2-4) by (auto simp: discard_entries_Cons same_setup_def simp del: discard_entries.simps)
qed

subsection \<open>Publishing\<close>

fun targets :: "recenv \<Rightarrow> IntegrityMode \<Rightarrow> resource \<Rightarrow> preparedCacheEntry list \<Rightarrow> (string \<times> string) list" where
  "targets x mode res [] = []"
| "targets x mode res (p # ps) = (bodyPath (phashedKey p), stored_body res)
     # (headerPath (phashedKey p), stored_record x mode res (pkey p) (pstoredAt p)) # targets x mode res ps"

lemma fst_targets: "fst ` set (targets x mode res ps) = {q. \<exists>p \<in> set ps. entry_path (phashedKey p) q}"
  by (induction ps) (auto simp: entry_path_def)

lemma set_targets: "set (targets x mode res ps) = (\<Union>p \<in> set ps. {(bodyPath (phashedKey p), stored_body res),
    (headerPath (phashedKey p), stored_record x mode res (pkey p) (pstoredAt p))})"
  by (induction ps) auto

lemma prepared_all_staged:
  assumes "list_all (\<lambda>p. prepared_entry v x res c p s) ps" "diskRoot c" "distinct (temps ps)" "distinct (map phashedKey ps)"
  shows "all_staged v (staged_files ps) (targets x (Integrity (cfg c)) res ps) s"
proof -
  have "list_all2 (\<lambda>e (t, d). staged_as v True t d e s) (staged_files ps) (targets x (Integrity (cfg c)) res ps)"
    using assms(1,2) by (induction ps) (auto simp: prepared_entry_def)
  moreover have "distinct (map fst (targets x (Integrity (cfg c)) res ps))" if "distinct (map phashedKey ps)"
    using that
  proof (induction ps)
    case (Cons p ps)
    have "\<not> entry_path (phashedKey j) (bodyPath (phashedKey p)) \<and> \<not> entry_path (phashedKey j) (headerPath (phashedKey p))"
      if "j \<in> set ps" for j using Cons.prems that by (metis distinct.simps(2) entry_path_simps imageI list.set_map list.simps(9))
    with Cons show ?case
      using fst_targets [of x "Integrity (cfg c)" res ps] by (auto simp del: entry_path_simps)
  qed simp
  moreover have "\<not> prefix stagingDir t" if "(t, d) \<in> set (targets x (Integrity (cfg c)) res ps)" for t d
    using that by (auto simp: set_targets)
  ultimately show ?thesis using assms(3,4) by (auto simp: all_staged_def temps_def list_all_iff)
qed

lemma with_files:
  "length es = length (staged_files ps) \<Longrightarrow> staged_files (with_files ps es) = es \<and> list_all2 same_target ps (with_files ps es)"
proof (induction ps arbitrary: es)
  case (Cons p ps)
  then obtain b ys where "es = b # ys" "length ys = Suc (length (staged_files ps))" by (cases es) auto
  then obtain h es' where "es = b # h # es'" "length es' = length (staged_files ps)" by (cases ys) auto
  with Cons.IH show ?case by (simp add: same_target_def)
qed simp

lemma abandon_unpublished: "anyPublished es = list_ex (\<lambda>e. \<not> unpublished e) es"
proof -
  have "(\<lambda>e. case e of None \<Rightarrow> False | Some e \<Rightarrow> published e) = (\<lambda>e. \<not> unpublished e)"
    by (auto simp: fun_eq_iff unpublished_def split: option.split)
  then show ?thesis by (simp add: anyPublished_def)
qed

lemma none_published_files: "list_all none_published ps \<longleftrightarrow> \<not> anyPublished (staged_files ps)"
  by (induction ps) (auto simp: none_published_def abandon_unpublished)

definition well_keyed :: "storeenv \<Rightarrow> preparedCacheEntry list \<Rightarrow> bool" where
  "well_keyed en ps \<longleftrightarrow> distinct (map phashedKey ps) \<and> list_all (\<lambda>p. phashedKey p = hashKey (pkey p) \<and> 0 < clockDiscard en (pkey p)) ps"

lemma discard_prepared:
  fixes cd :: codec
  assumes "vfs_laws v" "ledger_ok c" "well_keyed en ps" "list_all in_staging (staged_files ps)"
  defines "c' \<equiv> discardPreparedStore v cd en ps c"
  shows "ledger_ok c' \<and> reservations c' = reservations c \<and> same_setup c c'
    \<and> (if list_all none_published ps then \<forall>q. \<not> prefix stagingDir q \<longrightarrow> vRead v q (fs c') = vRead v q (fs c)
       else \<forall>p \<in> set ps. out_of_use v (clockDiscard en (pkey p)) (pkey p) c')"
proof -
  let ?c1 = "c\<lparr>fs := snd (abandonStaged v (staged_files ps) (fs c))\<rparr>"
  have l: "ledger_ok ?c1" by (rule ledger_ok_frame [OF assms(2)]) simp_all
  have q: "\<not> prefix stagingDir q \<Longrightarrow> vRead v q (fs ?c1) = vRead v q (fs c)" for q
    using abandon_files [OF assms(1,4)] by simp
  have "distinct (map phashedKey ps)" "\<And>p. p \<in> set ps \<Longrightarrow> phashedKey p = hashKey (pkey p) \<and> 0 < clockDiscard en (pkey p)"
    using assms(3) by (auto simp: well_keyed_def list_all_iff)
  from discard_all [OF assms(1) l this] show ?thesis
    using l q by (auto simp: c'_def discardPreparedStore_def none_published_files same_setup_def Let_def)
qed

definition entry_files :: "'fs vfs \<Rightarrow> string \<Rightarrow> 'fs cache \<Rightarrow> (vfs_error + string) \<times> (vfs_error + string)" where
  "entry_files v key c = (vRead v (bodyPath (hashKey key)) (fs c), vRead v (headerPath (hashKey key)) (fs c))"

lemma untouched_files: "untouched v (hashKey key) c c' \<Longrightarrow> entry_files v key c' = entry_files v key c"
  by (simp add: entry_files_def untouched_def)

lemma track_fs [simp]: "fs (trackEntry now key k sz at c) = fs c" "staleMap (trackEntry now key k sz at c) = staleMap c"
  "diskRoot (trackEntry now key k sz at c) = diskRoot c"
  by (simp_all add: trackEntry_def Let_def releaseReservationLocked_def split: option.split)

definition track_all :: "storeenv \<Rightarrow> preparedCacheEntry list \<Rightarrow> 'fs cache \<Rightarrow> 'fs cache" where
  "track_all en ps c = foldl (\<lambda>c p. trackEntry (clockTrack en (pkey p)) (pkey p) (phashedKey p) (psize p) (pstoredAt p) c) c ps"

lemma track_all:
  assumes "ledger_ok c" "list_all (\<lambda>p. 0 \<le> psize p) ps" "distinct (map phashedKey ps)"
  shows "ledger_ok (track_all en ps c) \<and> same_setup c (track_all en ps c) \<and> fs (track_all en ps c) = fs c \<and> staleMap (track_all en ps c) = staleMap c
    \<and> (\<forall>j. active (track_all en ps c) j \<longrightarrow> active c j)
    \<and> (\<forall>p \<in> set ps. \<exists>en'. map_of (lruIndex (track_all en ps c)) (phashedKey p) = Some en' \<and> esize en' = psize p
          \<and> estoredAt en' = (if isZero (pstoredAt p) then clockTrack en (pkey p) else pstoredAt p))
    \<and> (\<forall>j. j \<notin> phashedKey ` set ps \<longrightarrow> map_of (lruIndex (track_all en ps c)) j = map_of (lruIndex c) j)"
  using assms
proof (induction ps arbitrary: c)
  case Nil
  then show ?case by (simp add: track_all_def same_setup_def)
next
  case (Cons p ps)
  let ?c = "trackEntry (clockTrack en (pkey p)) (pkey p) (phashedKey p) (psize p) (pstoredAt p) c"
  have l: "ledger_ok ?c" by (rule track_ok) (use Cons.prems in simp_all)
  have eq: "track_all en (p # ps) c = track_all en ps ?c" by (simp add: track_all_def)
  have "list_all (\<lambda>p. 0 \<le> psize p) ps" "distinct (map phashedKey ps)" "phashedKey p \<notin> phashedKey ` set ps"
    using Cons.prems by simp_all
  note IH = Cons.IH [OF l this(1,2)] and p = this(3) and ts = track_sizes [OF Cons.prems(1)]
  have a: "active ?c j \<Longrightarrow> active c j" for j by (auto simp: active_def ts go_map_simps split: if_splits)
  have "\<exists>en'. map_of (lruIndex (track_all en ps ?c)) (phashedKey p) = Some en' \<and> esize en' = psize p
          \<and> estoredAt en' = (if isZero (pstoredAt p) then clockTrack en (pkey p) else pstoredAt p)"
    using IH p ts(5) by simp
  with IH a ts(3,5) show ?case unfolding eq by (auto simp: same_setup_def)
qed

text \<open>The outcomes of a transaction on its targets.\<close>

definition published_all :: "'fs vfs \<Rightarrow> recenv \<Rightarrow> IntegrityMode \<Rightarrow> storeenv \<Rightarrow> resource \<Rightarrow> string list \<Rightarrow> 'fs cache \<Rightarrow> bool" where
  "published_all v x mode en res keys c' \<longleftrightarrow> (\<forall>key \<in> set keys.
     entry_files v key c' = (Inr (stored_body res), Inr (stored_record x mode res key (clockAt en key)))
     \<and> entry_size c' (hashKey key) = int (length (stored_body res)) + int (length (stored_record x mode res key (clockAt en key)))
     \<and> entryStoredAt (hashKey key) c' = (if isZero (clockAt en key) then clockTrack en key else clockAt en key))"

definition kept_all :: "'fs vfs \<Rightarrow> string list \<Rightarrow> 'fs cache \<Rightarrow> 'fs cache \<Rightarrow> bool" where
  "kept_all v keys c c' \<longleftrightarrow> (\<forall>key \<in> set keys. entry_files v key c' = entry_files v key c)"

definition dropped_all :: "'fs vfs \<Rightarrow> storeenv \<Rightarrow> string list \<Rightarrow> 'fs cache \<Rightarrow> bool" where
  "dropped_all v en keys c' \<longleftrightarrow> (\<forall>key \<in> set keys. out_of_use v (clockDiscard en key) key c')"

definition targets_of :: "storeenv \<Rightarrow> string list \<Rightarrow> preparedCacheEntry list \<Rightarrow> bool" where
  "targets_of en keys ps \<longleftrightarrow> map pkey ps = keys \<and> map phashedKey ps = map hashKey keys \<and> map pstoredAt ps = map (clockAt en) keys"

lemma targets_of_set:
  assumes "targets_of en keys ps"
  shows "set keys = pkey ` set ps" "p \<in> set ps \<Longrightarrow> phashedKey p = hashKey (pkey p) \<and> pstoredAt p = clockAt en (pkey p)"
proof -
  show "set keys = pkey ` set ps" using assms by (auto simp: targets_of_def)
  assume "p \<in> set ps"
  then obtain i where "i < length ps" "p = ps ! i" by (auto simp: in_set_conv_nth)
  then show "phashedKey p = hashKey (pkey p) \<and> pstoredAt p = clockAt en (pkey p)"
    using assms unfolding targets_of_def by (metis length_map nth_map)
qed

lemma targets_of_same: "targets_of en keys ps \<Longrightarrow> list_all2 same_target ps ps' \<Longrightarrow> targets_of en keys ps'"
proof -
  assume 1: "targets_of en keys ps" and 2: "list_all2 same_target ps ps'"
  have "map pkey ps' = map pkey ps \<and> map phashedKey ps' = map phashedKey ps \<and> map pstoredAt ps' = map pstoredAt ps"
    using 2 by (induction rule: list_all2_induct) (simp_all add: same_target_def)
  with 1 show ?thesis by (simp add: targets_of_def)
qed

lemma well_keyed_targets:
  assumes "targets_of en keys ps" "distinct (map hashKey keys)" "\<And>key. 0 < clockDiscard en key"
  shows "well_keyed en ps"
  using assms targets_of_set(2) [OF assms(1)] by (auto simp: well_keyed_def targets_of_def list_all_iff)

lemma published_files:
  assumes t: "targets_of en keys ps" and d: "distinct (map hashKey keys)" and l: "ledger_ok c"
    and sz: "\<And>p. p \<in> set ps \<Longrightarrow> psize p = int (length (stored_body res)) + int (length (stored_record x mode res (pkey p) (pstoredAt p)))"
    and f: "\<And>p. p \<in> set ps \<Longrightarrow> vRead v (bodyPath (phashedKey p)) (fs c) = Inr (stored_body res)
      \<and> vRead v (headerPath (phashedKey p)) (fs c) = Inr (stored_record x mode res (pkey p) (pstoredAt p))"
  shows "published_all v x mode en res keys (track_all en ps c)"
proof -
  have "list_all (\<lambda>p. 0 \<le> psize p) ps" "distinct (map phashedKey ps)"
    using sz t d by (auto simp: list_all_iff targets_of_def)
  note tr = track_all [OF l this, of en]
  show ?thesis unfolding published_all_def
  proof
    fix key assume "key \<in> set keys"
    then obtain p where p: "p \<in> set ps" "pkey p = key" using targets_of_set(1) [OF t] by auto
    note k = targets_of_set(2) [OF t p(1)]
    obtain e where e: "map_of (lruIndex (track_all en ps c)) (phashedKey p) = Some e" "esize e = psize p"
      "estoredAt e = (if isZero (pstoredAt p) then clockTrack en (pkey p) else pstoredAt p)" using tr p(1) by blast
    show "entry_files v key (track_all en ps c) = (Inr (stored_body res), Inr (stored_record x mode res key (clockAt en key)))
      \<and> entry_size (track_all en ps c) (hashKey key) = int (length (stored_body res)) + int (length (stored_record x mode res key (clockAt en key)))
      \<and> entryStoredAt (hashKey key) (track_all en ps c) = (if isZero (clockAt en key) then clockTrack en key else clockAt en key)"
      using f [OF p(1)] sz [OF p(1)] e k p(2) tr
      by (simp add: entry_files_def entry_size_def entryStoredAt_def)
  qed
qed

lemma dropped_targets:
  "targets_of en keys ps \<Longrightarrow> \<forall>p \<in> set ps. out_of_use v (clockDiscard en (pkey p)) (pkey p) c \<Longrightarrow> dropped_all v en keys c"
  using targets_of_set(1) [of en keys ps] by (auto simp: dropped_all_def)

lemma kept_targets:
  assumes "\<forall>q. \<not> prefix stagingDir q \<longrightarrow> vRead v q (fs c') = vRead v q (fs c)"
  shows "kept_all v keys c c'"
  using assms by (simp add: kept_all_def entry_files_def)

lemma prepared_published: "prepared_entry v x res c p s \<Longrightarrow> none_published p \<longleftrightarrow> diskRoot c"
  by (auto simp: prepared_entry_def staged_as_def none_published_def unpublished_def split: option.splits if_splits)

text \<open>The ways in which the publication of prepared entries can end: cancelled, broken off by a failed rename, or done.\<close>

definition publish_result :: "'fs vfs \<Rightarrow> recenv \<Rightarrow> storeenv \<Rightarrow> resource \<Rightarrow> string list \<Rightarrow> 'fs cache \<Rightarrow> cache_error option \<Rightarrow> 'fs cache \<Rightarrow> bool" where
  "publish_result v x en res keys c result c' \<longleftrightarrow> ledger_ok c' \<and> same_setup c c' \<and> (\<forall>j. active c' j \<longrightarrow> active c j)
    \<and> (result = None \<longrightarrow> published_all v x (Integrity (cfg c)) en res keys c' \<and> staleMap c' = staleMap c)
    \<and> (result \<noteq> None \<longrightarrow> (kept_all v keys c c' \<and> diskRoot c) \<or> (dropped_all v en keys c' \<and> (diskRoot c \<longrightarrow> result = Some PublishFailed)))"

lemma publish_cancelled:
  assumes v: "vfs_laws v" and l: "ledger_ok c" and t: "targets_of en keys ps" and wk: "well_keyed en ps"
    and pub: "\<And>p. p \<in> set ps \<Longrightarrow> none_published p \<longleftrightarrow> diskRoot c" and st: "list_all in_staging (staged_files ps)"
  shows "publish_result v x en res keys c (Some Cancelled) (discardPreparedStore v cd en ps c)"
proof -
  let ?c' = "discardPreparedStore v cd en ps c"
  note dp = discard_prepared [OF v l wk st, of cd]
  show ?thesis
  proof (cases "diskRoot c")
    case True
    then have "list_all none_published ps" using pub by (simp add: list_all_iff)
    then have "kept_all v keys c ?c'" using dp by (intro kept_targets) simp
    then show ?thesis using dp True by (simp add: active_def publish_result_def)
  next
    case False
    then have "\<forall>p \<in> set ps. out_of_use v (clockDiscard en (pkey p)) (pkey p) ?c'" using dp pub by (cases ps) auto
    then have "dropped_all v en keys ?c'" by (rule dropped_targets [OF t])
    then show ?thesis using dp False by (simp add: active_def publish_result_def)
  qed
qed

lemma publish_broken_off:
  assumes v: "vfs_laws v" and l: "ledger_ok c" and t: "targets_of en keys ps" and d: "distinct (map hashKey keys)"
    and clock: "\<And>key. 0 < clockDiscard en key" and disk: "diskRoot c" and files: "list_all in_staging files" "length files = length (staged_files ps)"
    and kept: "\<not> anyPublished files \<longrightarrow> (\<forall>q. \<not> prefix stagingDir q \<longrightarrow> vRead v q s = vRead v q (fs c))"
  shows "publish_result v x en res keys c (Some PublishFailed) (discardPreparedStore v cd en (with_files ps files) (c\<lparr>fs := s\<rparr>))"
proof -
  let ?ps = "with_files ps files" and ?c' = "discardPreparedStore v cd en (with_files ps files) (c\<lparr>fs := s\<rparr>)"
  have l1: "ledger_ok (c\<lparr>fs := s\<rparr>)" by (rule ledger_ok_frame [OF l]) simp_all
  have wf: "staged_files ?ps = files" "targets_of en keys ?ps"
    using with_files [of files ps] files targets_of_same [OF t] by simp_all
  have "list_all in_staging (staged_files ?ps)" using files(1) wf(1) by simp
  note dp = discard_prepared [OF v l1 well_keyed_targets [OF wf(2) d clock] this, of cd]
  show ?thesis
  proof (cases "list_all none_published ?ps")
    case np: True
    then have "\<forall>q. \<not> prefix stagingDir q \<longrightarrow> vRead v q s = vRead v q (fs c)" using kept none_published_files [of ?ps] wf(1) by simp
    then have "kept_all v keys c ?c'" using dp np by (intro kept_targets) simp
    then show ?thesis using dp disk by (simp add: active_def same_setup_def publish_result_def)
  next
    case False
    then have "dropped_all v en keys ?c'" using dp by (intro dropped_targets [OF wf(2)]) simp
    then show ?thesis using dp by (simp add: active_def same_setup_def publish_result_def)
  qed
qed

lemma publish_done:
  assumes l: "ledger_ok c" and t: "targets_of en keys ps" and d: "distinct (map hashKey keys)"
    and pe: "list_all (\<lambda>p. prepared_entry v x res c p (fs c)) ps"
    and on_disk: "diskRoot c \<Longrightarrow> \<forall>(t, d) \<in> set (targets x (Integrity (cfg c)) res ps). vRead v t s = Inr d"
    and in_place: "\<not> diskRoot c \<Longrightarrow> s = fs c"
  shows "publish_result v x en res keys c None (track_all en ps (c\<lparr>fs := s\<rparr>))"
proof -
  have l1: "ledger_ok (c\<lparr>fs := s\<rparr>)" by (rule ledger_ok_frame [OF l]) simp_all
  have pe: "prepared_entry v x res c p (fs c)" if "p \<in> set ps" for p using pe that by (simp add: list_all_iff)
  have sz: "psize p = int (length (stored_body res)) + int (length (stored_record x (Integrity (cfg c)) res (pkey p) (pstoredAt p)))"
    if "p \<in> set ps" for p using pe [OF that] by (simp add: prepared_entry_def)
  have f: "vRead v (bodyPath (phashedKey p)) (fs (c\<lparr>fs := s\<rparr>)) = Inr (stored_body res)
    \<and> vRead v (headerPath (phashedKey p)) (fs (c\<lparr>fs := s\<rparr>)) = Inr (stored_record x (Integrity (cfg c)) res (pkey p) (pstoredAt p))" if p: "p \<in> set ps" for p
  proof (cases "diskRoot c")
    case True
    then show ?thesis using on_disk p by (auto simp: set_targets)
  next
    case False
    then show ?thesis using in_place pe [OF p] by (auto simp: prepared_entry_def staged_as_def split: option.splits)
  qed
  have nn: "list_all (\<lambda>p. 0 \<le> psize p) ps" and dk: "distinct (map phashedKey ps)" using sz t d by (auto simp: list_all_iff targets_of_def)
  show ?thesis
    using published_files [OF t d l1 sz f] track_all [OF l1 nn dk, of en] by (simp add: active_def same_setup_def publish_result_def)
qed

lemma publish_spec:
  assumes v: "vfs_laws v" and l: "ledger_ok c" and t: "targets_of en keys ps" and d: "distinct (map hashKey keys)"
    and clock: "\<And>key. 0 < clockDiscard en key"
    and pe: "list_all (\<lambda>p. prepared_entry v x res c p (fs c)) ps" and tm: "diskRoot c \<longrightarrow> distinct (temps ps)"
    and st: "list_all in_staging (staged_files ps)"
    and r: "publish_all v cd en ps c = (result, c')"
  shows "publish_result v x en res keys c result c'"
proof (cases "polled en Publishing")
  case True
  have pub: "p \<in> set ps \<Longrightarrow> none_published p \<longleftrightarrow> diskRoot c" for p
    using pe prepared_published [of v x res c p "fs c"] by (simp add: list_all_iff)
  have "result = Some Cancelled" "c' = discardPreparedStore v cd en ps c" using True r by (simp_all add: publish_all_def)
  then show ?thesis using publish_cancelled [OF v l t well_keyed_targets [OF t d clock] pub st] by blast
next
  case go: False
  obtain err files s where cm: "commitStagedLocked v (staged_files ps) (fs c) = (err, files, s)" by (metis prod_cases3)
  have dk: "distinct (map phashedKey ps)" using well_keyed_targets [OF t d clock] by (simp add: well_keyed_def)
  have disk: "(\<not> err \<longrightarrow> (\<forall>(t, d) \<in> set (targets x (Integrity (cfg c)) res ps). vRead v t s = Inr d))
    \<and> (err \<longrightarrow> list_all in_staging files \<and> length files = length (staged_files ps)
        \<and> (\<not> anyPublished files \<longrightarrow> (\<forall>q. \<not> prefix stagingDir q \<longrightarrow> vRead v q s = vRead v q (fs c))))" if dr: "diskRoot c"
    using commit_on_disk [OF v prepared_all_staged [OF pe dr _ dk] cm] tm dr by simp
  have place: "\<not> err \<and> s = fs c" if "\<not> diskRoot c"
  proof -
    have "list_all (\<lambda>e. \<exists>y. e = Some y \<and> tmpPath y = []) (staged_files ps)"
      using pe that by (induction ps) (auto simp: prepared_entry_def staged_as_def split: option.splits)
    from commit_in_place [OF this, of v "fs c"] cm show ?thesis by simp
  qed
  show ?thesis
  proof (cases err)
    case True
    then have dr: "diskRoot c" using place by blast
    have "result = Some PublishFailed" "c' = discardPreparedStore v cd en (with_files ps files) (c\<lparr>fs := s\<rparr>)"
      using r go cm True by (simp_all add: publish_all_def)
    then show ?thesis using publish_broken_off [OF v l t d clock dr] disk [OF dr] True by simp
  next
    case False
    then have "result = None" "c' = track_all en ps (c\<lparr>fs := s\<rparr>)" using r go cm by (simp_all add: publish_all_def track_all_def)
    then show ?thesis using publish_done [OF l t d pe] disk place False by simp
  qed
qed

subsection \<open>The transaction\<close>

lemma uniqueKeys_spec:
  "distinct (map hashKey (uniqueKeys seen keys)) \<and> set (uniqueKeys seen keys) \<subseteq> set keys
   \<and> hashKey ` set (uniqueKeys seen keys) = hashKey ` set keys - set seen"
proof (induction keys arbitrary: seen)
  case (Cons key keys)
  show ?case
  proof (cases "hashKey key \<in> set seen")
    case True
    with Cons [of seen] show ?thesis by (auto simp: Let_def)
  next
    case False
    have IH: "hashKey ` set (uniqueKeys (hashKey key # seen) keys) = hashKey ` set keys - insert (hashKey key) (set seen)"
      "distinct (map hashKey (uniqueKeys (hashKey key # seen) keys))" "set (uniqueKeys (hashKey key # seen) keys) \<subseteq> set keys"
      using Cons [of "hashKey key # seen"] by simp_all
    then have "hashKey key \<notin> hashKey ` set (uniqueKeys (hashKey key # seen) keys)" by simp
    with IH False show ?thesis by (auto simp: Let_def)
  qed
qed simp

definition begin_all :: "preparedCacheEntry list \<Rightarrow> 'fs cache \<Rightarrow> 'fs cache" where
  "begin_all ps c = foldl (\<lambda>c p. beginReservation (phashedKey p) c) c ps"

lemma begin_fields [simp]: "fs (beginReservation k c) = fs c" "cfg (beginReservation k c) = cfg c" "staleMap (beginReservation k c) = staleMap c"
  "diskRoot (beginReservation k c) = diskRoot c" "active (beginReservation k c) j \<longleftrightarrow> j = k \<or> active c j"
  by (auto simp: beginReservation_def active_def go_map_simps)

lemma begin_all:
  assumes "ledger_ok c" "distinct (map phashedKey ps)" "\<And>p. p \<in> set ps \<Longrightarrow> \<not> active c (phashedKey p)"
  shows "ledger_ok (begin_all ps c) \<and> fs (begin_all ps c) = fs c \<and> cfg (begin_all ps c) = cfg c \<and> staleMap (begin_all ps c) = staleMap c
    \<and> diskRoot (begin_all ps c) = diskRoot c \<and> (\<forall>j. active (begin_all ps c) j \<longleftrightarrow> j \<in> phashedKey ` set ps \<or> active c j)"
  using assms
proof (induction ps arbitrary: c)
  case (Cons p ps)
  have "\<not> active c (phashedKey p)" using Cons.prems(3) [of p] by simp
  then have l: "ledger_ok (beginReservation (phashedKey p) c)" by (rule begin_ok [OF Cons.prems(1)])
  have d: "distinct (map phashedKey ps)" using Cons.prems(2) by simp
  have n: "\<not> active (beginReservation (phashedKey p) c) (phashedKey j)" if "j \<in> set ps" for j
  proof -
    have "phashedKey p \<notin> phashedKey ` set ps" using Cons.prems(2) by simp
    then have "phashedKey j \<noteq> phashedKey p" using that by (metis imageI)
    then show ?thesis using Cons.prems(3) [of j] that by simp
  qed
  have "begin_all (p # ps) c = begin_all ps (beginReservation (phashedKey p) c)" by (simp add: begin_all_def)
  then show ?case using Cons.IH [OF l d n] by auto
qed (simp add: begin_all_def)

lemma release_all:
  fixes ps :: "preparedCacheEntry list"
  assumes "ledger_ok c"
  defines "c' \<equiv> foldl (\<lambda>c p. releaseReservation (phashedKey p) c) c ps"
  shows "ledger_ok c' \<and> same_setup c c' \<and> fs c' = fs c \<and> staleMap c' = staleMap c \<and> lruIndex c' = lruIndex c
    \<and> (\<forall>j. active c' j \<longleftrightarrow> active c j \<and> j \<notin> phashedKey ` set ps)"
  unfolding c'_def using assms(1)
proof (induction ps arbitrary: c)
  case (Cons p ps)
  have l: "ledger_ok (releaseReservation (phashedKey p) c)" using release_ok [OF Cons.prems] by (simp add: releaseReservation_def)
  have a: "active (releaseReservation (phashedKey p) c) j \<longleftrightarrow> active c j \<and> j \<noteq> phashedKey p" for j
    by (auto simp: active_def releaseReservation_def go_map_simps)
  have "diskRoot (releaseReservation (phashedKey p) c) = diskRoot c"
    by (simp add: releaseReservation_def releaseReservationLocked_def)
  then show ?case using Cons.IH [OF l] a by (auto simp: releaseReservation_def same_setup_def)
qed (simp add: same_setup_def)

lemma files_only: "fs c' = fs c \<Longrightarrow> entry_files v key c' = entry_files v key c"
  by (simp add: entry_files_def)

lemma prepared_for_targets: "targets_of en keys (map (prepared_for en) keys)"
  by (simp add: targets_of_def prepared_for_def comp_def)

definition store_result :: "'fs vfs \<Rightarrow> recenv \<Rightarrow> storeenv \<Rightarrow> resource \<Rightarrow> string list \<Rightarrow> 'fs cache \<Rightarrow> cache_error option \<Rightarrow> 'fs cache \<Rightarrow> bool" where
  "store_result v x en res keys c result c' \<longleftrightarrow> ledger_ok c' \<and> same_setup c c'
    \<and> (result = None \<longrightarrow> published_all v x (Integrity (cfg c)) en res keys c' \<and> staleMap c' = staleMap c)
    \<and> (result \<noteq> None \<longrightarrow> kept_all v keys c c' \<or> dropped_all v en keys c' \<and> (diskRoot c \<longrightarrow> result = Some PublishFailed))"

lemma begun_store:
  assumes l: "ledger_ok c" and free: "\<And>key. key \<in> set keys \<Longrightarrow> \<not> active c (hashKey key)" and d: "distinct (map hashKey keys)"
    and c1: "c1 = begin_all (map (prepared_for en) keys) c"
  shows "ledger_ok c1 \<and> fs c1 = fs c \<and> cfg c1 = cfg c \<and> staleMap c1 = staleMap c \<and> diskRoot c1 = diskRoot c
    \<and> (\<forall>j. active c1 j \<longleftrightarrow> j \<in> hashKey ` set keys \<or> active c j) \<and> unprepared c1 (map (prepared_for en) keys)"
proof -
  let ?ps = "map (prepared_for en) keys"
  have ps: "map phashedKey ?ps = map hashKey keys" by (simp add: prepared_for_def comp_def)
  have "\<not> active c (phashedKey p)" if "p \<in> set ?ps" for p using that free by (auto simp: prepared_for_def)
  with begin_all [OF l, of ?ps] d ps
  have b: "ledger_ok c1 \<and> fs c1 = fs c \<and> cfg c1 = cfg c \<and> staleMap c1 = staleMap c \<and> diskRoot c1 = diskRoot c
      \<and> (\<forall>j. active c1 j \<longleftrightarrow> j \<in> hashKey ` set keys \<or> active c j)"
    unfolding c1 by (simp add: prepared_for_def image_comp comp_def)
  moreover have "unprepared c1 ?ps" unfolding unprepared_def ps using b d by (auto simp: list_all_iff prepared_for_def)
  ultimately show ?thesis by blast
qed

lemma unpublished_kept:
  assumes spec: "prep_spec v x res (map (prepared_for en) keys) c1 ok ps c2" and same: "fs c1 = fs c" and none: "list_all none_published ps"
  shows "kept_all v keys c c2"
proof -
  have "untouched v (hashKey key) c1 c2" if "key \<in> set keys" for key
    using spec none that by (auto simp: prep_spec_def prepared_for_def)
  then show ?thesis using untouched_files [of v _ c1 c2] files_only [OF same] by (simp add: kept_all_def)
qed

text \<open>A store from its reservations to its end, before they are released: the targets are prepared, and then published or given up.\<close>

lemma store_given_up:
  assumes v: "vfs_laws v" and t: "targets_of en keys ps" and d: "distinct (map hashKey keys)" and clock: "\<And>key. 0 < clockDiscard en key"
    and c2: "ledger_ok c2" "same_setup c c2" and st: "list_all in_staging (staged_files ps)"
    and kept: "list_all none_published ps \<Longrightarrow> kept_all v keys c c2" and disk: "diskRoot c \<longrightarrow> list_all none_published ps"
    and c3: "c3 = discardPreparedStore v cd en ps c2"
  shows "store_result v x en res keys c (Some err) c3 \<and> (\<forall>j. active c3 j \<longrightarrow> active c2 j)"
proof -
  note dp = discard_prepared [OF v c2(1) well_keyed_targets [OF t d clock] st, of cd, folded c3]
  have "kept_all v keys c c3 \<or> dropped_all v en keys c3 \<and> \<not> diskRoot c"
  proof (cases "list_all none_published ps")
    case True
    then have "kept_all v keys c2 c3" using dp by (intro kept_targets) simp
    then show ?thesis using kept [OF True] by (simp add: kept_all_def)
  next
    case False
    then show ?thesis using dp disk dropped_targets [OF t] by auto
  qed
  with dp c2 show ?thesis by (auto simp: store_result_def same_setup_def active_def)
qed

lemma store_run:
  assumes v: "vfs_laws v" and l: "ledger_ok c" and free: "\<And>key. key \<in> set keys \<Longrightarrow> \<not> active c (hashKey key)"
    and d: "distinct (map hashKey keys)" and clock: "\<And>key. 0 < clockDiscard en key"
    and c1: "c1 = begin_all (map (prepared_for en) keys) c"
    and pr: "prepareStoreEntries v x en res (map (prepared_for en) keys) c1 = (err, ps, c2)"
    and run: "(result, c3) = (case err of Some err \<Rightarrow> (Some err, discardPreparedStore v cd en ps c2) | None \<Rightarrow> publish_all v cd en ps c2)"
  shows "store_result v x en res keys c result c3 \<and> phashedKey ` set ps = hashKey ` set keys \<and> (\<forall>j. active c3 j \<longrightarrow> j \<in> hashKey ` set keys \<or> active c j)"
proof -
  note b = begun_store [OF l free d c1]
  obtain err0 where pa: "prepare_all v x en res (expectedBodySize (rheader res)) (map (prepared_for en) keys) c1 = (err0, ps, c2)"
    and err: "err = None \<Longrightarrow> err0 = None"
    using pr by (auto simp: prepareStoreEntries_def Let_def split: prod.splits if_splits)
  have spec: "prep_spec v x res (map (prepared_for en) keys) c1 (err0 = None) ps c2" using prepare_list [OF v _ _ pa] b by blast
  have t: "targets_of en keys ps" using targets_of_same [OF prepared_for_targets] spec unfolding prep_spec_def by blast
  have c2: "ledger_ok c2" "same_setup c c2" "staleMap c2 = staleMap c" "active c2 = active c1" "diskRoot c2 = diskRoot c" "cfg c2 = cfg c"
    using spec b by (simp_all add: prep_spec_def prep_frame_def same_setup_def)
  have st: "list_all in_staging (staged_files ps)" and disk: "diskRoot c \<longrightarrow> list_all none_published ps" using spec b by (simp_all add: prep_spec_def)
  have kept: "list_all none_published ps \<Longrightarrow> kept_all v keys c c2" using unpublished_kept [OF spec] b by blast
  have "store_result v x en res keys c result c3 \<and> (\<forall>j. active c3 j \<longrightarrow> active c2 j)"
  proof (cases err)
    case (Some x0)
    then show ?thesis using run store_given_up [OF v t d clock c2(1,2) st kept disk] by simp
  next
    case None
    have pe: "list_all (\<lambda>p. prepared_entry v x res c2 p (fs c2)) ps" and tm: "diskRoot c2 \<longrightarrow> distinct (temps ps)"
      using spec err [OF None] prepared_entry_cong [of c2 c1 v x res] c2 b by (simp_all add: prep_spec_def)
    have pub: "publish_all v cd en ps c2 = (result, c3)" using run None by simp
    have "kept_all v keys c c3" if "kept_all v keys c2 c3" "diskRoot c2" using kept disk that c2(5) by (simp add: kept_all_def)
    with publish_spec [OF v c2(1) t d clock pe tm st pub] c2 show ?thesis by (auto simp: publish_result_def store_result_def same_setup_def)
  qed
  moreover have "phashedKey ` set ps = hashKey ` set keys" using t unfolding targets_of_def by (metis list.set_map)
  ultimately show ?thesis using b c2(4) by auto
qed

lemma store_released:
  fixes ps :: "preparedCacheEntry list"
  assumes "store_result v x en res keys c result c3" and c': "c' = foldl (\<lambda>c p. releaseReservation (phashedKey p) c) c3 ps"
  shows "store_result v x en res keys c result c' \<and> (\<forall>j. active c' j \<longleftrightarrow> active c3 j \<and> j \<notin> phashedKey ` set ps)"
proof -
  have "ledger_ok c3" using assms(1) by (simp add: store_result_def)
  note rel = release_all [OF this, of ps, folded c']
  have same: "entry_files v key c' = entry_files v key c3" "entry_size c' k = entry_size c3 k"
    "entryStoredAt k c' = entryStoredAt k c3" "StaleAt c' key = StaleAt c3 key" for key k
    using rel by (simp_all add: entry_files_def entry_size_def entryStoredAt_def StaleAt_def)
  have "published_all v x (Integrity (cfg c)) en res keys c3 \<Longrightarrow> published_all v x (Integrity (cfg c)) en res keys c'"
    "kept_all v keys c c3 \<Longrightarrow> kept_all v keys c c'" "dropped_all v en keys c3 \<Longrightarrow> dropped_all v en keys c'"
    using same rel by (simp_all add: published_all_def kept_all_def dropped_all_def out_of_use_def)
  then show ?thesis using assms(1) rel by (auto simp: store_result_def same_setup_def)
qed

lemma store_outcome:
  assumes v: "vfs_laws v" and l: "ledger_ok c" and free: "\<And>key. key \<in> set keys \<Longrightarrow> \<not> active c (hashKey key)"
    and clock: "\<And>key. 0 < clockDiscard en key"
    and r: "StoreContext v x cd e en res keys c = (result, c')"
  defines "unique \<equiv> fst (lockStoreKeys keys)"
  shows "ledger_ok c' \<and> same_setup c c' \<and> (\<forall>key \<in> set keys. \<not> active c' (hashKey key)) \<and> (\<forall>j. active c' j \<longrightarrow> active c j)
    \<and> (result = None \<longrightarrow> responseSuperseded e res unique c \<and> c' = c
        \<or> published_all v x (Integrity (cfg c)) en res unique c' \<and> staleMap c' = staleMap c)
    \<and> (result \<noteq> None \<longrightarrow> kept_all v unique c c' \<or> dropped_all v en unique c' \<and> (diskRoot c \<longrightarrow> result = Some PublishFailed))"
proof -
  have u: "unique = uniqueKeys [] keys" by (simp add: unique_def lockStoreKeys_def Let_def)
  have d: "distinct (map hashKey unique)" and hk: "hashKey ` set unique = hashKey ` set keys" "set unique \<subseteq> set keys"
    using uniqueKeys_spec [of "[]" keys] by (simp_all add: u)
  show ?thesis
  proof (cases "polled en Entered \<or> keys = [] \<or> polled en Locked \<or> responseSuperseded e res unique c")
    case True
    then have "c' = c" "result = None \<longrightarrow> responseSuperseded e res unique c \<or> keys = []"
      using r by (auto simp: StoreContext_def unique_def Let_def split: if_splits)
    then show ?thesis using l free by (auto simp: kept_all_def published_all_def u same_setup_def)
  next
    case False
    obtain err ps c2 where pr: "prepareStoreEntries v x en res (map (prepared_for en) unique) (begin_all (map (prepared_for en) unique) c) = (err, ps, c2)"
      by (metis prod_cases3)
    obtain c3 where run: "(result, c3) = (case err of Some err \<Rightarrow> (Some err, discardPreparedStore v cd en ps c2)
        | None \<Rightarrow> publish_all v cd en ps c2)" and c': "c' = foldl (\<lambda>c p. releaseReservation (phashedKey p) c) c3 (rev ps)"
      using r False pr by (auto simp: StoreContext_def unique_def [symmetric] begin_all_def Let_def split: prod.splits)
    have free1: "\<not> active c (hashKey key)" if "key \<in> set unique" for key using free hk(2) that by blast
    note ran = store_run [OF v l free1 d clock refl pr run]
    note rel = store_released [OF conjunct1 [OF ran] c']
    have "\<not> active c' (hashKey key)" if "key \<in> set keys" for key
      using rel ran hk(1) that by auto
    moreover have "active c' j \<longrightarrow> active c j" for j using rel ran by auto
    ultimately show ?thesis using rel by (auto simp: store_result_def)
  qed
qed

text \<open>
  C2: a store is a transaction on its targets. If it reports success, every target holds the new
  body and the new header record and is accounted with their size; if it fails, then either every
  target still holds what it held before, or every target is out of use: its files are gone, or a
  marker at least as late as the failure governs them. On a disk cache only a failure of the
  final renames can have the second effect. No reservation is left behind, the ledger stays exact
  and the configuration is not touched.
\<close>

theorem store_is_transaction:
  assumes v: "vfs_laws v" and l: "ledger_ok c" and free: "\<And>key. key \<in> set keys \<Longrightarrow> \<not> active c (hashKey key)"
    and clock: "\<And>key. 0 < clockDiscard en key"
    and r: "StoreContext v x cd e en res keys c = (result, c')"
  defines "unique \<equiv> fst (lockStoreKeys keys)"
  shows "ledger_ok c' \<and> same_setup c c' \<and> (\<forall>key \<in> set keys. \<not> active c' (hashKey key))
    \<and> (result = None \<longrightarrow> responseSuperseded e res unique c \<and> c' = c
        \<or> published_all v x (Integrity (cfg c)) en res unique c' \<and> staleMap c' = staleMap c)
    \<and> (result \<noteq> None \<longrightarrow> kept_all v unique c c' \<or> dropped_all v en unique c' \<and> (diskRoot c \<longrightarrow> result = Some PublishFailed))"
  unfolding unique_def using store_outcome [OF v l free clock r] by blast

definition quiet :: storeenv where
  \<comment> \<open>nothing is cancelled, refused or broken\<close>
  "quiet = \<lparr>polled = \<lambda>_. False, cut = \<lambda>_. None, lease_for = \<lambda>_. NoBudget, seekFails = \<lambda>_. False,
     clockAt = \<lambda>_. 7, clockTrack = \<lambda>_. 8, clockDiscard = \<lambda>_. 9\<rparr>"

definition example_response :: resource where
  "example_response = NewResource 200 ''hi'' [(''Content-Length'', [''2''])]"

definition example_store :: "bool \<Rightarrow> cache_error option \<times> (string, string) gomap cache" where
  "example_store disk = StoreContext mem_vfs plain_recenv line_codec seconds_env quiet example_response [''k''] (empty_cache [] disk DefaultCacheConfig)"

lemma example_store_succeeds: "fst (example_store True) = None" "fst (example_store False) = None"
  by code_simp+

lemma store_is_transaction_witness:
  "published_all mem_vfs plain_recenv IntegrityDisabled quiet example_response [''k''] (snd (example_store True))"
proof -
  let ?c = "empty_cache [] True DefaultCacheConfig :: (string, string) gomap cache"
  have r: "StoreContext mem_vfs plain_recenv line_codec seconds_env quiet example_response [''k''] ?c = (None, snd (example_store True))"
    using example_store_succeeds(1) unfolding example_store_def by (metis prod.collapse)
  have "\<not> responseSuperseded seconds_env example_response [''k''] ?c" by code_simp
  moreover have "fst (lockStoreKeys [''k'']) = [''k'']" by (simp add: lockStoreKeys_def Let_def)
  moreover have "Integrity (cfg ?c) = IntegrityDisabled" by code_simp
  ultimately show ?thesis
    using store_is_transaction [OF mem_vfs_laws empty_ledger_ok _ _ r]
    by (simp add: quiet_def active_def empty_cache_def)
qed

end
