(* ===== verification/Retrieve.thy ===== *)
theory Retrieve
  imports Store
begin

text \<open>
  Reading entries (\<^verbatim>\<open>retrieve\<close>, \<^verbatim>\<open>header\<close> and \<^verbatim>\<open>readHeaderProvenance\<close> of \<^verbatim>\<open>src/cache.go\<close>), what happens to
  corrupt ones (\<^verbatim>\<open>discardCorrupt\<close> and \<^verbatim>\<open>integrityResult\<close> of \<^verbatim>\<open>src/integrity.go\<close>), purging, and the scan
  that rebuilds the ledger when a cache is opened.

  A body that opens is taken with its contents: the constructors ask for readers that keep their
  contents when the path is rewritten.
\<close>

subsection \<open>Header records\<close>

definition headerRecordTerminator :: string where
  "headerRecordTerminator = crlf @ crlf"

definition readHeaderProvenance ::
  "'fs vfs \<Rightarrow> recenv \<Rightarrow> string \<Rightarrow> string \<Rightarrow> bool \<Rightarrow> 'fs cache
    \<Rightarrow> cache_error + (Header \<times> time \<times> integrityRecord option \<times> (int option \<times> string))" where
  "readHeaderProvenance v x path key checkKey c =
     (case vRead v path (fs c) of
        Inl NotExist \<Rightarrow> Inl NotFoundInCache
      | Inl OtherError \<Rightarrow> Inl OpenFailed
      | Inr raw \<Rightarrow>
        if \<not> suffix headerRecordTerminator raw then Inl NotFoundInCache
        else case decodeIntegrityRecord x raw key (Integrity (cfg c) \<noteq> IntegrityDisabled) checkKey of
          Inl fault \<Rightarrow> Inl (CorruptEntry fault)
        | Inr meta \<Rightarrow>
          case readStoredHeaders x raw of
            Inl err \<Rightarrow> Inl (case meta of Some m \<Rightarrow> CorruptEntry (mfingerprint m, BadHeaderRecord) | None \<Rightarrow> HeaderError err)
          | Inr (h, at) \<Rightarrow>
            if diskRoot c
            then (case vFileId v path (fs c) of Inl _ \<Rightarrow> Inl OpenFailed | Inr i \<Rightarrow> Inr (h, at, meta, (Some i, sha256Text x raw)))
            else Inr (h, at, meta, (None, sha256Text x raw)))"

definition discardCorrupt :: "'fs vfs \<Rightarrow> recenv \<Rightarrow> time \<Rightarrow> string \<Rightarrow> corruptEntryError \<Rightarrow> 'fs cache \<Rightarrow> 'fs cache" where
  "discardCorrupt v x now key fault c =
     (let hashed = hashKey key in
      case vRead v (headerPath hashed) (fs c) of Inl _ \<Rightarrow> c
      | Inr raw \<Rightarrow>
        if sha256Text x raw \<noteq> fst fault then c
        else let sz = int (length raw) + (case vSize v (bodyPath hashed) (fs c) of Inl _ \<Rightarrow> 0 | Inr n \<Rightarrow> n)
             in snd (discardUnadmitted v now key hashed sz 0 c))"

definition integrityResult :: "'fs vfs \<Rightarrow> recenv \<Rightarrow> time \<Rightarrow> string \<Rightarrow> bool \<Rightarrow> (cache_error + 'a) \<times> 'fs cache \<Rightarrow> (cache_error + 'a) \<times> 'fs cache" where
  "integrityResult v x now key record_it = (\<lambda>(r, c). case r of
     Inl (CorruptEntry fault) \<Rightarrow>
       let c = discardCorrupt v x now key fault c in (Inl NotFoundInCache, if record_it then recordMiss c else c)
   | _ \<Rightarrow> (r, c))"

definition header :: "'fs vfs \<Rightarrow> recenv \<Rightarrow> string \<Rightarrow> 'fs cache \<Rightarrow> cache_error + Header" where
  "header v x key c =
     (let hashed = hashKey key in
      case readHeaderProvenance v x (headerPath hashed) key True c of
        Inl err \<Rightarrow> Inl err
      | Inr (h, at, None, proof_of) \<Rightarrow> Inr h
      | Inr (h, at, Some meta, proof_of) \<Rightarrow>
        (case vRead v (bodyPath hashed) (fs c) of
           Inl NotExist \<Rightarrow> Inl (CorruptEntry (mfingerprint meta, BodyMissing))
         | Inl OtherError \<Rightarrow> Inl OpenFailed
         | Inr body \<Rightarrow> (case verifyStoredBody x body meta (mfingerprint meta) of
             Some fault \<Rightarrow> Inl (CorruptEntry fault) | None \<Rightarrow> Inr h)))"

definition cache_Header :: "'fs vfs \<Rightarrow> recenv \<Rightarrow> time \<Rightarrow> string \<Rightarrow> 'fs cache \<Rightarrow> (cache_error + Header) \<times> 'fs cache" where
  "cache_Header v x now key c = integrityResult v x now key True (header v x key c, c)"

subsection \<open>Retrieval\<close>

definition retrieve :: "'fs vfs \<Rightarrow> recenv \<Rightarrow> goenv \<Rightarrow> time \<Rightarrow> bool \<Rightarrow> string \<Rightarrow> 'fs cache \<Rightarrow> (cache_error + resource) \<times> 'fs cache" where
  "retrieve v x e now record_it key c =
     (let k = hashKey key; missed = (if record_it then recordMiss c else c) in
      case vRead v (bodyPath k) (fs c) of
        Inl NotExist \<Rightarrow> (Inl NotFoundInCache, missed)
      | Inl OtherError \<Rightarrow> (Inl OpenFailed, c)
      | Inr body \<Rightarrow>
        case readHeaderProvenance v x (headerPath k) key True c of
          Inl err \<Rightarrow> (Inl err, if err = NotFoundInCache then missed else c)
        | Inr (h, persistedAt, meta, pr) \<Rightarrow>
          (case (case meta of None \<Rightarrow> None | Some m \<Rightarrow> verifyStoredBody x body m (mfingerprint m)) of
             Some fault \<Rightarrow> (Inl (CorruptEntry fault), c)
           | None \<Rightarrow>
             let res = NewResource (hStatusCode h) body (hHeader h);
                 res = SetStoredAt res (if isZero persistedAt then entryStoredAt k c else persistedAt);
                 res = res\<lparr>storedKey := key, storageGeneration := entryGeneration k c, storageRecord := Some pr\<rparr>;
                 res = (case StaleAt c key of None \<Rightarrow> res | Some staleTime \<Rightarrow> if \<not> StoredAfter e res staleTime then MarkStale res else res);
                 c = touchEntry now k c
             in (Inr res, if record_it then recordHit c else c)))"

definition retrieveRecorded :: "'fs vfs \<Rightarrow> recenv \<Rightarrow> goenv \<Rightarrow> time \<Rightarrow> string \<Rightarrow> bool \<Rightarrow> 'fs cache \<Rightarrow> (cache_error + resource) \<times> 'fs cache" where
  "retrieveRecorded v x e now key record_it c = integrityResult v x now key record_it (retrieve v x e now record_it key c)"

definition cache_Retrieve :: "'fs vfs \<Rightarrow> recenv \<Rightarrow> goenv \<Rightarrow> time \<Rightarrow> string \<Rightarrow> 'fs cache \<Rightarrow> (cache_error + resource) \<times> 'fs cache" where
  "cache_Retrieve v x e now key c = retrieveRecorded v x e now key True c"

definition RetrieveForRecheck :: "'fs vfs \<Rightarrow> recenv \<Rightarrow> goenv \<Rightarrow> time \<Rightarrow> string \<Rightarrow> 'fs cache \<Rightarrow> (cache_error + resource) \<times> 'fs cache" where
  "RetrieveForRecheck v x e now key c = retrieveRecorded v x e now key False c"

subsection \<open>Purging and opening\<close>

definition Purge :: "'fs vfs \<Rightarrow> codec \<Rightarrow> 'fs cache \<Rightarrow> bool \<times> 'fs cache" where
  \<comment> \<open>the flag says that an entry could not be removed\<close>
  "Purge v cd c =
     (let (gone, left, c) = sweep v (\<lambda>_. True) (\<lambda>_ _. Take) (lruList c) c in
      if left then (True, c)
      else let c = c\<lparr>staleMap := []\<rparr> in (False, persistStale v cd (snapshotStaleLocked c) c))"

definition scanned_entry :: "'fs vfs \<Rightarrow> recenv \<Rightarrow> string \<Rightarrow> int \<Rightarrow> time \<Rightarrow> 'fs cache \<Rightarrow> cacheEntry" where
  "scanned_entry v x hashedKey bytes modified c =
     (let entry = \<lparr>ekey = hashedKey, ehashedKey = hashedKey, esize = bytes, estoredAt = modified, eaccessedAt = modified,
            egeneration = Some (nextGeneration c)\<rparr> in
      case (vSize v (headerPath hashedKey) (fs c), vModTime v (headerPath hashedKey) (fs c)) of
        (Inr n, Inr m) \<Rightarrow>
          let entry = entry\<lparr>esize := bytes + n, estoredAt := m, eaccessedAt := m\<rparr>
          in (case readHeaderProvenance v x (headerPath hashedKey) hashedKey False c of
                Inr (_, at, _) \<Rightarrow> if isZero at then entry else entry\<lparr>estoredAt := at, eaccessedAt := at\<rparr>
              | Inl _ \<Rightarrow> entry)
      | _ \<Rightarrow> entry)"

definition scan_file :: "'fs vfs \<Rightarrow> recenv \<Rightarrow> 'fs cache \<Rightarrow> string \<times> bool \<Rightarrow> 'fs cache" where
  \<comment> \<open>one entry of the directory; \<^verbatim>\<open>ReadDir\<close> delivers size and time with the name\<close>
  "scan_file v x c = (\<lambda>(n, dir).
     if dir then c
     else case (vSize v (bodyPath n) (fs c), vModTime v (bodyPath n) (fs c)) of
       (Inr bytes, Inr modified) \<Rightarrow>
         let entry = scanned_entry v x n bytes modified c
         in c\<lparr>lruList := lruList c @ [n], lruIndex := AList.update n entry (lruIndex c), totalSize := totalSize c + esize entry,
              nextGeneration := nextGeneration c + 1\<rparr>
     | _ \<Rightarrow> c)"

definition scanExistingCache :: "'fs vfs \<Rightarrow> recenv \<Rightarrow> 'fs cache \<Rightarrow> 'fs cache" where
  "scanExistingCache v x c =
     (case vReadDir v (bodyPrefix @ formatPrefix) (fs c) of Inl _ \<Rightarrow> c | Inr files \<Rightarrow> foldl (scan_file v x) c files)"

definition newVFSCacheWithConfig :: "'fs vfs \<Rightarrow> recenv \<Rightarrow> codec \<Rightarrow> time \<Rightarrow> 'fs \<Rightarrow> CacheConfig \<Rightarrow> bool \<Rightarrow> 'fs cache" where
  "newVFSCacheWithConfig v x cd now s config disk =
     loadStale v cd now (scanExistingCache v x (sweepStaging v (empty_cache s disk config)))"

subsection \<open>Reading back what was stored\<close>

definition stat_law :: "'fs vfs \<Rightarrow> bool" where
  \<comment> \<open>a file that can be read can be examined, and its size is the number of its bytes\<close>
  "stat_law v \<longleftrightarrow> (\<forall>p s d. vRead v p s = Inr d \<longrightarrow> vSize v p s = Inr (int (length d)) \<and> (\<exists>t. vModTime v p s = Inr t) \<and> (\<exists>i. vFileId v p s = Inr i))"

lemma mem_stat_law: "stat_law mem_vfs"
  by (auto simp: stat_law_def mem_vfs_def)

lemma record_terminated: "suffix headerRecordTerminator (y @ status_line x status @ headersToWriter h)"
proof -
  have "\<exists>z. status_line x status @ concat (map (\<lambda>(n, v). n @ '': '' @ v @ crlf) ls) = z @ crlf" for ls :: "(string \<times> string) list"
    by (cases ls rule: rev_cases) (auto simp: status_line_def)
  then obtain z where z: "status_line x status @ concat (map (\<lambda>(n, v). n @ '': '' @ v @ crlf) (header_lines h)) = z @ crlf" by blast
  have "y @ status_line x status @ headersToWriter h
      = y @ (status_line x status @ concat (map (\<lambda>(n, v). n @ '': '' @ v @ crlf) (header_lines h))) @ crlf"
    by (simp add: headersToWriter_def)
  also have "\<dots> = (y @ z) @ headerRecordTerminator" by (simp only: z) (simp add: headerRecordTerminator_def)
  finally show ?thesis by (metis suffix_def)
qed

lemma written_terminated: "suffix headerRecordTerminator (serializeCacheHeader x mode status h at key n digest)"
  using record_terminated [of "storedAtPreamble @ FormatNano x at @ crlf" x status h] record_terminated [of "integrityPreamble @ _ @ crlf" x status h]
  by (simp add: serializeCacheHeader_def serializeStoredHeader_def serializeIntegrityHeader_def Let_def)

text \<open>What the record of an entry needs to be readable again.\<close>

definition readable_record :: "recenv \<Rightarrow> resource \<Rightarrow> string \<Rightarrow> time \<Rightarrow> bool" where
  "readable_record x res key at \<longleftrightarrow> text_laws x \<and> time_law x at \<and> \<not> isZero at
     \<and> meta_law x (sealed_meta x (statusCode res) (rheader res)
         (entry_meta x at key (int (length (stored_body res))) (sha256Text x (stored_body res))))
     \<and> int64 (statusCode res) \<and> storable (rheader res) \<and> canonical (rheader res)"

definition read_header :: "resource \<Rightarrow> header" where
  "read_header res = foldl collect_line [] (header_lines (rheader res))"

lemma read_record:
  assumes "readable_record x res key at" "stat_law v" "vRead v path (fs c) = Inr (stored_record x (Integrity (cfg c)) res key at)"
  shows "\<exists>meta pr. readHeaderProvenance v x path key True c = Inr (\<lparr>hHeader = read_header res, hStatusCode = statusCode res\<rparr>, at, meta, pr)
    \<and> (\<forall>m. meta = Some m \<longrightarrow> verifyStoredBody x (stored_body res) m (mfingerprint m) = None)"
proof -
  let ?mode = "Integrity (cfg c)" and ?raw = "stored_record x (Integrity (cfg c)) res key at"
  let ?m = "entry_meta x at key (int (length (stored_body res))) (sha256Text x (stored_body res))"
  note ok = assms(1) [unfolded readable_record_def]
  have dig: "validDigest (sha256Text x s)" for s using ok by (simp add: text_laws_def)
  have sfx: "suffix headerRecordTerminator ?raw" by (simp add: stored_record_def written_terminated)
  have rd: "readStoredHeaders x ?raw = Inr (\<lparr>hHeader = read_header res, hStatusCode = statusCode res\<rparr>, at)"
    using read_stored_header [of x at "statusCode res" "rheader res"] read_integrity_header [of x "statusCode res" "rheader res" ?m] ok
    by (cases ?mode) (simp_all add: stored_record_def serialize_sealed read_header_def)
  have dec: "\<exists>meta. decodeIntegrityRecord x ?raw key (?mode \<noteq> IntegrityDisabled) True = Inr meta
      \<and> (\<forall>m. meta = Some m \<longrightarrow> verifyStoredBody x (stored_body res) m (mfingerprint m) = None)"
  proof (cases ?mode)
    case IntegrityDisabled
    have "\<not> prefix integrityPreamble ?raw"
      by (simp add: stored_record_def IntegrityDisabled serialize_sealed serializeStoredHeader_def integrityPreamble_def storedAtPreamble_def)
    then show ?thesis by (simp add: IntegrityDisabled decodeIntegrityRecord_def)
  next
    case IntegritySHA256
    have "decodeIntegrity x (serializeIntegrityHeader x (statusCode res) (rheader res) ?m) key True
        = Inr (Some ((sealed_meta x (statusCode res) (rheader res) ?m)\<lparr>mfingerprint := sha256Text x
            (serializeIntegrityHeader x (statusCode res) (rheader res) ?m)\<rparr>))"
      by (rule decode_written) (use ok dig in simp_all)
    then show ?thesis
      by (simp add: IntegritySHA256 stored_record_def serialize_sealed decodeIntegrity_def verifyStoredBody_def sealed_meta_def)
  qed
  obtain i where "vFileId v path (fs c) = Inr i" using assms(2,3) unfolding stat_law_def by blast
  then show ?thesis using dec rd sfx assms(3) by (auto simp: readHeaderProvenance_def)
qed

text \<open>What a retrieval of \<open>res\<close>, stored under \<open>key\<close> at \<open>at\<close>, delivers.\<close>

definition delivers :: "resource \<Rightarrow> string \<Rightarrow> time \<Rightarrow> time option \<Rightarrow> resource \<Rightarrow> bool" where
  "delivers res key at marker got \<longleftrightarrow> statusCode got = statusCode res \<and> rbody got = stored_body res \<and> storedAt got = at \<and> storedKey got = key
     \<and> (\<forall>name. header_at (rheader got) name = (if valid_name name then map clean_value (header_at (rheader res) name) else []))
     \<and> (stale got \<longleftrightarrow> (\<exists>t. marker = Some t \<and> at \<le> t))"

lemma retrieve_hit:
  assumes "stat_law v" "readable_record x res key at"
    and f: "entry_files v key c = (Inr (stored_body res), Inr (stored_record x (Integrity (cfg c)) res key at))"
  shows "\<exists>got c'. cache_Retrieve v x e now key c = (Inr got, c') \<and> hitCount c' = hitCount c + 1 \<and> delivers res key at (StaleAt c key) got"
proof -
  let ?k = "hashKey key"
  have f: "vRead v (bodyPath ?k) (fs c) = Inr (stored_body res)"
    "vRead v (headerPath ?k) (fs c) = Inr (stored_record x (Integrity (cfg c)) res key at)"
    using f by (simp_all add: entry_files_def)
  obtain meta pr where h: "readHeaderProvenance v x (headerPath ?k) key True c
      = Inr (\<lparr>hHeader = read_header res, hStatusCode = statusCode res\<rparr>, at, meta, pr)"
    and m: "meta = Some m \<Longrightarrow> verifyStoredBody x (stored_body res) m (mfingerprint m) = None" for m
    using read_record [OF assms(2,1) f(2)] by blast
  have at: "\<not> isZero at" and can: "canonical (rheader res)" using assms(2) by (simp_all add: readable_record_def)
  have ver: "(case meta of None \<Rightarrow> None | Some m \<Rightarrow> verifyStoredBody x (stored_body res) m (mfingerprint m)) = None"
    using m by (cases meta) simp_all
  have hit: "hitCount (touchEntry now ?k c) = hitCount c" by (simp add: touchEntry_def split: option.split)
  show ?thesis
    using collected_header [OF can] at
    by (simp add: delivers_def cache_Retrieve_def retrieveRecorded_def integrityResult_def retrieve_def f(1) h ver Let_def
        NewResource_def SetStoredAt_def MarkStale_def StoredAfter_def recordHit_def read_header_def hit
        split: option.split)
qed

text \<open>
  C5: a stored response can be retrieved. After a store that reports success and was not superseded,
  retrieving any of its target keys is a hit: it returns the status, the body that was stored, under
  every field name the stored lines and the time of storage, and it is marked stale exactly when
  the key carries a marker that is not before the time of storage.
\<close>

theorem retrieve_after_store:
  assumes v: "vfs_laws v" "stat_law v" and l: "ledger_ok c" and free: "\<And>key. key \<in> set keys \<Longrightarrow> \<not> active c (hashKey key)"
    and clock: "\<And>key. 0 < clockDiscard en key"
    and r: "StoreContext v x cd e en res keys c = (None, c')" "\<not> responseSuperseded e res (fst (lockStoreKeys keys)) c"
    and key: "key \<in> set (fst (lockStoreKeys keys))" and ok: "readable_record x res key (clockAt en key)"
  shows "\<exists>got c''. cache_Retrieve v x e now key c' = (Inr got, c'') \<and> hitCount c'' = hitCount c' + 1
    \<and> delivers res key (clockAt en key) (StaleAt c key) got"
proof -
  have st: "published_all v x (Integrity (cfg c)) en res (fst (lockStoreKeys keys)) c'" "staleMap c' = staleMap c" "cfg c' = cfg c"
    using store_outcome [OF v(1) l free clock r(1)] r(2) by (auto simp: same_setup_def)
  have "entry_files v key c' = (Inr (stored_body res), Inr (stored_record x (Integrity (cfg c')) res key (clockAt en key)))"
    using st key by (simp add: published_all_def)
  from retrieve_hit [OF v(2) ok this] st(2) show ?thesis by (simp add: StaleAt_def)
qed

subsection \<open>Truncated records\<close>

lemma clean_value_no_cr: "CR \<notin> set (clean_value v)"
  using set_trim_by [of ascii_space "map (\<lambda>c. if c = LF \<or> c = CR then CHR '' '' else c) v"] by (auto simp: clean_value_def)

lemma blank_line_last:
  assumes "list_all (\<lambda>l. l \<noteq> [] \<and> CR \<notin> set l) ls" "q @ crlf @ crlf @ t = concat (map (\<lambda>l. l @ crlf) ls) @ crlf"
  shows "t = []"
  using assms
proof (induction ls arbitrary: q)
  case Nil
  then have "length (q @ crlf @ crlf @ t) = length crlf" by simp
  then show ?case by (simp add: crlf_def)
next
  case (Cons l ls)
  let ?rest = "concat (map (\<lambda>l. l @ crlf) ls) @ crlf"
  have l: "l \<noteq> []" "CR \<notin> set l" and ls: "list_all (\<lambda>l. l \<noteq> [] \<and> CR \<notin> set l) ls" using Cons.prems(1) by simp_all
  have "q @ crlf @ crlf @ t = l @ crlf @ ?rest" using Cons.prems(2) by simp
  then consider us where "q = l @ us" "us @ crlf @ crlf @ t = crlf @ ?rest"
    | us where "l = q @ us" "crlf @ crlf @ t = us @ crlf @ ?rest"
    unfolding append_eq_append_conv2 [of q _ l] by blast
  then show ?case
  proof cases
    case 1
    show ?thesis
    proof (cases us)
      case Nil
      then have "crlf @ t = ?rest" using 1(2) by (simp add: crlf_def)
      then show ?thesis using ls by (cases ls) (auto simp: crlf_def Cons_eq_append_conv)
    next
      case (Cons a us1)
      then obtain us2 where "us = crlf @ us2" using 1(2) by (cases us1) (auto simp: crlf_def)
      then have "us2 @ crlf @ crlf @ t = ?rest" using 1(2) by (simp add: crlf_def)
      then show ?thesis by (rule Cons.IH [OF ls])
    qed
  next
    case 2
    have "us = []" using 2 l(2) by (cases us) (auto simp: crlf_def)
    then have "crlf @ t = ?rest" using 2(2) by (simp add: crlf_def)
    then show ?thesis using ls by (cases ls) (auto simp: crlf_def Cons_eq_append_conv)
  qed
qed

definition record_lines :: "recenv \<Rightarrow> string \<Rightarrow> int \<Rightarrow> header \<Rightarrow> string list" where
  "record_lines x preamble status h = preamble # (''HTTP/1.1 '' @ Itoa status @ '' '' @ StatusText x status)
     # map (\<lambda>(n, v). n @ '': '' @ v) (header_lines h)"

lemma record_as_lines: "preamble @ crlf @ status_line x status @ headersToWriter h
    = concat (map (\<lambda>l. l @ crlf) (record_lines x preamble status h)) @ crlf"
  by (simp add: record_lines_def status_line_def headersToWriter_def comp_def case_prod_unfold)

lemma record_lines_ok:
  assumes "CR \<notin> set preamble" "preamble \<noteq> []" "CR \<notin> set (StatusText x status)"
  shows "list_all (\<lambda>l. l \<noteq> [] \<and> CR \<notin> set l) (record_lines x preamble status h)"
proof -
  have "CR \<notin> set n" "CR \<notin> set v" if "(n, v) \<in> set (header_lines h)" for n v
    using that valid_name_bytes clean_value_no_cr by (auto simp: header_lines_def)
  then show ?thesis
    using assms Itoa_no [of CR] not_digits by (auto simp: record_lines_def list_all_iff)
qed

text \<open>
  C31: a record that was cut short is not an error. Whatever proper part of a header record a reader
  finds, it reports that nothing is stored, as for an entry that was never written: no proper
  prefix of a record ends with the blank line that ends the record.
\<close>

theorem truncated_record_is_a_miss:
  assumes "text_laws x" "CR \<notin> set (StatusText x status)" "CR \<notin> set (FormatNano x at)"
    and "strict_prefix raw (serializeCacheHeader x mode status h at key n digest)" "vRead v path (fs c) = Inr raw"
  shows "readHeaderProvenance v x path key' checkKey c = Inl NotFoundInCache"
proof -
  let ?m = "sealed_meta x status h (entry_meta x at key n digest)"
  have pre: "CR \<notin> set integrityPreamble" "CR \<notin> set storedAtPreamble" "integrityPreamble \<noteq> []" "storedAtPreamble \<noteq> []"
    by code_simp+
  obtain preamble where p: "CR \<notin> set preamble" "preamble \<noteq> []"
    "serializeCacheHeader x mode status h at key n digest = preamble @ crlf @ status_line x status @ headersToWriter h"
  proof (cases mode)
    case IntegrityDisabled
    with that [of "storedAtPreamble @ FormatNano x at"] pre assms(3) show ?thesis
      by (simp add: serialize_sealed serializeStoredHeader_def)
  next
    case IntegritySHA256
    with that [of "integrityPreamble @ base64Encode x (MarshalMeta x ?m)"] pre assms(1) show ?thesis
      by (simp add: serialize_sealed serializeIntegrityHeader_def sealed_meta_def text_laws_def Let_def)
  qed
  have "\<not> suffix headerRecordTerminator raw"
  proof
    assume "suffix headerRecordTerminator raw"
    then obtain q where q: "raw = q @ crlf @ crlf" by (auto simp: suffix_def headerRecordTerminator_def)
    obtain t where t: "serializeCacheHeader x mode status h at key n digest = raw @ t" "t \<noteq> []"
      using assms(4) by (auto simp: strict_prefix_def prefix_def)
    have "q @ crlf @ crlf @ t = concat (map (\<lambda>l. l @ crlf) (record_lines x preamble status h)) @ crlf"
      using q t(1) p(3) record_as_lines [of preamble x status h] by simp
    with blank_line_last [OF record_lines_ok [OF p(1,2) assms(2)]] t(2) show False by blast
  qed
  then show ?thesis using assms(5) by (simp add: readHeaderProvenance_def)
qed

subsection \<open>Corrupt entries\<close>

lemma removeEntry_counts: "missCount (snd (removeEntry v entry c)) = missCount c"
  by (cases "remove_files v (ehashedKey entry) (fs c)") (simp add: removeEntry_def Let_def)

lemma discard_counts: "missCount (snd (discardUnadmitted v now key k sz at c)) = missCount c"
proof (cases "map_of (lruIndex c) k")
  case None
  then show ?thesis by (cases "remove_files v k (fs c)") (simp add: discardUnadmitted_def Let_def)
next
  case (Some entry)
  then show ?thesis
    using removeEntry_counts [of v entry c] by (cases "removeEntry v entry c") (simp add: discardUnadmitted_def Let_def)
qed

lemma discardCorrupt_gone:
  fixes now :: time
  assumes "vfs_laws v" "ledger_ok c" "vRead v (headerPath (hashKey key)) (fs c) = Inr raw" "fst fault = sha256Text x raw"
    and "\<not> fst (remove_files v (hashKey key) (fs c))"
  defines "c' \<equiv> discardCorrupt v x now key fault c"
  shows "entry_files v key c' = (Inl NotExist, Inl NotExist) \<and> map_of (lruIndex c') (hashKey key) = None \<and> ledger_ok c'"
proof -
  let ?k = "hashKey key"
  let ?n = "int (length raw) + (case vSize v (bodyPath ?k) (fs c) of Inl _ \<Rightarrow> 0 | Inr n \<Rightarrow> n)"
  obtain err c1 where d: "discardUnadmitted v now key ?k ?n 0 c = (err, c1)" by (rule prod.exhaust)
  have c': "c' = c1" using assms(3,4) d by (simp add: c'_def discardCorrupt_def)
  have "\<not> err"
    using d assms(5) ledger_entry [OF assms(2), of ?k]
    by (auto simp: discardUnadmitted_def removeEntry_def Let_def split: option.splits prod.splits if_splits)
  then show ?thesis
    using discard_ok(1,7) [OF assms(2) d] discard_files(2) [OF assms(1,2) d] by (simp add: c' entry_files_def)
qed

text \<open>
  C30: with integrity checks on, a body that is not the one that was stored is never handed out. Where
  the digest tells the two bodies apart, the retrieval is a miss, counts as one, and (when the
  file system lets it) removes both files and the ledger entry.
\<close>

theorem altered_body_is_a_miss:
  assumes v: "vfs_laws v" "stat_law v" and l: "ledger_ok c" and mode: "Integrity (cfg c) = IntegritySHA256"
    and f: "entry_files v key c = (Inr body, Inr (stored_record x IntegritySHA256 res key at))"
    and ok: "readable_record x res key at" and alt: "body \<noteq> stored_body res" "inj_on (sha256Text x) {body, stored_body res}"
    and rm: "\<not> fst (remove_files v (hashKey key) (fs c))"
  shows "\<exists>c'. cache_Retrieve v x e now key c = (Inl NotFoundInCache, c') \<and> missCount c' = missCount c + 1
    \<and> entry_files v key c' = (Inl NotExist, Inl NotExist) \<and> map_of (lruIndex c') (hashKey key) = None"
proof -
  let ?k = "hashKey key" and ?raw = "stored_record x IntegritySHA256 res key at"
  let ?m = "entry_meta x at key (int (length (stored_body res))) (sha256Text x (stored_body res))"
  let ?meta = "(sealed_meta x (statusCode res) (rheader res) ?m)\<lparr>mfingerprint := sha256Text x ?raw\<rparr>"
  note r = ok [unfolded readable_record_def]
  have body: "vRead v (bodyPath ?k) (fs c) = Inr body" and raw: "vRead v (headerPath ?k) (fs c) = Inr ?raw"
    using f by (simp_all add: entry_files_def)
  have dig: "validDigest (sha256Text x s)" for s using r by (simp add: text_laws_def)
  have "decodeIntegrity x ?raw key True = Inr (Some ?meta)"
    using decode_written [of x "statusCode res" "rheader res" ?m key True] r dig by (simp add: stored_record_def serialize_sealed)
  then have dec: "decodeIntegrityRecord x ?raw key True True = Inr (Some ?meta)" by (simp add: decodeIntegrity_def)
  have raw': "vRead v (headerPath ?k) (fs c) = Inr (stored_record x (Integrity (cfg c)) res key at)" using raw mode by simp
  obtain meta pr where h: "readHeaderProvenance v x (headerPath ?k) key True c = Inr (\<lparr>hHeader = read_header res, hStatusCode = statusCode res\<rparr>, at, meta, pr)"
    using read_record [OF ok v(2) raw'] by blast
  then have "meta = Some ?meta"
    using dec mode by (auto simp: readHeaderProvenance_def raw split: if_splits sum.splits)
  moreover have "sha256Text x body \<noteq> BodySHA256 ?meta" using alt by (auto simp: sealed_meta_def dest: inj_onD)
  ultimately have ret: "retrieve v x e now True key c = (Inl (CorruptEntry (sha256Text x ?raw, BodyMismatch)), c)"
    by (simp add: retrieve_def body h verifyStoredBody_def)
  have "missCount (discardCorrupt v x now key (sha256Text x ?raw, BodyMismatch) c) = missCount c"
    by (simp add: discardCorrupt_def discard_counts Let_def split: sum.split)
  then show ?thesis
    using discardCorrupt_gone [OF v(1) l raw, of "(sha256Text x ?raw, BodyMismatch)" x now] rm
    by (simp add: cache_Retrieve_def retrieveRecorded_def integrityResult_def ret recordMiss_def entry_files_def)
qed

text \<open>
  Without integrity checks an entry answers for every key with the same hash: two such keys
  retrieve the same status, header and body.
\<close>

lemma colliding_keys_share_entries:
  assumes "hashKey key' = hashKey key" "Integrity (cfg c) = IntegrityDisabled" "fst (retrieve v x e now rec key c) = Inr got"
    and "vRead v (headerPath (hashKey key)) (fs c) = Inr raw" "\<not> prefix integrityPreamble raw"
  shows "\<exists>got'. fst (retrieve v x e now rec key' c) = Inr got' \<and> statusCode got' = statusCode got \<and> rheader got' = rheader got
    \<and> rbody got' = rbody got \<and> storedAt got' = storedAt got \<and> storedKey got' = key' \<and> storedKey got = key"
proof -
  have same: "decodeIntegrityRecord x raw key' False b = decodeIntegrityRecord x raw key False b" for b
    using assms(5) by (simp add: decodeIntegrityRecord_def)
  have p: "readHeaderProvenance v x (headerPath (hashKey key)) key' True c = readHeaderProvenance v x (headerPath (hashKey key)) key True c"
    using assms(2,4) same by (simp add: readHeaderProvenance_def)
  show ?thesis
    using assms(3)
    by (auto simp: retrieve_def assms(1) p Let_def NewResource_def SetStoredAt_def MarkStale_def
        split: sum.splits vfs_error.splits option.splits prod.splits if_splits)
qed

subsection \<open>Purging\<close>

definition no_files :: "'fs vfs \<Rightarrow> string \<Rightarrow> 'fs \<Rightarrow> bool" where
  "no_files v k s \<longleftrightarrow> vRead v (bodyPath k) s = Inl NotExist \<and> vRead v (headerPath k) s = Inl NotExist"

lemma sweep_gone_files:
  assumes "vfs_laws v" "ledger_ok c" "sweep v go pick ks c = (gone, left, c')"
    and "k \<in> ehashedKey ` set gone \<or> (map_of (lruIndex c) k = None \<and> no_files v k (fs c))"
  shows "no_files v k (fs c')"
  using assms(2-4)
proof (induction ks arbitrary: c gone left)
  case (Cons j ks)
  show ?case
  proof (cases "go c \<and> map_of (lruIndex c) j \<noteq> None")
    case False
    then show ?thesis using Cons by (auto split: if_splits)
  next
    case True
    then obtain e where e: "map_of (lruIndex c) j = Some e" "go c" by auto
    show ?thesis
    proof (cases "pick c e")
      case Take
      obtain err c1 where r: "removeEntry v e c = (err, c1)" by (rule prod.exhaust)
      obtain gone1 left1 where sw: "sweep v go pick ks c1 = (gone1, left1, c')" and g: "gone = (if err then gone1 else e # gone1)"
        using Cons.prems(2) e Take r by (auto split: prod.splits)
      note ok = removeEntry_ok [OF Cons.prems(1) e(1) r] and f = removeEntry_files [OF assms(1) r]
      have j: "ehashedKey e = j" using ledger_entry [OF Cons.prems(1) e(1)] by simp
      have "k \<in> ehashedKey ` set gone1 \<or> (map_of (lruIndex c1) k = None \<and> no_files v k (fs c1))"
      proof (cases "k = j \<and> \<not> err")
        case True
        then show ?thesis using f(2) ok(2) j by (simp add: no_files_def go_map_simps)
      next
        case False
        then show ?thesis
          using Cons.prems(3) g j e(1) f(1) [of "bodyPath k"] f(1) [of "headerPath k"] ok(2)
          by (auto simp: no_files_def go_map_simps split: if_splits)
      qed
      from Cons.IH [OF ok(1) sw this] show ?thesis .
    next
      case Keep
      then obtain l where "sweep v go pick ks c = (gone, l, c')" using Cons.prems(2) e by (auto split: prod.splits)
      from Cons.IH [OF Cons.prems(1) this Cons.prems(3)] show ?thesis .
    next
      case Pass
      then have "sweep v go pick ks c = (gone, left, c')" using Cons.prems(2) e by simp
      from Cons.IH [OF Cons.prems(1) this Cons.prems(3)] show ?thesis .
    qed
  qed
qed simp

text \<open>
  a purge that reports success leaves an empty ledger, no marker and no file of any entry that was
  tracked; one that could not remove an entry keeps every marker, so that the residue stays stale.
\<close>

lemma purge_clears:
  assumes v: "vfs_laws v" and l: "ledger_ok c" and r: "Purge v cd c = (err, c')"
  shows "(if err then staleMap c' = staleMap c
     else lruList c' = [] \<and> totalSize c' = 0 \<and> staleMap c' = []
       \<and> (\<forall>key. map_of (lruIndex c) (hashKey key) \<noteq> None \<longrightarrow> entry_files v key c' = (Inl NotExist, Inl NotExist))) \<and> ledger_ok c'"
proof -
  obtain gone left c1 where sw: "sweep v (\<lambda>_. True) (\<lambda>_ _. Take) (lruList c) c = (gone, left, c1)" by (metis prod_cases3)
  note ok = sweep_ok [OF l sw]
  show ?thesis
  proof (cases left)
    case True
    then show ?thesis using r sw ok by (auto simp: Purge_def same_but_entries_def)
  next
    case False
    let ?c2 = "c1\<lparr>staleMap := []\<rparr>"
    have res: "\<not> err" "c' = persistStale v cd (snapshotStaleLocked ?c2) ?c2" using r sw False by (auto simp: Purge_def Let_def)
    have none: "map_of (lruIndex c1) k = None" for k
    proof (rule ccontr)
      assume "map_of (lruIndex c1) k \<noteq> None"
      then obtain e where e: "map_of (lruIndex c1) k = Some e" by blast
      then have "map_of (lruIndex c) k \<noteq> None" using ok by (metis option.distinct(1))
      then have k: "k \<in> set (lruList c)" using l by (simp add: ledger_ok_def)
      have "sweep v (\<lambda>_. True) (\<lambda>_ _. Take) (lruList c) c = (gone, False, c1)" using sw False by simp
      from sweep_complete [OF l this k e] show False by simp
    qed
    have l1: "ledger_ok c1" using ok by blast
    have "k \<notin> set (lruList c1)" for k using l1 none [of k] by (simp add: ledger_ok_def)
    then have empty: "lruList c1 = []" by (cases "lruList c1") auto
    have "lruIndex c1 = []" using none [of "fst (hd (lruIndex c1))"] by (cases "lruIndex c1") (auto split: if_splits)
    then have tot: "totalSize c1 = 0" using l1 by (simp add: ledger_ok_def msum_def)
    have "entry_files v key c' = (Inl NotExist, Inl NotExist)" if "map_of (lruIndex c) (hashKey key) \<noteq> None" for key
    proof -
      have "hashKey key \<in> ehashedKey ` set gone" using ok that none [of "hashKey key"] by metis
      then have "no_files v (hashKey key) (fs c1)" using sweep_gone_files [OF v l sw] by blast
      then show ?thesis using persist_files [OF v, of key _ cd _ ?c2] by (simp add: res entry_files_def no_files_def)
    qed
    moreover have "ledger_ok c'" by (rule ledger_ok_frame [OF l1]) (simp_all add: res)
    ultimately show ?thesis using res(1) empty tot by (simp add: res(2))
  qed
qed

subsection \<open>Opening a cache\<close>

text \<open>A directory lists a name once, and sizes are not negative.\<close>

definition dir_law :: "'fs vfs \<Rightarrow> bool" where
  "dir_law v \<longleftrightarrow> (\<forall>d s files. vReadDir v d s = Inr files \<longrightarrow> distinct (map fst files)) \<and> (\<forall>p s n. vSize v p s = Inr n \<longrightarrow> 0 \<le> n)"

lemma scan_file_fields [simp]: "fs (scan_file v x c f) = fs c" "staleMap (scan_file v x c f) = staleMap c" "cfg (scan_file v x c f) = cfg c"
  "diskRoot (scan_file v x c f) = diskRoot c" "reservations (scan_file v x c f) = reservations c" "reservedSize (scan_file v x c f) = reservedSize c"
  by (cases f; simp add: scan_file_def Let_def split: sum.split)+

lemma scan_fields: "fs (scanExistingCache v x c) = fs c \<and> staleMap (scanExistingCache v x c) = staleMap c \<and> cfg (scanExistingCache v x c) = cfg c
    \<and> diskRoot (scanExistingCache v x c) = diskRoot c"
proof -
  have "fs (foldl (scan_file v x) c files) = fs c \<and> staleMap (foldl (scan_file v x) c files) = staleMap c
    \<and> cfg (foldl (scan_file v x) c files) = cfg c \<and> diskRoot (foldl (scan_file v x) c files) = diskRoot c" for files
    by (induction files arbitrary: c) simp_all
  then show ?thesis by (simp add: scanExistingCache_def split: sum.split)
qed

lemma scanned_size: "dir_law v \<Longrightarrow> 0 \<le> bytes \<Longrightarrow> ehashedKey (scanned_entry v x k bytes m c) = k \<and> 0 \<le> esize (scanned_entry v x k bytes m c)"
  by (auto simp: scanned_entry_def dir_law_def Let_def split: sum.split)

lemma scan_file_ok:
  assumes "dir_law v" "ledger_ok c" "fst f \<notin> set (lruList c)"
  shows "ledger_ok (scan_file v x c f) \<and> set (lruList (scan_file v x c f)) \<subseteq> insert (fst f) (set (lruList c))"
proof (cases "snd f \<or> (\<exists>err. vSize v (bodyPath (fst f)) (fs c) = Inl err) \<or> (\<exists>err. vModTime v (bodyPath (fst f)) (fs c) = Inl err)")
  case True
  then have "scan_file v x c f = c" by (cases f) (auto simp: scan_file_def split: sum.splits)
  then show ?thesis using assms(2) by auto
next
  case False
  then obtain bytes modified where m: "vSize v (bodyPath (fst f)) (fs c) = Inr bytes" "vModTime v (bodyPath (fst f)) (fs c) = Inr modified" "\<not> snd f"
    by (metis sum.exhaust)
  let ?e = "scanned_entry v x (fst f) bytes modified c"
  have e: "ehashedKey ?e = fst f" "0 \<le> esize ?e" using scanned_size [OF assms(1)] m(1) assms(1) by (auto simp: dir_law_def)
  have n: "map_of (lruIndex c) (fst f) = None" using assms(2,3) by (simp add: ledger_ok_def)
  have "scan_file v x c f = c\<lparr>lruList := lruList c @ [fst f], lruIndex := AList.update (fst f) ?e (lruIndex c),
      totalSize := totalSize c + esize ?e, nextGeneration := nextGeneration c + 1\<rparr>"
    using m by (cases f) (simp add: scan_file_def Let_def)
  then show ?thesis using assms(2,3) e n by (auto simp: ledger_ok_def go_map_simps mval_def)
qed

lemma scan_files_ok:
  assumes "dir_law v" "distinct (map fst files)" "\<forall>f \<in> set files. fst f \<notin> set (lruList c)" "ledger_ok c"
  shows "ledger_ok (foldl (scan_file v x) c files)"
  using assms(2-4)
proof (induction files arbitrary: c)
  case (Cons f files)
  have f: "fst f \<notin> set (lruList c)" using Cons.prems(2) by simp
  have d: "distinct (map fst files)" "fst f \<notin> fst ` set files" using Cons.prems(1) by simp_all
  note s = scan_file_ok [OF assms(1) Cons.prems(3) f, of x]
  have "fst g \<notin> set (lruList (scan_file v x c f))" if g: "g \<in> set files" for g
  proof -
    have "fst g \<noteq> fst f" using d(2) g by (metis imageI)
    moreover have "fst g \<notin> set (lruList c)" using Cons.prems(2) g by simp
    ultimately show ?thesis using s by blast
  qed
  then show ?case using Cons.IH [OF d(1), of "scan_file v x c f"] s by simp
qed simp

lemma scan_ok:
  assumes "dir_law v" "ledger_ok c" "lruList c = []"
  shows "ledger_ok (scanExistingCache v x c)"
proof (cases "vReadDir v (bodyPrefix @ formatPrefix) (fs c)")
  case (Inl err)
  then show ?thesis using assms(2) by (simp add: scanExistingCache_def)
next
  case (Inr files)
  then have "distinct (map fst files)" using assms(1) by (simp add: dir_law_def)
  then show ?thesis using scan_files_ok [OF assms(1) _ _ assms(2), of files x] assms(3) Inr by (simp add: scanExistingCache_def)
qed

lemma sweepStaging_files:
  assumes "vfs_laws v" "\<not> prefix stagingDir q"
  shows "vRead v q (fs (sweepStaging v c)) = vRead v q (fs c)"
proof -
  have "vRead v q (foldl (\<lambda>s (n, dir). if dir then s else snd (vRemove v (stagingDir @ n) s)) s files) = vRead v q s"
    for s and files :: "(string \<times> bool) list"
  proof (induction files arbitrary: s)
    case (Cons f files)
    have "q \<noteq> stagingDir @ fst f" using assms(2) by auto
    from vfs_frame(6) [OF assms(1) this] Cons show ?case by (cases f) simp
  qed simp
  then show ?thesis by (simp add: sweepStaging_def split: sum.split)
qed

lemma sweepStaging_fields: "lruList (sweepStaging v c) = lruList c" "cfg (sweepStaging v c) = cfg c" "diskRoot (sweepStaging v c) = diskRoot c"
  "ledger_ok c \<Longrightarrow> ledger_ok (sweepStaging v c)"
  by (auto simp: sweepStaging_def split: sum.split elim: ledger_ok_frame)

lemma restore_fields: "fs (snd (restoreStale t m c)) = fs c" "cfg (snd (restoreStale t m c)) = cfg c"
  "ledger_ok c \<Longrightarrow> ledger_ok (snd (restoreStale t m c))"
  by (auto simp: restoreStale_def elim: ledger_ok_frame)

lemma load_fields:
  assumes "vfs_laws v" "ledger_ok c"
  shows "entry_files v key (loadStale v cd t c) = entry_files v key c \<and> cfg (loadStale v cd t c) = cfg c \<and> ledger_ok (loadStale v cd t c)"
proof -
  have rp: "entry_files v key (restore_and_persist v cd t m c) = entry_files v key c \<and> cfg (restore_and_persist v cd t m c) = cfg c
      \<and> ledger_ok (restore_and_persist v cd t m c)" if "ledger_ok c" for m c
  proof -
    obtain b c1 where r: "restoreStale t m c = (b, c1)" by (rule prod.exhaust)
    have c1: "fs c1 = fs c" "cfg c1 = cfg c" "ledger_ok c1" using restore_fields(1,2) [of t m c] restore_fields(3) [OF that, of t m] r by simp_all
    then show ?thesis
      using persist_files [OF assms(1), of key _ cd _ c1] ledger_ok_frame [OF c1(3), of "persistStale v cd (snapshotStaleLocked c1) c1"]
      by (simp add: restore_and_persist_def r entry_files_def)
  qed
  have g: "ledger_ok (c\<lparr>staleGeneration := i\<rparr>)" for i by (rule ledger_ok_frame [OF assms(2)]) simp_all
  have "entry_files v key (c\<lparr>staleGeneration := i\<rparr>) = entry_files v key c" for i by (simp add: entry_files_def)
  then show ?thesis using rp [OF g] rp [OF assms(2)] assms(2)
    by (simp add: loadStale_def split: option.split sum.split)
qed


subsection \<open>Examples\<close>

lemma example_readable: "readable_record plain_recenv example_response key 7"
proof -
  have "\<not> isZero 7" "int64 7" "int64 (statusCode example_response)" "storable (rheader example_response)" "canonical (rheader example_response)"
    "int64 (int (length (stored_body example_response)))" by code_simp+
  then show ?thesis
    by (simp add: readable_record_def plain_text_laws Itoa_plain plain_sealed_law)
qed

lemma example_stored:
  "StoreContext mem_vfs plain_recenv line_codec seconds_env quiet example_response [''k''] (empty_cache [] disk DefaultCacheConfig)
     = (None, snd (example_store disk))"
  using example_store_succeeds by (cases disk) (metis example_store_def prod.collapse)+

lemma example_keys: "fst (lockStoreKeys [key]) = [key]"
  by (simp add: lockStoreKeys_def Let_def)

lemma example_free: "\<not> active (empty_cache s disk config) k" "0 < clockDiscard quiet key" "clockAt quiet key = 7"
  "\<not> responseSuperseded e res keys (empty_cache s disk config)"
proof -
  show "\<not> responseSuperseded e res keys (empty_cache s disk config)"
    by (induction keys) (simp_all add: responseSuperseded_def StaleAt_def empty_cache_def)
qed (simp_all add: active_def empty_cache_def quiet_def)

lemma retrieve_after_store_witness:
  "\<exists>got c''. cache_Retrieve mem_vfs plain_recenv seconds_env 20 ''k'' (snd (example_store True)) = (Inr got, c'') \<and> rbody got = ''hi'' \<and> \<not> stale got"
proof -
  have b: "stored_body example_response = ''hi''" by code_simp
  have r: "readable_record plain_recenv example_response ''k'' (clockAt quiet ''k'')" by (simp add: example_readable example_free)
  have k: "''k'' \<in> set (fst (lockStoreKeys [''k'']))" by (simp add: example_keys)
  show ?thesis
    using retrieve_after_store [OF mem_vfs_laws mem_stat_law empty_ledger_ok example_free(1,2) example_stored example_free(4) k r, of 20 True] b
    by (auto simp: delivers_def StaleAt_def empty_cache_def)
qed

definition example_files :: "IntegrityMode \<Rightarrow> string \<Rightarrow> string \<Rightarrow> (string, string) gomap" where
  "example_files mode key body = [(bodyPath (hashKey key), body), (headerPath (hashKey key), stored_record plain_recenv mode example_response key 7)]"

definition example_opened :: "IntegrityMode \<Rightarrow> string \<Rightarrow> string \<Rightarrow> (string, string) gomap cache" where
  "example_opened mode key body = empty_cache (example_files mode key body) False (DefaultCacheConfig\<lparr>Integrity := mode\<rparr>)"

lemma example_opened_files:
  "entry_files mem_vfs key (example_opened mode key body) = (Inr body, Inr (stored_record plain_recenv mode example_response key 7))"
  "Integrity (cfg (example_opened mode key body)) = mode" "ledger_ok (example_opened mode key body)"
  by (simp_all add: entry_files_def mem_vfs_def mem_read_def example_opened_def example_files_def empty_cache_def DefaultCacheConfig_def
      config_Validate_def ledger_ok_def msum_def Let_def)

lemma truncated_record_is_a_miss_witness:
  "readHeaderProvenance mem_vfs plain_recenv ''p'' ''k'' True
     (empty_cache [(''p'', ''HTTPCACHE/1 7'')] False DefaultCacheConfig) = Inl NotFoundInCache"
proof -
  have 1: "CR \<notin> set (StatusText plain_recenv 200)" "CR \<notin> set (FormatNano plain_recenv 7)" by code_simp+
  have 2: "strict_prefix ''HTTPCACHE/1 7'' (serializeCacheHeader plain_recenv IntegrityDisabled 200 [] 7 ''k'' 0 [])"
    by code_simp
  have 3: "vRead mem_vfs ''p'' (fs (empty_cache [(''p'', ''HTTPCACHE/1 7'')] False DefaultCacheConfig)) = Inr ''HTTPCACHE/1 7''"
    by (simp add: mem_vfs_def mem_read_def empty_cache_def)
  show ?thesis by (rule truncated_record_is_a_miss [OF plain_text_laws 1 2 3])
qed

lemma altered_body_is_a_miss_witness:
  "\<exists>c'. cache_Retrieve mem_vfs plain_recenv seconds_env 20 ''k'' (example_opened IntegritySHA256 ''k'' ''other'') = (Inl NotFoundInCache, c')"
proof -
  have b: "''other'' \<noteq> stored_body example_response" by code_simp
  have i: "inj_on (sha256Text plain_recenv) {''other'', stored_body example_response}" by (rule two_point_inj) code_simp
  show ?thesis
    using altered_body_is_a_miss [OF mem_vfs_laws mem_stat_law example_opened_files(3,2,1) example_readable b i mem_remove_succeeds]
    by blast
qed

lemma retrieve_of_hit: "cache_Retrieve v x e now key c = (Inr got, c') \<Longrightarrow> fst (retrieve v x e now True key c) = Inr got"
  by (cases "retrieve v x e now True key c")
     (auto simp: cache_Retrieve_def retrieveRecorded_def integrityResult_def Let_def split: sum.splits cache_error.splits)

lemma colliding_keys_share_entries_witness:
  "\<exists>got'. fst (retrieve mem_vfs plain_recenv seconds_env 20 True ''GReLUrM4wMqfg9yzV3KQ''
     (example_opened IntegrityDisabled ''8yn0iYCKYHlIj4-BwPqk'' ''hi'')) = Inr got' \<and> rbody got' = ''hi'' \<and> storedKey got' = ''GReLUrM4wMqfg9yzV3KQ''"
proof -
  let ?key = "''8yn0iYCKYHlIj4-BwPqk''" and ?key' = "''GReLUrM4wMqfg9yzV3KQ''"
  let ?c = "example_opened IntegrityDisabled ?key ''hi''"
  have col: "hashKey ?key' = hashKey ?key" by code_simp
  have b: "stored_body example_response = ''hi''" by code_simp
  have f: "entry_files mem_vfs ?key ?c = (Inr (stored_body example_response), Inr (stored_record plain_recenv (Integrity (cfg ?c)) example_response ?key 7))"
    by (simp only: b example_opened_files)
  obtain got c' where "cache_Retrieve mem_vfs plain_recenv seconds_env 20 ?key ?c = (Inr got, c')"
    and g: "delivers example_response ?key 7 (StaleAt ?c ?key) got"
    using retrieve_hit [OF mem_stat_law example_readable f] by blast
  then have got: "fst (retrieve mem_vfs plain_recenv seconds_env 20 True ?key ?c) = Inr got" by (simp add: retrieve_of_hit)
  have raw: "vRead mem_vfs (headerPath (hashKey ?key)) (fs ?c) = Inr (stored_record plain_recenv IntegrityDisabled example_response ?key 7)"
    using example_opened_files(1) [of ?key IntegrityDisabled "''hi''"] by (simp add: entry_files_def)
  have np: "\<not> prefix integrityPreamble (stored_record plain_recenv IntegrityDisabled example_response ?key 7)"
    by (simp add: stored_record_def serialize_sealed serializeStoredHeader_def integrityPreamble_def storedAtPreamble_def)
  show ?thesis
    using colliding_keys_share_entries [OF col example_opened_files(2) got raw np] g b by (auto simp: delivers_def)
qed

lemma purge_clears_witness:
  "lruList (snd (Purge mem_vfs line_codec (snd (example_store False)))) = []
   \<and> entry_files mem_vfs ''k'' (snd (Purge mem_vfs line_codec (snd (example_store False)))) = (Inl NotExist, Inl NotExist)"
proof -
  have l: "ledger_ok (snd (example_store False))"
    using store_outcome [OF mem_vfs_laws empty_ledger_ok example_free(1,2) example_stored] by blast
  have "\<not> fst (Purge mem_vfs line_codec (snd (example_store False)))" by code_simp
  moreover have "map_of (lruIndex (snd (example_store False))) (hashKey ''k'') \<noteq> None" by code_simp
  ultimately show ?thesis
    using purge_clears [OF mem_vfs_laws l, of line_codec] by (cases "Purge mem_vfs line_codec (snd (example_store False))") auto
qed

lemma mem_dir_law: "dir_law mem_vfs"
  by (auto simp: dir_law_def mem_vfs_def mem_list_def comp_def split: sum.splits)


end
