(* ===== verification/Freshen.thy ===== *)
theory Freshen
  imports Retrieve
begin

text \<open>
  Freshening a stored entry after a successful validation (\<^verbatim>\<open>Freshen\<close>, \<^verbatim>\<open>freshenResourceForKey\<close>,
  \<^verbatim>\<open>resourceWasReplaced\<close> and \<^verbatim>\<open>commitFreshenedHeader\<close> of \<^verbatim>\<open>src/cache.go\<close>, \<^verbatim>\<open>advanceResourceProvenance\<close> of
  \<^verbatim>\<open>src/cache_provenance.go\<close>): only the header record is written again, and only if the entry is
  still the generation that was validated. \<open>held\<close> says that the resource still holds the header file it
  was retrieved with and that the file can be exchanged for the new one.
\<close>

subsection \<open>Operations\<close>

definition background :: "storeenv \<Rightarrow> storeenv" where
  \<comment> \<open>\<^verbatim>\<open>context.Background()\<close> is never cancelled\<close>
  "background en = en\<lparr>polled := \<lambda>_. False\<rparr>"

definition resourceWasReplaced :: "resource \<Rightarrow> string \<Rightarrow> time \<Rightarrow> int option \<times> string \<Rightarrow> 'fs cache \<Rightarrow> bool" where
  "resourceWasReplaced res k at pr c \<longleftrightarrow>
     (storageGeneration res \<noteq> None \<and> storageGeneration res \<noteq> entryGeneration k c)
     \<or> (\<not> isZero (storedAt res) \<and> at \<noteq> storedAt res)
     \<or> (case storageRecord res of None \<Rightarrow> False
        | Some previous \<Rightarrow> snd previous \<noteq> snd pr \<or> (fst previous \<noteq> None \<and> fst pr \<noteq> None \<and> fst previous \<noteq> fst pr))"

definition commitFreshenedHeader ::
  "'fs vfs \<Rightarrow> storeenv \<Rightarrow> string \<Rightarrow> string \<Rightarrow> string \<Rightarrow> int \<Rightarrow> time \<Rightarrow> 'fs cache \<Rightarrow> bool \<times> 'fs cache" where
  \<comment> \<open>the flag says that it failed\<close>
  "commitFreshenedHeader v en key k headerData newSize at c =
     (let ((staged, n, err), s) = stageWriteContext v (background en) (diskRoot c) (headerPath k) headerData (fs c);
          (err, files, s) = (if err then (True, [staged], s) else commitStagedLocked v [staged] s) in
      if err then
        let (files, s) = abandonStaged v files s; c = c\<lparr>fs := s\<rparr>
        in (True, if anyPublished files then snd (discardUnadmitted v (clockTrack en key) key k newSize at c) else c)
      else (False, trackEntry (clockTrack en key) key k newSize at (c\<lparr>fs := s\<rparr>)))"

definition advanceResourceProvenance ::
  "'fs vfs \<Rightarrow> recenv \<Rightarrow> bool \<Rightarrow> resource \<Rightarrow> string \<Rightarrow> string \<Rightarrow> time \<Rightarrow> 'fs cache \<Rightarrow> cache_error option \<times> resource" where
  "advanceResourceProvenance v x held res key raw at c =
     (if storageRecord res = None then (None, res)
      else if diskRoot c then
        (case readHeaderProvenance v x (headerPath (hashKey key)) key True c of
           Inl err \<Rightarrow> (Some err, res)
         | Inr (h, a, m, pr) \<Rightarrow>
             if \<not> held then (Some OpenFailed, res) else (None, SetStoredAt (res\<lparr>storageRecord := Some pr\<rparr>) at))
      else (None, SetStoredAt (res\<lparr>storageRecord := Some (None, sha256Text x raw)\<rparr>) at))"

definition freshened_record :: "recenv \<Rightarrow> int \<Rightarrow> header \<Rightarrow> integrityRecord option \<Rightarrow> time \<Rightarrow> string" where
  "freshened_record x status h meta at =
     (case meta of None \<Rightarrow> serializeStoredHeader x status h at | Some m \<Rightarrow> serializeIntegrityHeader x status h (m\<lparr>StoredAt := at\<rparr>))"

definition freshen_reserved ::
  "'fs vfs \<Rightarrow> recenv \<Rightarrow> storeenv \<Rightarrow> bool \<Rightarrow> resource \<Rightarrow> string \<Rightarrow> 'fs cache \<Rightarrow> (cache_error + bool) \<times> resource \<times> 'fs cache" where
  \<comment> \<open>the body of \<^verbatim>\<open>freshenResourceForKey\<close> between the reservation and its deferred release\<close>
  "freshen_reserved v x en held res key c =
     (let k = hashKey key; at = clockAt en key in
      case readHeaderProvenance v x (headerPath k) key True c of
        Inl err \<Rightarrow> (if err = NotFoundInCache \<and> isZero (storedAt res) then Inr False else Inl err, res, c)
      | Inr (h, stored, meta, pr) \<Rightarrow>
        if resourceWasReplaced res k (if isZero stored then entryStoredAt k c else stored) pr c then (Inl ReplacedEntry, res, c)
        else if hStatusCode h \<noteq> statusCode res \<or> \<not> headersEqual (hHeader h) (rheader res) then (Inr True, res, c)
        else case vSize v (bodyPath k) (fs c) of Inl _ \<Rightarrow> (Inl SizeFailed, res, c)
        | Inr bytes \<Rightarrow>
          let headerData = freshened_record x (hStatusCode h) (rheader res) meta at;
              newSize = wrap64 (bytes + int (length headerData));
              (refused, c) = reserveEntry v k newSize c in
          case refused of Some err \<Rightarrow> (Inl (Admission err), res, c)
          | None \<Rightarrow>
            let (failed, c) = commitFreshenedHeader v en key k headerData newSize at c in
            if failed then (Inl PublishFailed, res, c)
            else let res = (if storageGeneration res \<noteq> None then res\<lparr>storageGeneration := entryGeneration k c\<rparr> else res);
                     (err, res) = advanceResourceProvenance v x held res key headerData at c
                 in (case err of Some err \<Rightarrow> Inl err | None \<Rightarrow> Inr False, res, c))"

definition freshenResourceForKey ::
  "'fs vfs \<Rightarrow> recenv \<Rightarrow> storeenv \<Rightarrow> bool \<Rightarrow> resource \<Rightarrow> string \<Rightarrow> 'fs cache \<Rightarrow> (cache_error + bool) \<times> resource \<times> 'fs cache" where
  \<comment> \<open>\<open>Inr True\<close> reports a mismatch\<close>
  "freshenResourceForKey v x en held res key c =
     (let (r, res, c) = freshen_reserved v x en held res key (beginReservation (hashKey key) c)
      in (r, res, releaseReservation (hashKey key) c))"

fun freshen_keys ::
  "'fs vfs \<Rightarrow> recenv \<Rightarrow> storeenv \<Rightarrow> bool \<Rightarrow> resource \<Rightarrow> string list \<Rightarrow> string list \<Rightarrow> 'fs cache
    \<Rightarrow> cache_error option \<times> string list \<times> resource \<times> 'fs cache" where
  "freshen_keys v x en held res [] inval c = (None, inval, res, c)"
| "freshen_keys v x en held res (key # keys) inval c =
     (if storedKey res \<noteq> [] \<and> key \<noteq> storedKey res then freshen_keys v x en held res keys inval c
      else case freshenResourceForKey v x en held res key c of
        (Inl err, res, c) \<Rightarrow> (Some err, inval, res, c)
      | (Inr mismatch, res, c) \<Rightarrow> freshen_keys v x en held res keys (if mismatch then inval @ [key] else inval) c)"

definition cache_Freshen ::
  "'fs vfs \<Rightarrow> recenv \<Rightarrow> codec \<Rightarrow> goenv \<Rightarrow> storeenv \<Rightarrow> bool \<Rightarrow> time \<Rightarrow> resource \<Rightarrow> string list \<Rightarrow> 'fs cache
    \<Rightarrow> cache_error option \<times> resource \<times> 'fs cache" where
  "cache_Freshen v x cd e en held now res keys c =
     (if responseSuperseded e res keys c then (Some SupersededValidation, res, c)
      else let (err, inval, res, c) = freshen_keys v x en held res keys [] c
           in if err \<noteq> None then (err, res, c)
              else (None, res, Invalidate v cd now inval c))"

subsection \<open>What freshening may change\<close>

lemma background_fields [simp]: "clockTrack (background en) = clockTrack en" by (simp add: background_def)

lemma provenance_cong:
  "fs c' = fs c \<Longrightarrow> cfg c' = cfg c \<Longrightarrow> diskRoot c' = diskRoot c \<Longrightarrow> readHeaderProvenance v x path key b c' = readHeaderProvenance v x path key b c"
  by (simp only: readHeaderProvenance_def)

lemma commit_freshened:
  assumes v: "vfs_laws v" and l: "ledger_ok c" and sz: "0 \<le> newSize"
    and r: "commitFreshenedHeader v en key k d newSize at c = (failed, c')"
  shows "ledger_ok c' \<and> staleMap c' = staleMap c \<and> (\<forall>j. active c' j \<longrightarrow> active c j)
    \<and> (\<not> failed \<longrightarrow> vRead v (headerPath k) (fs c') = Inr d \<and> vRead v (bodyPath k) (fs c') = vRead v (bodyPath k) (fs c)
          \<and> entryStoredAt k c' = (if isZero at then clockTrack en key else at) \<and> entryGeneration k c' \<noteq> None)"
proof -
  obtain st n err s where w: "stageWriteContext v (background en) (diskRoot c) (headerPath k) d (fs c) = ((st, n, err), s)"
    by (rule triple_pairE)
  have k: "entry_path k (headerPath k)" by simp
  note sp = stage_prep [OF v l w k]
  obtain err2 files s2 where cm: "(if err then (True, [st], s) else commitStagedLocked v [st] s) = (err2, files, s2)" by (metis prod_cases3)
  show ?thesis
  proof (cases err2)
    case True
    obtain files3 s3 where ab: "abandonStaged v files s2 = (files3, s3)" by (rule prod.exhaust)
    have c': "failed" "c' = (if anyPublished files3 then snd (discardUnadmitted v (clockTrack en key) key k newSize at (c\<lparr>fs := s3\<rparr>)) else c\<lparr>fs := s3\<rparr>)"
      using r w cm True ab by (simp_all add: commitFreshenedHeader_def Let_def)
    have l3: "ledger_ok (c\<lparr>fs := s3\<rparr>)" by (rule ledger_ok_frame [OF l]) simp_all
    obtain e4 c4 where d: "discardUnadmitted v (clockTrack en key) key k newSize at (c\<lparr>fs := s3\<rparr>) = (e4, c4)" by (rule prod.exhaust)
    note dk = discard_ok [OF l3 d]
    show ?thesis using c' d dk(1,2,5) l3 by (simp add: active_def)
  next
    case False
    then have e: "\<not> err" and cm2: "commitStagedLocked v [st] s = (False, files, s2)" using cm by (auto split: if_splits)
    have stg: "staged_as v (diskRoot c) (headerPath k) d st s" using sp(5) e by simp
    have hdr: "vRead v (headerPath k) s2 = Inr d \<and> vRead v (bodyPath k) s2 = vRead v (bodyPath k) s"
    proof (cases "diskRoot c")
      case True
      then have "all_staged v [st] [(headerPath k, d)] s" using stg by (simp add: all_staged_def)
      from commit_on_disk [OF v this cm2] show ?thesis by simp
    next
      case nd: False
      then have "list_all (\<lambda>e. \<exists>y. e = Some y \<and> tmpPath y = []) [st]" using stg by (auto simp: staged_as_def split: option.splits)
      from commit_in_place [OF this, of v s] cm2 stg nd show ?thesis by (auto simp: staged_as_def split: option.splits)
    qed
    have body: "vRead v (bodyPath k) s = vRead v (bodyPath k) (fs c)" using sp(6) [of "bodyPath k"] by simp
    have c': "\<not> failed" "c' = trackEntry (clockTrack en key) key k newSize at (c\<lparr>fs := s2\<rparr>)"
      using r w cm False by (simp_all add: commitFreshenedHeader_def)
    have l2: "ledger_ok (c\<lparr>fs := s2\<rparr>)" by (rule ledger_ok_frame [OF l]) simp_all
    note ts = track_sizes [OF l2, of "clockTrack en key" key k newSize at]
    have a: "active c' j \<Longrightarrow> active c j" for j by (auto simp: c'(2) active_def ts go_map_simps split: if_splits)
    show ?thesis using c' hdr body track_ok [OF l2 sz] a ts(5) [of k] by (simp add: entryStoredAt_def entryGeneration_def)
  qed
qed

definition header_only :: "'fs vfs \<Rightarrow> recenv \<Rightarrow> storeenv \<Rightarrow> resource \<Rightarrow> string \<Rightarrow> 'fs cache \<Rightarrow> 'fs cache \<Rightarrow> bool" where
  "header_only v x en res key c c' \<longleftrightarrow> vRead v (bodyPath (hashKey key)) (fs c') = vRead v (bodyPath (hashKey key)) (fs c)
     \<and> (vRead v (headerPath (hashKey key)) (fs c') = vRead v (headerPath (hashKey key)) (fs c)
        \<or> (\<exists>h stored meta pr. readHeaderProvenance v x (headerPath (hashKey key)) key True c = Inr (h, stored, meta, pr)
             \<and> \<not> resourceWasReplaced res (hashKey key) (if isZero stored then entryStoredAt (hashKey key) c else stored) pr c
             \<and> hStatusCode h = statusCode res \<and> headersEqual (hHeader h) (rheader res)
             \<and> vRead v (headerPath (hashKey key)) (fs c') = Inr (freshened_record x (statusCode res) (rheader res) meta (clockAt en key))))"

lemma header_only_cong:
  assumes "fs c2 = fs c1" "cfg c2 = cfg c1" "diskRoot c2 = diskRoot c1" "lruIndex c2 = lruIndex c1" "fs c2' = fs c1'"
  shows "header_only v x en res key c2 c2' \<longleftrightarrow> header_only v x en res key c1 c1'"
  using provenance_cong [OF assms(1-3)] assms by (simp add: header_only_def resourceWasReplaced_def entryGeneration_def entryStoredAt_def)

lemma freshen_reserved_spec:
  assumes v: "vfs_laws v" and l: "ledger_ok c" "active c (hashKey key)" and f: "freshen_reserved v x en held res key c = (r, res', c')"
  shows "ledger_ok c' \<and> staleMap c' = staleMap c \<and> (\<forall>j. active c' j \<longrightarrow> active c j) \<and> (r \<noteq> Inl PublishFailed \<longrightarrow> header_only v x en res key c c')"
proof (cases "c' = c")
  case True
  then show ?thesis using l by (simp add: header_only_def)
next
  case False
  let ?k = "hashKey key"
  obtain h stored meta pr bytes where p: "readHeaderProvenance v x (headerPath ?k) key True c = Inr (h, stored, meta, pr)"
    "\<not> resourceWasReplaced res ?k (if isZero stored then entryStoredAt ?k c else stored) pr c"
    "hStatusCode h = statusCode res" "headersEqual (hHeader h) (rheader res)" "vSize v (bodyPath ?k) (fs c) = Inr bytes"
    using f False by (auto simp: freshen_reserved_def Let_def split: sum.splits if_splits)
  let ?d = "freshened_record x (statusCode res) (rheader res) meta (clockAt en key)"
  let ?n = "wrap64 (bytes + int (length ?d))"
  obtain refused c2 where rs: "reserveEntry v ?k ?n c = (refused, c2)" by (rule prod.exhaust)
  obtain failed c3 where cf: "commitFreshenedHeader v en key ?k ?d ?n (clockAt en key) c2 = (failed, c3)" by (rule prod.exhaust)
  have c2: "ledger_ok c2" "staleMap c2 = staleMap c" "untouched v ?k c c2" "active c2 = active c"
    using reserve_prep [OF v l rs] by (simp_all add: prep_frame_def)
  have run: "\<exists>a b. (r, res', c') = (case refused of Some err \<Rightarrow> (Inl (Admission err), res, c2)
      | None \<Rightarrow> if failed then (Inl PublishFailed, res, c3) else (a, b, c3))"
    using f p(2-5) rs cf unfolding freshen_reserved_def Let_def p(1)
    by (cases refused) (auto split: prod.splits if_splits)
  show ?thesis
  proof (cases refused)
    case (Some err)
    then have "c' = c2" using run by simp
    then show ?thesis using c2 by (simp add: untouched_def header_only_def)
  next
    case None
    have n: "0 \<le> ?n" using reserve_ok(10) [OF l(1) rs] None by simp
    have "c' = c3 \<and> (failed \<longrightarrow> r = Inl PublishFailed)" using run None by (auto split: if_splits)
    then show ?thesis using commit_freshened [OF v c2(1) n cf] c2 p by (auto simp: untouched_def header_only_def)
  qed
qed

lemma freshened_key:
  assumes v: "vfs_laws v" and l: "ledger_ok c" and free: "\<not> active c (hashKey key)"
    and r: "freshenResourceForKey v x en held res key c = (r, res', c')"
  shows "ledger_ok c' \<and> \<not> active c' (hashKey key) \<and> staleMap c' = staleMap c \<and> (\<forall>j. active c' j \<longrightarrow> active c j)
    \<and> (r \<noteq> Inl PublishFailed \<longrightarrow> header_only v x en res key c c')"
proof -
  let ?k = "hashKey key" and ?c0 = "beginReservation (hashKey key) c"
  have l0: "ledger_ok ?c0" "active ?c0 ?k" using begin_ok [OF l free] by simp_all
  obtain r1 res1 c1 where f: "freshen_reserved v x en held res key ?c0 = (r1, res1, c1)" by (metis prod_cases3)
  have res: "r = r1" "c' = releaseReservation ?k c1" using r f by (simp_all add: freshenResourceForKey_def)
  have rel: "fs c' = fs c1" "staleMap c' = staleMap c1" "active c' j \<longleftrightarrow> active c1 j \<and> j \<noteq> ?k" "ledger_ok c1 \<Longrightarrow> ledger_ok c'" for j
    using release_ok [of c1 ?k] by (auto simp: res(2) releaseReservation_def active_def go_map_simps)
  have same: "header_only v x en res key ?c0 c1 \<longleftrightarrow> header_only v x en res key c c'"
    using rel(1) by (intro header_only_cong) (simp_all add: beginReservation_def)
  from freshen_reserved_spec [OF v l0 f] show ?thesis unfolding same using rel res(1) by auto
qed


text \<open>
  A validation only freshens the entry it is about. If the entry was replaced after the retrieval
  the call fails and no file changes; if the stored status or representation fields differ from the
  validated response, no file of the entry changes and the key is marked invalid.
\<close>

lemma freshen_guards:
  assumes v: "vfs_laws v" and key: "storedKey res = [] \<or> storedKey res = key" and live: "\<not> responseSuperseded e res [key] c"
    and rd: "readHeaderProvenance v x (headerPath (hashKey key)) key True c = Inr (h, stored, meta, pr)"
  defines "at \<equiv> (if isZero stored then entryStoredAt (hashKey key) c else stored)"
  shows "(resourceWasReplaced res (hashKey key) at pr c \<longrightarrow>
       (\<exists>c'. cache_Freshen v x cd e en held now res [key] c = (Some ReplacedEntry, res, c') \<and> fs c' = fs c \<and> staleMap c' = staleMap c))
    \<and> (\<not> resourceWasReplaced res (hashKey key) at pr c \<and> (hStatusCode h \<noteq> statusCode res \<or> \<not> headersEqual (hHeader h) (rheader res)) \<longrightarrow>
       (\<exists>c'. cache_Freshen v x cd e en held now res [key] c = (None, res, c') \<and> entry_files v key c' = entry_files v key c \<and> StaleAt c' key = Some now))"
proof -
  let ?k = "hashKey key"
  let ?c0 = "beginReservation ?k c"
  let ?c1 = "releaseReservation ?k ?c0"
  have rd0: "readHeaderProvenance v x (headerPath ?k) key True ?c0 = readHeaderProvenance v x (headerPath ?k) key True c"
    by (rule provenance_cong) simp_all
  have rep: "resourceWasReplaced res ?k at pr ?c0 = resourceWasReplaced res ?k at pr c" "entryStoredAt ?k ?c0 = entryStoredAt ?k c" for at pr
    by (simp_all add: resourceWasReplaced_def entryGeneration_def entryStoredAt_def beginReservation_def)
  have c1: "fs ?c1 = fs c" "staleMap ?c1 = staleMap c" by (simp_all add: releaseReservation_def)
  have f: "freshenResourceForKey v x en held res key c = (if resourceWasReplaced res ?k at pr c then (Inl ReplacedEntry, res, ?c1) else (Inr True, res, ?c1))"
    if "resourceWasReplaced res ?k at pr c \<or> hStatusCode h \<noteq> statusCode res \<or> \<not> headersEqual (hHeader h) (rheader res)"
    using that unfolding freshenResourceForKey_def freshen_reserved_def Let_def rd0 rd rep at_def by auto
  have inv: "entry_files v key (Invalidate v cd now [key] ?c1) = entry_files v key c"
    using persist_files [OF v, of key] c1
    by (simp add: Invalidate_def invalidate_final_def invalidate_barrier_def entry_files_def Let_def)
  show ?thesis
    using f live key inv c1 Invalidate_marks [of v cd now "[key]" ?c1 key]
    by (auto simp: cache_Freshen_def StaleAt_def)
qed

definition validated_response :: resource where
  "validated_response = example_response\<lparr>RequestTime := 12\<rparr>"


lemma freshen_guards_witness:
  "\<exists>c'. cache_Freshen mem_vfs plain_recenv line_codec seconds_env quiet True 20 (validated_response\<lparr>statusCode := 404\<rparr>) [''k'']
     (example_opened IntegrityDisabled ''k'' ''hi'') = (None, validated_response\<lparr>statusCode := 404\<rparr>, c') \<and> StaleAt c' ''k'' = Some 20"
proof -
  let ?c = "example_opened IntegrityDisabled ''k'' ''hi''" and ?res = "validated_response\<lparr>statusCode := 404\<rparr>"
  have k: "storedKey ?res = [] \<or> storedKey ?res = ''k''" by code_simp
  have live: "\<not> responseSuperseded seconds_env ?res [''k''] ?c" by (simp add: example_opened_def example_free)
  have raw: "vRead mem_vfs (headerPath (hashKey ''k'')) (fs ?c) = Inr (stored_record plain_recenv (Integrity (cfg ?c)) example_response ''k'' 7)"
    using example_opened_files(1) [of "''k''" IntegrityDisabled "''hi''"] example_opened_files(2) [of IntegrityDisabled "''k''" "''hi''"] by (simp add: entry_files_def)
  obtain meta pr where rd: "readHeaderProvenance mem_vfs plain_recenv (headerPath (hashKey ''k'')) ''k'' True ?c
      = Inr (\<lparr>hHeader = read_header example_response, hStatusCode = statusCode example_response\<rparr>, 7, meta, pr)"
    using read_record [OF example_readable mem_stat_law raw] by blast
  have "statusCode example_response \<noteq> statusCode ?res" "storageGeneration ?res = None" "storedAt ?res = 0" "storageRecord ?res = None" "isZero 0"
    by code_simp+
  then show ?thesis
    using freshen_guards [OF mem_vfs_laws k live rd, of line_codec quiet True 20] by (auto simp: resourceWasReplaced_def)
qed

end
