(* ===== verification/Publication.thy ===== *)
theory Publication
  imports Policy Freshen
begin

text \<open>
  \<^verbatim>\<open>src/handler_publication.go\<close>: how the handler attributes a generation to what a cache without
  \<^verbatim>\<open>StaleAt\<close> returns. A publication (a store or a freshening) is announced before the call and
  finished after it; only one that ran alone leaves a proof of freshness, and a retrieval trusts a
  proof only if it was there, with no publication running, both before and after the call.

  The handler talks to its cache through the interface \<^verbatim>\<open>Cache\<close> and its optional extensions; the
  record \<open>cache_ops\<close> holds the operations of an implementation on states of type \<open>'c\<close>. The cache of
  \<^verbatim>\<open>src/cache.go\<close> is the instance \<open>builtin_ops\<close>.
\<close>

subsection \<open>The interface of a cache\<close>

record 'c cache_ops =
  opStore :: "resource \<Rightarrow> string list \<Rightarrow> 'c \<Rightarrow> cache_error option \<times> 'c"
  opStoreContext :: "(resource \<Rightarrow> string list \<Rightarrow> 'c \<Rightarrow> cache_error option \<times> 'c) option"
  opFreshen :: "resource \<Rightarrow> string list \<Rightarrow> 'c \<Rightarrow> cache_error option \<times> resource \<times> 'c"
  opRetrieve :: "string \<Rightarrow> 'c \<Rightarrow> (cache_error + resource) \<times> 'c"
  opRetrieveForRecheck :: "(string \<Rightarrow> 'c \<Rightarrow> (cache_error + resource) \<times> 'c) option"
  opRetrieveUncounted :: "(string \<Rightarrow> 'c \<Rightarrow> (cache_error + resource) \<times> 'c) option"
  opInvalidate :: "string list \<Rightarrow> 'c \<Rightarrow> 'c"
  opStaleAt :: "('c \<Rightarrow> string \<Rightarrow> time option) option"
  opStaleSnapshot :: "('c \<Rightarrow> string list \<Rightarrow> markers) option"

definition builtin_ops ::
  "'fs vfs \<Rightarrow> recenv \<Rightarrow> codec \<Rightarrow> goenv \<Rightarrow> storeenv \<Rightarrow> bool \<Rightarrow> time \<Rightarrow> 'fs cache cache_ops" where
  "builtin_ops v x cd e en held now =
     \<lparr>opStore = StoreContext v x cd e (background en), opStoreContext = Some (StoreContext v x cd e en),
      opFreshen = cache_Freshen v x cd e en held now, opRetrieve = cache_Retrieve v x e now,
      opRetrieveForRecheck = Some (RetrieveForRecheck v x e now), opRetrieveUncounted = Some (RetrieveForRecheck v x e now),
      opInvalidate = Invalidate v cd now, opStaleAt = Some StaleAt, opStaleSnapshot = Some StaleSnapshot\<rparr>"

subsection \<open>Publications\<close>

definition begin_one :: "handlerMarks \<Rightarrow> string \<Rightarrow> handlerMarks" where
  "begin_one h key =
     (let publication = (case map_of (localPublications h) key of Some p \<Rightarrow> p | None \<Rightarrow> \<lparr>pactive = 0, poverlap = False\<rparr>);
          publication = publication\<lparr>pactive := pactive publication + 1\<rparr>;
          publication = publication\<lparr>poverlap := poverlap publication \<or> pactive publication > 1\<rparr>
      in h\<lparr>localPublications := AList.update key publication (localPublications h),
           localFresh := AList.delete key (localFresh h)\<rparr>)"

text \<open>
  The result of \<^verbatim>\<open>beginLocalPublication\<close> is the function that finishes the publication: none for a
  cache that keeps markers itself, otherwise what that function captured.
\<close>

definition beginLocalPublication ::
  "time \<Rightarrow> time \<Rightarrow> string list \<Rightarrow> handlerMarks \<Rightarrow> (time \<times> string list) option \<times> handlerMarks" where
  "beginLocalPublication now at keys h =
     (if keepsMarkers h then (None, h)
      else let at = (if isZero at then now else at); keys = compact (sort keys)
           in (Some (at, keys), foldl begin_one h keys))"

text \<open>Finishing a publication that was not begun would dereference a nil pointer: the value \<open>None\<close>.\<close>

definition finish_one :: "time \<Rightarrow> bool \<Rightarrow> string \<Rightarrow> handlerMarks \<Rightarrow> handlerMarks option" where
  "finish_one at success key h =
     (case map_of (localPublications h) key of None \<Rightarrow> None
      | Some publication \<Rightarrow>
          let publication = publication\<lparr>pactive := pactive publication - 1\<rparr> in
          Some (if pactive publication = 0 then
             let h = (if success \<and> \<not> poverlap publication
                      then h\<lparr>localFresh := AList.update key \<lparr>proofAt = at, proofId = nextProof h\<rparr> (localFresh h),
                             nextProof := nextProof h + 1\<rparr> else h)
             in h\<lparr>localPublications := AList.delete key (localPublications h)\<rparr>
           else h\<lparr>localPublications := AList.update key publication (localPublications h)\<rparr>))"

fun finish_all :: "time \<Rightarrow> bool \<Rightarrow> string list \<Rightarrow> handlerMarks \<Rightarrow> handlerMarks option" where
  "finish_all at success [] h = Some h"
| "finish_all at success (key # keys) h =
     (case finish_one at success key h of None \<Rightarrow> None | Some h \<Rightarrow> finish_all at success keys h)"

definition finishLocalPublication :: "time \<Rightarrow> time \<Rightarrow> string list \<Rightarrow> bool \<Rightarrow> handlerMarks \<Rightarrow> handlerMarks option" where
  "finishLocalPublication now at keys success h =
     (let cutoff = now - staleMarkerTTL h
      in finish_all at success keys (h\<lparr>localFresh := filter (\<lambda>(key, p). \<not> proofAt p < cutoff) (localFresh h)\<rparr>))"

definition complete_publication :: "time \<Rightarrow> (time \<times> string list) option \<Rightarrow> bool \<Rightarrow> handlerMarks \<Rightarrow> handlerMarks option" where
  "complete_publication now fin success h =
     (case fin of None \<Rightarrow> Some h | Some (at, keys) \<Rightarrow> finishLocalPublication now at keys success h)"

text \<open>A publication of which nothing else runs meanwhile; \<open>t0\<close> and \<open>t1\<close> are the clock at its two ends.\<close>

definition publishResource ::
  "'c cache_ops \<Rightarrow> time \<Rightarrow> time \<Rightarrow> resource \<Rightarrow> time \<Rightarrow> string list \<Rightarrow> 'c \<times> handlerMarks
    \<Rightarrow> (cache_error option \<times> 'c \<times> handlerMarks) option" where
  "publishResource ops t0 t1 res at keys = (\<lambda>(c, h).
     let (fin, h) = beginLocalPublication t0 at keys h;
         (err, c) = (case opStoreContext ops of Some store \<Rightarrow> store res keys c | None \<Rightarrow> opStore ops res keys c)
     in map_option (\<lambda>h. (err, c, h)) (complete_publication t1 fin (err = None) h))"

definition freshenResource ::
  "'c cache_ops \<Rightarrow> time \<Rightarrow> time \<Rightarrow> resource \<Rightarrow> string list \<Rightarrow> 'c \<times> handlerMarks
    \<Rightarrow> (cache_error option \<times> resource \<times> 'c \<times> handlerMarks) option" where
  "freshenResource ops t0 t1 res keys = (\<lambda>(c, h).
     let (fin, h) = beginLocalPublication t0 (RequestTime res) keys h;
         (err, res, c) = opFreshen ops res keys c
     in map_option (\<lambda>h. (err, res, c, h)) (complete_publication t1 fin (err = None) h))"

subsection \<open>Retrieval with evidence\<close>

definition localPublicationSnapshot :: "handlerMarks \<Rightarrow> string \<Rightarrow> localFreshProof option \<times> bool" where
  "localPublicationSnapshot h key = (map_of (localFresh h) key, map_of (localPublications h) key = None)"

text \<open>
  What \<^verbatim>\<open>generationRetriever\<close> makes of the result of a retrieval; \<open>h0\<close> and \<open>h1\<close> are the handler's record
  when the snapshots before and after the call were taken.
\<close>

definition generationRetriever :: "handlerMarks \<Rightarrow> handlerMarks \<Rightarrow> string \<Rightarrow> cache_error + resource \<Rightarrow> cache_error + resource" where
  "generationRetriever h0 h1 key r =
     (if keepsMarkers h0 then r
      else case r of Inl err \<Rightarrow> Inl err
      | Inr res \<Rightarrow>
          let (before, idleBefore) = localPublicationSnapshot h0 key;
              (after, idleAfter) = localPublicationSnapshot h1 key
          in Inr (res\<lparr>handlerStoredAt := (if idleBefore \<and> idleAfter \<and> before \<noteq> None \<and> before = after
                                         then proofAt (the before) else 0)\<rparr>))"

subsection \<open>The record under a publication\<close>

definition begun :: "localPublication option \<Rightarrow> localPublication" where
  "begun p = (case p of None \<Rightarrow> \<lparr>pactive = 1, poverlap = False\<rparr>
     | Some p \<Rightarrow> \<lparr>pactive = pactive p + 1, poverlap = (poverlap p \<or> pactive p + 1 > 1)\<rparr>)"

lemma begin_one_simps [simp]:
  "map_of (localPublications (begin_one h key)) k = (if k = key then Some (begun (map_of (localPublications h) key)) else map_of (localPublications h) k)"
  "map_of (localFresh (begin_one h key)) k = (if k = key then None else map_of (localFresh h) k)"
  "keepsMarkers (begin_one h key) = keepsMarkers h" "localStale (begin_one h key) = localStale h"
  "nextProof (begin_one h key) = nextProof h"
  "go_map (localFresh h) \<Longrightarrow> go_map (localFresh (begin_one h key))"
  by (auto simp: begin_one_def begun_def Let_def go_map_simps split: option.split)

lemma begun_all:
  "distinct ks \<Longrightarrow> map_of (localPublications (foldl begin_one h ks)) k =
     (if k \<in> set ks then Some (begun (map_of (localPublications h) k)) else map_of (localPublications h) k)"
  "map_of (localFresh (foldl begin_one h ks)) k = (if k \<in> set ks then None else map_of (localFresh h) k)"
  "keepsMarkers (foldl begin_one h ks) = keepsMarkers h" "localStale (foldl begin_one h ks) = localStale h"
  "nextProof (foldl begin_one h ks) = nextProof h"
  "go_map (localFresh h) \<Longrightarrow> go_map (localFresh (foldl begin_one h ks))"
  by (induction ks arbitrary: h) auto

lemma finish_all_ok:
  assumes "distinct ks" "\<forall>k \<in> set ks. map_of (localPublications h) k \<noteq> None"
  shows "\<exists>h'. finish_all at success ks h = Some h' \<and> keepsMarkers h' = keepsMarkers h \<and> localStale h' = localStale h
    \<and> nextProof h \<le> nextProof h' \<and> (go_map (localFresh h) \<longrightarrow> go_map (localFresh h'))
    \<and> (\<forall>k. k \<notin> set ks \<longrightarrow> map_of (localPublications h') k = map_of (localPublications h) k \<and> map_of (localFresh h') k = map_of (localFresh h) k)
    \<and> (\<forall>k \<in> set ks. \<forall>p. map_of (localPublications h) k = Some p \<longrightarrow>
        map_of (localPublications h') k = (if pactive p = 1 then None else Some (p\<lparr>pactive := pactive p - 1\<rparr>))
      \<and> (if pactive p = 1 \<and> success \<and> \<not> poverlap p
         then \<exists>i. map_of (localFresh h') k = Some \<lparr>proofAt = at, proofId = i\<rparr> \<and> nextProof h \<le> i \<and> i < nextProof h'
         else map_of (localFresh h') k = map_of (localFresh h) k))"
  using assms
proof (induction ks arbitrary: h)
  case Nil
  then show ?case by simp
next
  case (Cons key ks)
  from Cons.prems(2) obtain p where p: "map_of (localPublications h) key = Some p" by auto
  define h1 where "h1 = the (finish_one at success key h)"
  have one: "finish_one at success key h = Some h1" by (simp add: h1_def finish_one_def p Let_def)
  have f1: "keepsMarkers h1 = keepsMarkers h" "localStale h1 = localStale h" "nextProof h \<le> nextProof h1"
    "go_map (localFresh h) \<longrightarrow> go_map (localFresh h1)"
    and o1: "\<forall>k. k \<noteq> key \<longrightarrow> map_of (localPublications h1) k = map_of (localPublications h) k \<and> map_of (localFresh h1) k = map_of (localFresh h) k"
    and p1: "map_of (localPublications h1) key = (if pactive p = 1 then None else Some (p\<lparr>pactive := pactive p - 1\<rparr>))"
    and l1: "if pactive p = 1 \<and> success \<and> \<not> poverlap p
         then map_of (localFresh h1) key = Some \<lparr>proofAt = at, proofId = nextProof h\<rparr> \<and> nextProof h < nextProof h1
         else map_of (localFresh h1) key = map_of (localFresh h) key"
    by (auto simp: h1_def finish_one_def p Let_def go_map_simps)
  have "\<forall>k \<in> set ks. map_of (localPublications h1) k \<noteq> None"
    using Cons.prems o1 by fastforce
  with Cons.IH [of h1] Cons.prems(1) obtain h' where h': "finish_all at success ks h1 = Some h'" "keepsMarkers h' = keepsMarkers h1" "localStale h' = localStale h1"
      "nextProof h1 \<le> nextProof h'" "go_map (localFresh h1) \<longrightarrow> go_map (localFresh h')"
    and out: "\<forall>k. k \<notin> set ks \<longrightarrow> map_of (localPublications h') k = map_of (localPublications h1) k \<and> map_of (localFresh h') k = map_of (localFresh h1) k"
    and ins: "\<forall>k \<in> set ks. \<forall>p. map_of (localPublications h1) k = Some p \<longrightarrow>
        map_of (localPublications h') k = (if pactive p = 1 then None else Some (p\<lparr>pactive := pactive p - 1\<rparr>))
      \<and> (if pactive p = 1 \<and> success \<and> \<not> poverlap p
         then \<exists>i. map_of (localFresh h') k = Some \<lparr>proofAt = at, proofId = i\<rparr> \<and> nextProof h1 \<le> i \<and> i < nextProof h'
         else map_of (localFresh h') k = map_of (localFresh h1) k)"
    by auto
  have key: "key \<notin> set ks" using Cons.prems(1) by simp
  show ?case
  proof (intro exI conjI allI ballI impI)
    show "finish_all at success (key # ks) h = Some h'" using one h'(1) by simp
    show "keepsMarkers h' = keepsMarkers h" "localStale h' = localStale h" "nextProof h \<le> nextProof h'"
      using h' f1 by auto
    show "go_map (localFresh h')" if "go_map (localFresh h)" using that h'(5) f1(4) by simp
    fix k
    assume "k \<notin> set (key # ks)"
    then show "map_of (localPublications h') k = map_of (localPublications h) k" "map_of (localFresh h') k = map_of (localFresh h) k"
      using out o1 by auto
  next
    fix k q
    assume k: "k \<in> set (key # ks)" and q: "map_of (localPublications h) k = Some q"
    show "map_of (localPublications h') k = (if pactive q = 1 then None else Some (q\<lparr>pactive := pactive q - 1\<rparr>))"
    proof (cases "k = key")
      case True
      with p q p1 out key show ?thesis by simp
    next
      case False
      with k q ins o1 show ?thesis by simp
    qed
    show "if pactive q = 1 \<and> success \<and> \<not> poverlap q
         then \<exists>i. map_of (localFresh h') k = Some \<lparr>proofAt = at, proofId = i\<rparr> \<and> nextProof h \<le> i \<and> i < nextProof h'
         else map_of (localFresh h') k = map_of (localFresh h) k"
    proof (cases "k = key")
      case True
      with p q have "q = p" by simp
      with True l1 out key h'(4) show ?thesis by auto
    next
      case False
      with k q ins o1 have "if pactive q = 1 \<and> success \<and> \<not> poverlap q
         then \<exists>i. map_of (localFresh h') k = Some \<lparr>proofAt = at, proofId = i\<rparr> \<and> nextProof h1 \<le> i \<and> i < nextProof h'
         else map_of (localFresh h') k = map_of (localFresh h) k" by simp
      with f1(3) show ?thesis by (metis order_trans)
    qed
  qed
qed

subsection \<open>Interleaved publications\<close>

text \<open>
  A handler with a cache that keeps no markers, seen from outside the cache: any number of
  publications run at once, each between its announcement and its end writing its generation under
  its keys in any order; entries may be lost at any time; invalidations are recorded at any time.
  A generation is the number of the publication that wrote it; \<open>startedAt\<close> remembers when the
  request or validation behind it began. \<^verbatim>\<open>Cache.Store\<close> and \<^verbatim>\<open>Cache.Freshen\<close> report success only
  after every key was written.
\<close>

record running =
  rid :: nat
  rat :: time
  rkeys :: "string list"
  written :: "string set"

record pubworld =
  marks :: handlerMarks
  runs :: "running list"
  backend :: "string \<Rightarrow> nat option"
  startedAt :: "nat \<Rightarrow> time"
  nextPub :: nat

inductive pub_step :: "pubworld \<Rightarrow> pubworld \<Rightarrow> bool" where
  start: "beginLocalPublication now at keys (marks w) = (Some (at', ks), m) \<Longrightarrow>
    pub_step w (w\<lparr>marks := m, runs := \<lparr>rid = nextPub w, rat = at', rkeys = ks, written = {}\<rparr> # runs w,
      startedAt := (startedAt w)(nextPub w := at'), nextPub := Suc (nextPub w)\<rparr>)"
| written_key: "runs w = rs @ r # rs' \<Longrightarrow> k \<in> set (rkeys r) \<Longrightarrow>
    pub_step w (w\<lparr>backend := (backend w)(k := Some (rid r)), runs := rs @ r\<lparr>written := insert k (written r)\<rparr> # rs'\<rparr>)"
| lose: "pub_step w (w\<lparr>backend := (backend w)(k := None)\<rparr>)"
| finish: "runs w = rs @ r # rs' \<Longrightarrow> (success \<Longrightarrow> set (rkeys r) \<subseteq> written r) \<Longrightarrow>
    finishLocalPublication now (rat r) (rkeys r) success (marks w) = Some m \<Longrightarrow> pub_step w (w\<lparr>marks := m, runs := rs @ rs'\<rparr>)"
| invalidate: "pub_step w (w\<lparr>marks := recordStale now keys (marks w)\<rparr>)"

inductive_cases pub_stepE: "pub_step w w'"

abbreviation pub_steps :: "pubworld \<Rightarrow> pubworld \<Rightarrow> bool" where
  "pub_steps \<equiv> pub_step\<^sup>*\<^sup>*"

definition touching :: "string \<Rightarrow> running list \<Rightarrow> running list" where
  "touching k rs = filter (\<lambda>r. k \<in> set (rkeys r)) rs"

definition run_ok :: "pubworld \<Rightarrow> running \<Rightarrow> bool" where
  "run_ok w r \<longleftrightarrow> distinct (rkeys r) \<and> rid r < nextPub w \<and> startedAt w (rid r) = rat r"

definition key_ok :: "pubworld \<Rightarrow> string \<Rightarrow> bool" where
  "key_ok w k \<longleftrightarrow>
     (case map_of (localPublications (marks w)) k of
        None \<Rightarrow> touching k (runs w) = []
      | Some p \<Rightarrow> touching k (runs w) \<noteq> [] \<and> pactive p = int (length (touching k (runs w)))
          \<and> (\<not> poverlap p \<longrightarrow> (\<exists>r. touching k (runs w) = [r] \<and> (k \<in> written r \<longrightarrow> backend w k \<in> {None, Some (rid r)}))))
   \<and> (case map_of (localFresh (marks w)) k of
        None \<Rightarrow> True
      | Some q \<Rightarrow> map_of (localPublications (marks w)) k = None \<and> proofId q < nextProof (marks w)
          \<and> (\<forall>n. backend w k = Some n \<longrightarrow> startedAt w n = proofAt q))
   \<and> (\<forall>n. backend w k = Some n \<longrightarrow> n < nextPub w)"

definition pub_ok :: "pubworld \<Rightarrow> bool" where
  "pub_ok w \<longleftrightarrow> \<not> keepsMarkers (marks w) \<and> go_map (localFresh (marks w)) \<and> list_all (run_ok w) (runs w) \<and> (\<forall>k. key_ok w k)"

lemma touching_simps [simp]:
  "touching k [] = []" "touching k (rs @ rs') = touching k rs @ touching k rs'"
  "touching k (r # rs) = (if k \<in> set (rkeys r) then r # touching k rs else touching k rs)"
  by (simp_all add: touching_def)

lemma pub_ok_start:
  assumes ok: "pub_ok w" and b: "beginLocalPublication now at keys (marks w) = (Some (at', ks), m)"
  shows "pub_ok (w\<lparr>marks := m, runs := \<lparr>rid = nextPub w, rat = at', rkeys = ks, written = {}\<rparr> # runs w,
      startedAt := (startedAt w)(nextPub w := at'), nextPub := Suc (nextPub w)\<rparr>)" (is "pub_ok ?w")
proof -
  have ks: "ks = compact (sort keys)" and m: "m = foldl begin_one (marks w) ks"
    using b ok by (auto simp: beginLocalPublication_def pub_ok_def Let_def)
  have d: "distinct ks" using compact_sorted_distinct [of "sort keys"] ks by simp
  note old = begun_all(2-) [of "marks w" ks] begun_all(1) [OF d, of "marks w"]
  have runs: "list_all (run_ok ?w) (runs ?w)"
    using ok d by (auto simp: pub_ok_def run_ok_def list_all_iff)
  have "key_ok ?w k" for k
  proof -
    have k: "key_ok w k" using ok by (simp add: pub_ok_def)
    show ?thesis
    proof (cases "k \<in> set ks")
      case True
      then show ?thesis using k
        by (auto simp: key_ok_def m old begun_def split: option.splits)
    next
      case False
      then show ?thesis using k
        by (auto simp: key_ok_def m old split: option.splits)
    qed
  qed
  with ok runs show ?thesis by (simp add: pub_ok_def m old)
qed

lemma pub_ok_write:
  assumes ok: "pub_ok w" and rs: "runs w = rs @ r # rs'" and k: "k \<in> set (rkeys r)"
  shows "pub_ok (w\<lparr>backend := (backend w)(k := Some (rid r)), runs := rs @ r\<lparr>written := insert k (written r)\<rparr> # rs'\<rparr>)" (is "pub_ok ?w")
proof -
  have "key_ok ?w j" for j
  proof -
    have j: "key_ok w j" and k': "key_ok w k" using ok by (simp_all add: pub_ok_def)
    have r: "rid r < nextPub w" using ok rs by (simp add: pub_ok_def run_ok_def)
    show ?thesis
    proof (cases "j = k")
      case True
      with k' k r rs show ?thesis
        by (auto simp: key_ok_def append_eq_Cons_conv Cons_eq_append_conv split: option.splits)
    next
      case False
      with j rs show ?thesis
        by (auto simp: key_ok_def append_eq_Cons_conv split: option.splits if_splits)
    qed
  qed
  with ok rs show ?thesis by (simp add: pub_ok_def run_ok_def list_all_iff)
qed

lemma key_ok_lose: "key_ok w j \<Longrightarrow> key_ok (w\<lparr>backend := (backend w)(k := None)\<rparr>) j"
  by (cases "j = k") (auto simp: key_ok_def split: option.splits)

lemma pub_ok_lose: "pub_ok w \<Longrightarrow> pub_ok (w\<lparr>backend := (backend w)(k := None)\<rparr>)"
  by (simp add: pub_ok_def key_ok_lose run_ok_def list_all_iff)

lemma pub_ok_invalidate:
  assumes "pub_ok w"
  shows "pub_ok (w\<lparr>marks := recordStale now keys (marks w)\<rparr>)"
proof -
  have "key_ok (w\<lparr>marks := recordStale now keys (marks w)\<rparr>) k" for k
  proof -
    have "key_ok w k" "\<not> keepsMarkers (marks w)" "go_map (localFresh (marks w))" using assms by (simp_all add: pub_ok_def)
    then show ?thesis
      by (auto simp: key_ok_def recordStale_def Let_def go_map_simps split: option.splits)
  qed
  with assms show ?thesis
    by (simp add: pub_ok_def recordStale_def Let_def run_ok_def list_all_iff)
qed

text \<open>Ending a running publication finds its counters, and trusts it only if it ran alone.\<close>

definition finished :: "pubworld \<Rightarrow> running \<Rightarrow> bool \<Rightarrow> handlerMarks \<Rightarrow> bool" where
  "finished w r success m \<longleftrightarrow> keepsMarkers m = keepsMarkers (marks w) \<and> localStale m = localStale (marks w)
    \<and> nextProof (marks w) \<le> nextProof m \<and> go_map (localFresh m)
    \<and> (\<forall>k. k \<notin> set (rkeys r) \<longrightarrow> map_of (localPublications m) k = map_of (localPublications (marks w)) k
        \<and> map_of (localFresh m) k \<in> {None, map_of (localFresh (marks w)) k})
    \<and> (\<forall>k \<in> set (rkeys r). \<exists>p. map_of (localPublications (marks w)) k = Some p
        \<and> map_of (localPublications m) k = (if pactive p = 1 then None else Some (p\<lparr>pactive := pactive p - 1\<rparr>))
        \<and> (if pactive p = 1 \<and> success \<and> \<not> poverlap p
           then \<exists>i. map_of (localFresh m) k = Some \<lparr>proofAt = rat r, proofId = i\<rparr> \<and> nextProof (marks w) \<le> i \<and> i < nextProof m
           else map_of (localFresh m) k = None))"

lemma finish_running:
  assumes ok: "pub_ok w" and r: "r \<in> set (runs w)"
  shows "\<exists>m. finishLocalPublication now (rat r) (rkeys r) success (marks w) = Some m \<and> finished w r success m"
proof -
  define h where "h = (marks w)\<lparr>localFresh := filter (\<lambda>(key, p). \<not> proofAt p < now - staleMarkerTTL (marks w)) (localFresh (marks w))\<rparr>"
  have h: "keepsMarkers h = keepsMarkers (marks w)" "localStale h = localStale (marks w)" "nextProof h = nextProof (marks w)"
    "localPublications h = localPublications (marks w)" by (simp_all add: h_def)
  have run: "distinct (rkeys r)" using ok r by (auto simp: pub_ok_def run_ok_def list_all_iff)
  have go: "go_map (localFresh (marks w))" using ok by (simp add: pub_ok_def)
  then have go_h: "go_map (localFresh h)" by (simp add: h_def)
  have busy: "\<exists>p. map_of (localPublications (marks w)) k = Some p \<and> map_of (localFresh (marks w)) k = None" if "k \<in> set (rkeys r)" for k
  proof -
    have "r \<in> set (touching k (runs w))" using r that by (simp add: touching_def)
    then have "touching k (runs w) \<noteq> []" by auto
    moreover have "key_ok w k" using ok by (simp add: pub_ok_def)
    ultimately show ?thesis by (auto simp: key_ok_def split: option.splits)
  qed
  have fresh: "map_of (localFresh h) k \<in> {None, map_of (localFresh (marks w)) k}" for k
    using go by (simp add: h_def go_map_simps split: option.split)
  have "\<forall>k \<in> set (rkeys r). map_of (localPublications h) k \<noteq> None" using busy h(4) by fastforce
  from finish_all_ok [OF run this, of "rat r" success] obtain m where
      m: "finish_all (rat r) success (rkeys r) h = Some m" "keepsMarkers m = keepsMarkers h" "localStale m = localStale h"
      "nextProof h \<le> nextProof m" "go_map (localFresh h) \<longrightarrow> go_map (localFresh m)"
    and out: "\<forall>k. k \<notin> set (rkeys r) \<longrightarrow> map_of (localPublications m) k = map_of (localPublications h) k \<and> map_of (localFresh m) k = map_of (localFresh h) k"
    and ins: "\<forall>k \<in> set (rkeys r). \<forall>p. map_of (localPublications h) k = Some p \<longrightarrow>
        map_of (localPublications m) k = (if pactive p = 1 then None else Some (p\<lparr>pactive := pactive p - 1\<rparr>))
      \<and> (if pactive p = 1 \<and> success \<and> \<not> poverlap p
         then \<exists>i. map_of (localFresh m) k = Some \<lparr>proofAt = rat r, proofId = i\<rparr> \<and> nextProof h \<le> i \<and> i < nextProof m
         else map_of (localFresh m) k = map_of (localFresh h) k)"
    by (elim exE conjE)
  have "finishLocalPublication now (rat r) (rkeys r) success (marks w) = Some m"
    using m(1) by (simp add: finishLocalPublication_def Let_def h_def)
  moreover have "finished w r success m"
    unfolding finished_def
  proof (intro conjI allI ballI impI)
    show "keepsMarkers m = keepsMarkers (marks w)" "localStale m = localStale (marks w)" "nextProof (marks w) \<le> nextProof m"
      "go_map (localFresh m)"
      using m go_h h by simp_all
    show "map_of (localPublications m) k = map_of (localPublications (marks w)) k"
      "map_of (localFresh m) k \<in> {None, map_of (localFresh (marks w)) k}"
      if "k \<notin> set (rkeys r)" for k
      using out that fresh [of k] h(4) by simp_all
  next
    fix k
    assume k: "k \<in> set (rkeys r)"
    from busy [OF k] obtain p where p: "map_of (localPublications h) k = Some p" "map_of (localFresh (marks w)) k = None" using h(4) by auto
    with fresh [of k] have "map_of (localFresh h) k = None" by auto
    with ins k p h show "\<exists>p. map_of (localPublications (marks w)) k = Some p
        \<and> map_of (localPublications m) k = (if pactive p = 1 then None else Some (p\<lparr>pactive := pactive p - 1\<rparr>))
        \<and> (if pactive p = 1 \<and> success \<and> \<not> poverlap p
           then \<exists>i. map_of (localFresh m) k = Some \<lparr>proofAt = rat r, proofId = i\<rparr> \<and> nextProof (marks w) \<le> i \<and> i < nextProof m
           else map_of (localFresh m) k = None)" by metis
  qed
  ultimately show ?thesis by blast
qed

lemma finished_key:
  assumes "finished w r success m" "k \<in> set (rkeys r)"
  obtains p where "map_of (localPublications (marks w)) k = Some p"
    and "map_of (localPublications m) k = (if pactive p = 1 then None else Some (p\<lparr>pactive := pactive p - 1\<rparr>))"
    and "pactive p = 1 \<and> success \<and> \<not> poverlap p \<longrightarrow>
      (\<exists>i. map_of (localFresh m) k = Some \<lparr>proofAt = rat r, proofId = i\<rparr> \<and> nextProof (marks w) \<le> i \<and> i < nextProof m)"
    and "\<not> (pactive p = 1 \<and> success \<and> \<not> poverlap p) \<longrightarrow> map_of (localFresh m) k = None"
proof -
  from assms have "\<exists>p. map_of (localPublications (marks w)) k = Some p
        \<and> map_of (localPublications m) k = (if pactive p = 1 then None else Some (p\<lparr>pactive := pactive p - 1\<rparr>))
        \<and> (if pactive p = 1 \<and> success \<and> \<not> poverlap p
           then \<exists>i. map_of (localFresh m) k = Some \<lparr>proofAt = rat r, proofId = i\<rparr> \<and> nextProof (marks w) \<le> i \<and> i < nextProof m
           else map_of (localFresh m) k = None)"
    unfolding finished_def by (elim conjE bspec)
  then show thesis unfolding if_bool_eq_conj by (elim exE conjE) (rule that)
qed

lemma pub_ok_finish:
  assumes ok: "pub_ok w" and rs: "runs w = rs @ r # rs'" and s: "success \<Longrightarrow> set (rkeys r) \<subseteq> written r"
    and f: "finishLocalPublication now (rat r) (rkeys r) success (marks w) = Some m"
  shows "pub_ok (w\<lparr>marks := m, runs := rs @ rs'\<rparr>)" (is "pub_ok ?w")
proof -
  have "r \<in> set (runs w)" using rs by simp
  from finish_running [OF ok this, of now success] f have fin: "finished w r success m" by auto
  then have fr: "keepsMarkers m = keepsMarkers (marks w)" "nextProof (marks w) \<le> nextProof m" "go_map (localFresh m)"
    by (simp_all add: finished_def)
  have started: "startedAt w (rid r) = rat r" using ok rs by (simp add: pub_ok_def run_ok_def)
  have "key_ok ?w k" for k
  proof (cases "k \<in> set (rkeys r)")
    case False
    then have "map_of (localPublications m) k = map_of (localPublications (marks w)) k"
      "map_of (localFresh m) k \<in> {None, map_of (localFresh (marks w)) k}" using fin by (simp_all add: finished_def)
    moreover have "key_ok w k" using ok by (simp add: pub_ok_def)
    ultimately show ?thesis using False rs fr(2)
      unfolding key_ok_def by (auto split: option.splits)
  next
    case True
    from fin True obtain p where p: "map_of (localPublications (marks w)) k = Some p"
      "map_of (localPublications m) k = (if pactive p = 1 then None else Some (p\<lparr>pactive := pactive p - 1\<rparr>))"
      "pactive p = 1 \<and> success \<and> \<not> poverlap p \<longrightarrow>
      (\<exists>i. map_of (localFresh m) k = Some \<lparr>proofAt = rat r, proofId = i\<rparr> \<and> nextProof (marks w) \<le> i \<and> i < nextProof m)"
      "\<not> (pactive p = 1 \<and> success \<and> \<not> poverlap p) \<longrightarrow> map_of (localFresh m) k = None"
      by (rule finished_key)
    have k: "key_ok w k" using ok by (simp add: pub_ok_def)
    have len: "pactive p = 1 + int (length (touching k (rs @ rs')))" using k p(1) True rs by (simp add: key_ok_def)
    have alone: "touching k (rs @ rs') = [] \<and> (k \<in> written r \<longrightarrow> backend w k \<in> {None, Some (rid r)})" if "\<not> poverlap p"
      using k p(1) True rs that by (auto simp: key_ok_def append_eq_Cons_conv)
    show ?thesis
    proof (cases "pactive p = 1 \<and> success \<and> \<not> poverlap p")
      case True
      with p(3) obtain i where "map_of (localFresh m) k = Some \<lparr>proofAt = rat r, proofId = i\<rparr>" "i < nextProof m" by auto
      with True p(2) alone s \<open>k \<in> set (rkeys r)\<close> started k show ?thesis
        by (auto simp: key_ok_def)
    next
      case False
      then have "map_of (localFresh m) k = None" using p(4) by blast
      moreover have "\<forall>n. backend w k = Some n \<longrightarrow> n < nextPub w" using k by (simp add: key_ok_def)
      moreover have "pactive p = 1 \<longleftrightarrow> touching k (rs @ rs') = []" using len by (simp del: touching_simps)
      ultimately show ?thesis using p(2) len alone
        by (simp add: key_ok_def del: touching_simps) blast
    qed
  qed
  with ok rs fr show ?thesis
    by (simp add: pub_ok_def run_ok_def list_all_iff)
qed

lemma pub_ok_step:
  assumes "pub_step w w'" "pub_ok w"
  shows "pub_ok w'"
  using assms
proof (cases rule: pub_step.cases)
  case start
  with assms(2) show ?thesis by (auto intro: pub_ok_start)
next
  case written_key
  with assms(2) show ?thesis by (auto intro: pub_ok_write)
next
  case lose
  with assms(2) show ?thesis by (auto intro: pub_ok_lose)
next
  case finish
  with assms(2) show ?thesis by (auto intro: pub_ok_finish)
next
  case invalidate
  with assms(2) show ?thesis by (auto intro: pub_ok_invalidate)
qed

lemma pub_ok_steps: "pub_steps w w' \<Longrightarrow> pub_ok w \<Longrightarrow> pub_ok w'"
  by (induction rule: rtranclp_induct) (auto intro: pub_ok_step)

text \<open>A proof that has gone does not come back: identities are used once.\<close>

definition spent :: "string \<Rightarrow> localFreshProof \<Rightarrow> handlerMarks \<Rightarrow> bool" where
  "spent k q h \<longleftrightarrow> proofId q < nextProof h \<and> map_of (localFresh h) k \<noteq> Some q"

lemma spent_step:
  assumes "pub_step w w'" "pub_ok w" "spent k q (marks w)"
  shows "spent k q (marks w')"
  using assms(1)
proof (cases rule: pub_step.cases)
  case (start now at keys at' ks m)
  with assms(2,3) show ?thesis
    by (auto simp: spent_def beginLocalPublication_def pub_ok_def Let_def begun_all split: if_splits)
next
  case (finish rs r rs' success now m)
  from finish(2) have "r \<in> set (runs w)" by simp
  from finish_running [OF assms(2) this, of now success] finish(4) have fin: "finished w r success m" by auto
  show ?thesis
  proof (cases "k \<in> set (rkeys r)")
    case True
    from finished_key [OF fin this] have "map_of (localFresh m) k = None
        \<or> (\<exists>i. map_of (localFresh m) k = Some \<lparr>proofAt = rat r, proofId = i\<rparr> \<and> nextProof (marks w) \<le> i)" by metis
    with fin assms(3) finish(1) show ?thesis by (auto simp: spent_def finished_def)
  next
    case False
    with fin have "map_of (localFresh m) k \<in> {None, map_of (localFresh (marks w)) k}" by (simp add: finished_def)
    with fin assms(3) finish(1) show ?thesis by (auto simp: spent_def finished_def)
  qed
next
  case (invalidate now keys)
  with assms(2,3) show ?thesis
    by (auto simp: spent_def recordStale_def pub_ok_def Let_def go_map_simps split: option.splits)
qed (use assms(3) in simp_all)

lemma spent_steps: "pub_steps w w' \<Longrightarrow> pub_ok w \<Longrightarrow> spent k q (marks w) \<Longrightarrow> spent k q (marks w')"
  by (induction rule: rtranclp_induct) (auto intro: spent_step pub_ok_steps)

lemma proof_id_old: "pub_ok w \<Longrightarrow> map_of (localFresh (marks w)) k = Some q \<Longrightarrow> proofId q < nextProof (marks w)"
  by (auto simp: pub_ok_def key_ok_def dest!: spec [of _ k] split: option.splits)

lemma nextProof_step:
  assumes "pub_step w w'" "pub_ok w"
  shows "nextProof (marks w) \<le> nextProof (marks w')"
  using assms(1)
proof (cases rule: pub_step.cases)
  case (start now at keys at' ks m)
  with assms(2) show ?thesis by (auto simp: beginLocalPublication_def pub_ok_def Let_def begun_all)
next
  case (finish rs r rs' success now m)
  with finish_running [OF assms(2), of r now success] show ?thesis by (auto simp: finished_def)
qed (use assms(2) in \<open>simp_all add: recordStale_def pub_ok_def Let_def\<close>)

lemma nextProof_steps: "pub_steps w w' \<Longrightarrow> pub_ok w \<Longrightarrow> nextProof (marks w) \<le> nextProof (marks w')"
  by (induction rule: rtranclp_induct) (auto dest: nextProof_step pub_ok_steps)

lemma proof_between:
  assumes "pub_ok w0" "pub_steps w0 w1" "pub_steps w1 w2"
    and "map_of (localFresh (marks w0)) k = Some q" "map_of (localFresh (marks w2)) k = Some q"
  shows "map_of (localFresh (marks w1)) k = Some q"
proof (rule ccontr)
  assume no: "map_of (localFresh (marks w1)) k \<noteq> Some q"
  from nextProof_steps [OF assms(2,1)] assms(1,4) proof_id_old have "proofId q < nextProof (marks w1)" by (meson order_less_le_trans)
  with no have "spent k q (marks w1)" by (simp add: spent_def)
  from spent_steps [OF assms(3) _ this] pub_ok_steps [OF assms(2,1)] assms(5) show False by (simp add: spent_def)
qed

text \<open>What a retrieval may conclude, with any steps of others between its snapshots and its call.\<close>

lemma evidence_identifies:
  assumes ok: "pub_ok w0" and st: "pub_steps w0 w1" "pub_steps w1 w2"
    and read: "backend w1 key = Some n"
    and res: "generationRetriever (marks w0) (marks w2) key (Inr r) = Inr res" and t: "handlerStoredAt res \<noteq> 0"
  shows "handlerStoredAt res = startedAt w1 n"
proof -
  have "\<not> keepsMarkers (marks w0)" using ok by (simp add: pub_ok_def)
  with res t obtain q where q: "map_of (localFresh (marks w0)) key = Some q" "map_of (localFresh (marks w2)) key = Some q"
      "handlerStoredAt res = proofAt q"
    by (auto simp: generationRetriever_def localPublicationSnapshot_def split: if_splits) (metis option.sel)
  from proof_between [OF ok st q(1,2)] have "map_of (localFresh (marks w1)) key = Some q" .
  with pub_ok_steps [OF st(1) ok] read q(3) show ?thesis
    by (auto simp: pub_ok_def key_ok_def dest!: spec [of _ key] split: option.splits)
qed

end
