(* ===== verification/Url_Parse.thy ===== *)
theory Url_Parse
  imports Url
begin

text \<open>
  The parser of package \<^verbatim>\<open>net/url\<close> and what else the invalidation code of \<^verbatim>\<open>src/handler.go\<close> uses of
  it: \<^verbatim>\<open>url.Parse\<close>, \<^verbatim>\<open>URL.Hostname\<close>, \<^verbatim>\<open>URL.Port\<close>, \<^verbatim>\<open>URL.RequestURI\<close> and \<^verbatim>\<open>URL.ResolveReference\<close>. A parse
  error is \<open>None\<close>. Host names in brackets (IP literals, with a zone or not) are checked by a parameter.
\<close>

type_synonym ip_literal = "string \<Rightarrow> string option"
  \<comment> \<open>from the text of a bracketed host and port to the unescaped host, or an error\<close>

definition Cut :: "char \<Rightarrow> string \<Rightarrow> string \<times> string \<times> bool" where
  \<comment> \<open>\<^verbatim>\<open>strings.Cut\<close>\<close>
  "Cut c s = (takeWhile (\<lambda>x. x \<noteq> c) s, drop 1 (dropWhile (\<lambda>x. x \<noteq> c) s), c \<in> set s)"

definition after_last :: "char \<Rightarrow> string \<Rightarrow> string" where
  "after_last c s = rev (takeWhile (\<lambda>x. x \<noteq> c) (rev s))"

definition before_last :: "char \<Rightarrow> string \<Rightarrow> string" where
  \<comment> \<open>the text before the last occurrence, empty if there is none\<close>
  "before_last c s = rev (drop 1 (dropWhile (\<lambda>x. x \<noteq> c) (rev s)))"

definition has_ctl :: "string \<Rightarrow> bool" where
  "has_ctl s = list_ex (\<lambda>c. code c < 32 \<or> code c = 127) s"

fun scheme_scan :: "string \<Rightarrow> string \<Rightarrow> (string \<times> string) option option" where
  \<comment> \<open>\<^verbatim>\<open>getScheme\<close>: \<open>Some None\<close> when there is no scheme; the first argument is what was passed\<close>
  "scheme_scan acc [] = Some None"
| "scheme_scan acc (c # cs) =
     (if is_letter c then scheme_scan (acc @ [c]) cs
      else if is_digit c \<or> c = CHR ''+'' \<or> c = CHR ''-'' \<or> c = CHR ''.''
        then (if acc = [] then Some None else scheme_scan (acc @ [c]) cs)
      else if c = CHR '':'' then (if acc = [] then None else Some (Some (acc, cs)))
      else Some None)"

definition getScheme :: "string \<Rightarrow> (string \<times> string) option" where
  "getScheme s = (case scheme_scan [] s of None \<Rightarrow> None | Some None \<Rightarrow> Some ([], s) | Some (Some r) \<Rightarrow> Some r)"

definition validOptionalPort :: "string \<Rightarrow> bool" where
  "validOptionalPort port = (port = [] \<or> hd port = CHR '':'' \<and> list_all is_digit (tl port))"

fun host_unescapable :: "string \<Rightarrow> bool" where
  \<comment> \<open>the checks of \<^verbatim>\<open>unescape\<close> in host mode: only non-ASCII bytes and the percent sign may be encoded\<close>
  "host_unescapable [] = True"
| "host_unescapable (c # cs) =
     (if c = CHR ''%'' then
        (case cs of a # b # r \<Rightarrow>
            (case (unhex a, unhex b) of (Some x, Some y) \<Rightarrow> (8 \<le> x \<or> (x = 2 \<and> y = 5)) \<and> host_unescapable r | _ \<Rightarrow> False)
         | _ \<Rightarrow> False)
      else (code c < 128 \<longrightarrow> \<not> shouldEscape c encodeHost) \<and> host_unescapable cs)"

definition parseHost :: "ip_literal \<Rightarrow> string \<Rightarrow> string option" where
  "parseHost ip host =
     (if host \<noteq> [] \<and> hd host = CHR ''['' then ip host
      else if CHR '':'' \<in> set host \<and> \<not> validOptionalPort (dropWhile (\<lambda>c. c \<noteq> CHR '':'') host) then None
      else if host_unescapable host then unescape host else None)"

definition validUserinfo :: "string \<Rightarrow> bool" where
  "validUserinfo s = list_all (\<lambda>c. is_letter c \<or> is_digit c \<or> c \<in> {CHR ''-'', CHR ''.'', CHR ''_'', CHR '':'', CHR ''~'',
      CHR ''!'', CHR ''$'', CHR ''&'', CHR 0x27, CHR ''('', CHR '')'', CHR ''*'', CHR ''+'', CHR '','', CHR '';'', CHR ''='',
      CHR ''%'', CHR ''@''}) s"

definition parseAuthority :: "ip_literal \<Rightarrow> string \<Rightarrow> ((string \<times> string option) option \<times> string) option" where
  "parseAuthority ip authority =
     (case parseHost ip (after_last CHR ''@'' authority) of None \<Rightarrow> None
      | Some host \<Rightarrow>
          if CHR ''@'' \<notin> set authority then Some (None, host)
          else let userinfo = before_last CHR ''@'' authority in
          if \<not> validUserinfo userinfo then None
          else if CHR '':'' \<notin> set userinfo then
            (case unescape userinfo of None \<Rightarrow> None | Some name \<Rightarrow> Some (Some (name, None), host))
          else let (username, password, _) = Cut CHR '':'' userinfo in
            (case (unescape username, unescape password) of
               (Some name, Some pw) \<Rightarrow> Some (Some (name, Some pw), host)
             | _ \<Rightarrow> None))"

definition setPath :: "string \<Rightarrow> url \<Rightarrow> url option" where
  "setPath p u = (case unescape p of None \<Rightarrow> None
     | Some path \<Rightarrow> Some (u\<lparr>Path := path, RawPath := (if p = escape path encodePath then [] else p)\<rparr>))"

definition setFragment :: "string \<Rightarrow> url \<Rightarrow> url option" where
  "setFragment f u = (case unescape f of None \<Rightarrow> None
     | Some frag \<Rightarrow> Some (u\<lparr>Fragment := frag, RawFragment := (if f = escape frag encodeFragment then [] else f)\<rparr>))"

definition empty_url :: url where
  "empty_url = \<lparr>Scheme = [], Opaque = [], User = None, Host = [], Path = [], RawPath = [], OmitHost = False,
     ForceQuery = False, RawQuery = [], Fragment = [], RawFragment = []\<rparr>"

definition url_hierarchy :: "ip_literal \<Rightarrow> url \<Rightarrow> string \<Rightarrow> url option" where
  \<comment> \<open>the end of \<^verbatim>\<open>parse\<close>: an authority, if there is one, and the path\<close>
  "url_hierarchy ip u rest =
     (if (Scheme u \<noteq> [] \<or> take 3 rest \<noteq> ''///'') \<and> take 2 rest = ''//'' then
        let authority = takeWhile (\<lambda>c. c \<noteq> CHR ''/'') (drop 2 rest); rest = dropWhile (\<lambda>c. c \<noteq> CHR ''/'') (drop 2 rest)
        in case parseAuthority ip authority of None \<Rightarrow> None
           | Some (user, host) \<Rightarrow> setPath rest (u\<lparr>User := user, Host := host\<rparr>)
      else setPath rest (if Scheme u \<noteq> [] \<and> take 1 rest = ''/'' then u\<lparr>OmitHost := True\<rparr> else u))"

definition url_parse_rest :: "ip_literal \<Rightarrow> string \<Rightarrow> url option" where
  \<comment> \<open>\<^verbatim>\<open>parse\<close> with \<^verbatim>\<open>viaRequest\<close> false\<close>
  "url_parse_rest ip raw =
     (if has_ctl raw then None
      else if raw = ''*'' then Some (empty_url\<lparr>Path := ''*''\<rparr>)
      else case getScheme raw of None \<Rightarrow> None
      | Some (scheme, rest) \<Rightarrow>
          let u = empty_url\<lparr>Scheme := ToLower scheme\<rparr>;
              (u, rest) = (if rest \<noteq> [] \<and> last rest = CHR ''?'' \<and> count_list rest CHR ''?'' = 1
                           then (u\<lparr>ForceQuery := True\<rparr>, butlast rest)
                           else let (r, q, _) = Cut CHR ''?'' rest in (u\<lparr>RawQuery := q\<rparr>, r))
          in if take 1 rest \<noteq> ''/'' \<and> Scheme u \<noteq> [] then Some (u\<lparr>Opaque := rest\<rparr>)
             else if take 1 rest \<noteq> ''/'' \<and> CHR '':'' \<in> set (takeWhile (\<lambda>c. c \<noteq> CHR ''/'') rest) then None
             else url_hierarchy ip u rest)"

definition url_Parse :: "ip_literal \<Rightarrow> string \<Rightarrow> url option" where
  "url_Parse ip raw =
     (let (u, frag, _) = Cut CHR ''#'' raw in
      case url_parse_rest ip u of None \<Rightarrow> None
      | Some url \<Rightarrow> if frag = [] then Some url else setFragment frag url)"

subsection \<open>Authorities and request targets\<close>

definition splitHostPort :: "string \<Rightarrow> string \<times> string" where
  "splitHostPort hostPort =
     (let (host, port) = (if CHR '':'' \<in> set hostPort \<and> validOptionalPort (CHR '':'' # after_last CHR '':'' hostPort)
                          then (before_last CHR '':'' hostPort, after_last CHR '':'' hostPort) else (hostPort, []))
      in (if host \<noteq> [] \<and> hd host = CHR ''['' \<and> last host = CHR '']'' then butlast (tl host) else host, port))"

definition Hostname :: "url \<Rightarrow> string" where
  "Hostname u = fst (splitHostPort (Host u))"

definition Port :: "url \<Rightarrow> string" where
  "Port u = snd (splitHostPort (Host u))"

definition url_RequestURI :: "url \<Rightarrow> string" where
  "url_RequestURI u =
     (if Opaque u = [] then (if EscapedPath u = [] then ''/'' else EscapedPath u)
      else if take 2 (Opaque u) = ''//'' then Scheme u @ '':'' @ Opaque u else Opaque u) @
     (if ForceQuery u \<or> RawQuery u \<noteq> [] then CHR ''?'' # RawQuery u else [])"

subsection \<open>References\<close>

fun resolve_elems :: "string \<Rightarrow> bool \<Rightarrow> string list \<Rightarrow> string" where
  \<comment> \<open>the loop of \<^verbatim>\<open>resolvePath\<close> over the elements; \<open>dst\<close> is what was written after the leading slash\<close>
  "resolve_elems dst first [] = dst"
| "resolve_elems dst first (elem # elems) =
     (if elem = ''.'' then resolve_elems dst False elems
      else if elem = ''..'' then
        (if CHR ''/'' \<in> set dst then resolve_elems (before_last CHR ''/'' dst) first elems else resolve_elems [] True elems)
      else resolve_elems (dst @ (if first then [] else ''/'') @ elem) False elems)"

definition resolvePath :: "string \<Rightarrow> string \<Rightarrow> string" where
  "resolvePath base ref =
     (let full = (if ref = [] then base
                  else if hd ref \<noteq> CHR ''/'' then (if CHR ''/'' \<in> set base then before_last CHR ''/'' base @ ''/'' else []) @ ref
                  else ref)
      in if full = [] then []
         else let elems = Split CHR ''/'' full;
                  r = CHR ''/'' # resolve_elems [] True elems @ (if last elems = ''.'' \<or> last elems = ''..'' then ''/'' else [])
              in if length r > 1 \<and> r ! 1 = CHR ''/'' then tl r else r)"

definition ResolveReference :: "url \<Rightarrow> url \<Rightarrow> url" where
  "ResolveReference u ref =
     (let put = (\<lambda>p v. case setPath p v of None \<Rightarrow> v | Some v \<Rightarrow> v);
          url = (if Scheme ref = [] then ref\<lparr>Scheme := Scheme u\<rparr> else ref) in
      if Scheme ref \<noteq> [] \<or> Host ref \<noteq> [] \<or> User ref \<noteq> None then put (resolvePath (EscapedPath ref) []) url
      else if Opaque ref \<noteq> [] then url\<lparr>User := None, Host := [], Path := []\<rparr>
      else
        let url = (if Path ref = [] \<and> \<not> ForceQuery ref \<and> RawQuery ref = []
                   then (if Fragment ref = [] then url\<lparr>RawQuery := RawQuery u, Fragment := Fragment u, RawFragment := RawFragment u\<rparr>
                         else url\<lparr>RawQuery := RawQuery u\<rparr>) else url)
        in if Path ref = [] \<and> Opaque u \<noteq> [] then url\<lparr>Opaque := Opaque u, User := None, Host := [], Path := []\<rparr>
           else put (resolvePath (EscapedPath u) (EscapedPath ref)) (url\<lparr>Host := Host u, User := User u\<rparr>))"

end
