(* ===== verification/Origin.thy ===== *)
theory Origin
  imports Policy Url_Parse
begin

text \<open>
  Which entries a successful unsafe request makes stale (\<^verbatim>\<open>sameOriginURL\<close>, \<^verbatim>\<open>invalidationTarget\<close> and
  \<^verbatim>\<open>invalidationKeys\<close> of \<^verbatim>\<open>src/handler.go\<close>, and their variant for an application's own key policy in
  \<^verbatim>\<open>src/miss_coordinator.go\<close>): the request's own URL, and those its response names in \<^verbatim>\<open>Location\<close> and
  \<^verbatim>\<open>Content-Location\<close> if they belong to the same origin.
\<close>

subsection \<open>Origins\<close>

definition originScheme :: "cacheRequest \<Rightarrow> string" where
  "originScheme r =
     (let scheme = ToLower (Scheme (URL (Request r))) in
      if scheme \<noteq> [] then scheme else if TLS (Request r) then ''https'' else ''http'')"

definition ParseUint16 :: "string \<Rightarrow> int option" where
  \<comment> \<open>\<^verbatim>\<open>strconv.ParseUint(s, 10, 16)\<close>\<close>
  "ParseUint16 s = (if s = [] \<or> \<not> list_all is_digit s \<or> 65535 < digits_val s then None else Some (digits_val s))"

definition normalizedOriginAuthority :: "ip_literal \<Rightarrow> string \<Rightarrow> string \<Rightarrow> (string \<times> string) option" where
  "normalizedOriginAuthority ip scheme authority =
     (case url_Parse ip (''//'' @ authority) of None \<Rightarrow> None
      | Some u \<Rightarrow>
          if Host u = [] then None
          else if Hostname u = [] then None
          else if Port u = [] then
            Some (Hostname u, if ToLower scheme = ''http'' then ''80'' else if ToLower scheme = ''https'' then ''443'' else [])
          else (case ParseUint16 (Port u) of None \<Rightarrow> None | Some n \<Rightarrow> Some (Hostname u, Itoa n)))"

definition matchesOrigin :: "ip_literal \<Rightarrow> cacheRequest \<Rightarrow> url \<Rightarrow> bool" where
  "matchesOrigin ip r target =
     (let requestScheme = originScheme r;
          targetScheme = (if ToLower (Scheme target) = [] then requestScheme else ToLower (Scheme target));
          requestAuthority = (if reqHost (Request r) = [] then Host (URL (Request r)) else reqHost (Request r))
      in case (normalizedOriginAuthority ip requestScheme requestAuthority, normalizedOriginAuthority ip targetScheme (Host target)) of
        (Some (requestHost, requestPort), Some (targetHost, targetPort)) \<Rightarrow>
          requestScheme = targetScheme \<and> EqualFold requestHost targetHost \<and> requestPort = targetPort
      | _ \<Rightarrow> False)"

subsection \<open>Targets\<close>

definition invalidationTarget :: "cacheRequest \<Rightarrow> url \<Rightarrow> url" where
  "invalidationTarget r u =
     (let ru = URL (Request r);
          ref = empty_url\<lparr>Path := Path u, RawPath := RawPath u, RawQuery := RawQuery u, ForceQuery := ForceQuery u\<rparr>;
          ref = (if Scheme u = [] \<and> Host u = [] then ResolveReference ru ref else ref);
          originForm = (Scheme ru = [] \<and> Host ru = []);
          target = ru;
          target = (if Scheme u \<noteq> [] \<and> \<not> originForm then target\<lparr>Scheme := Scheme u\<rparr> else target);
          target = (if Host u \<noteq> [] \<and> \<not> originForm then target\<lparr>Host := Host u, User := User u\<rparr> else target);
          target = target\<lparr>Path := Path ref, RawPath := RawPath ref\<rparr>;
          target = (if originForm \<and> (Scheme u \<noteq> [] \<or> Host u \<noteq> []) \<and> Path target = [] then target\<lparr>Path := ''/''\<rparr> else target)
      in target\<lparr>RawQuery := RawQuery ref, ForceQuery := ForceQuery ref, Fragment := []\<rparr>)"

definition sameOriginURL :: "ip_literal \<Rightarrow> cacheRequest \<Rightarrow> string \<Rightarrow> url option" where
  "sameOriginURL ip r raw =
     (case url_Parse ip raw of None \<Rightarrow> None
      | Some u \<Rightarrow> if Host u \<noteq> [] \<and> \<not> matchesOrigin ip r u then None else Some (invalidationTarget r u))"

definition named_targets :: "ip_literal \<Rightarrow> resource \<Rightarrow> cacheRequest \<Rightarrow> url list" where
  \<comment> \<open>the loop over \<^verbatim>\<open>Location\<close> and \<^verbatim>\<open>Content-Location\<close>\<close>
  "named_targets ip res r =
     List.map_filter (\<lambda>header. let raw = Get (rheader res) header in if raw = [] then None else sameOriginURL ip r raw)
       [''Location'', ''Content-Location'']"

definition key_pair :: "goenv \<Rightarrow> key \<Rightarrow> string list" where
  "key_pair e k = [key_String e k, key_String e (ForMethod k ''HEAD'')]"

definition invalidationKeys :: "ip_literal \<Rightarrow> goenv \<Rightarrow> resource \<Rightarrow> cacheRequest \<Rightarrow> string list" where
  "invalidationKeys ip e res r =
     concat (map (\<lambda>u. key_pair e (NewKey ''GET'' u (reqHeader (Request r)))) (URL (Request r) # named_targets ip res r))"

definition invalidationRequestURI :: "string \<Rightarrow> url \<Rightarrow> string" where
  "invalidationRequestURI original target =
     (if original = [] then []
      else if hd original = CHR ''/'' \<or> original = ''*'' then url_RequestURI target
      else url_String target)"

definition handler_invalidationKeys ::
  "ip_literal \<Rightarrow> goenv \<Rightarrow> (request \<Rightarrow> key option) option \<Rightarrow> resource \<Rightarrow> cacheRequest \<Rightarrow> string list" where
  \<comment> \<open>\<^verbatim>\<open>Handler.invalidationKeys\<close>; \<open>requestKey\<close> is the application's policy, if it has one\<close>
  "handler_invalidationKeys ip e requestKey res r =
     (case requestKey of None \<Rightarrow> invalidationKeys ip e res r
      | Some policy \<Rightarrow>
          let requests = Request r # map (\<lambda>u. (Request r)\<lparr>URL := u, RequestURI := invalidationRequestURI (RequestURI (Request r)) u,
                reqHost := (if Host u \<noteq> [] then Host u else reqHost (Request r))\<rparr>) (named_targets ip res r)
          in concat (map (\<lambda>q. case policy (q\<lparr>Method := ''GET''\<rparr>) of None \<Rightarrow> [] | Some key \<Rightarrow> key_pair e key) requests))"

subsection \<open>What parsing and resolving a reference gives\<close>

lemma setPath_fields:
  assumes "setPath p u = Some v"
  shows "Scheme v = Scheme u" "Host v = Host u" "Opaque v = Opaque u" "User v = User u" "unescape p = Some (Path v)"
    "RawPath v = (if p = escape (Path v) encodePath then [] else p)" "OmitHost v = OmitHost u"
    "RawQuery v = RawQuery u" "ForceQuery v = ForceQuery u" "Fragment v = Fragment u"
  using assms by (auto simp: setPath_def split: option.splits)

lemma hierarchy_opaque: "url_hierarchy ip u rest = Some v \<Longrightarrow> Opaque v = Opaque u"
  by (auto simp: url_hierarchy_def Let_def dest: setPath_fields split: if_splits option.splits prod.splits)

lemma parse_opaque:
  assumes "url_Parse ip raw = Some u" "Host u \<noteq> []"
  shows "Opaque u = []"
proof -
  have "Opaque v = [] \<or> Host v = []" if "url_parse_rest ip s = Some v" for s v
    using that hierarchy_opaque
    by (auto simp: url_parse_rest_def Let_def empty_url_def split: if_splits option.splits prod.splits)
  then have "Opaque v = []" if "url_parse_rest ip s = Some v" "Host v \<noteq> []" for s v using that by blast
  with assms show ?thesis
    by (auto simp: url_Parse_def setFragment_def split: if_splits option.splits prod.splits)
qed

definition no_dots :: "string \<Rightarrow> bool" where
  "no_dots p \<longleftrightarrow> ''.'' \<notin> set (Split CHR ''/'' p) \<and> ''..'' \<notin> set (Split CHR ''/'' p)"

lemma resolve_elems_plain:
  assumes "''.'' \<notin> set es" "''..'' \<notin> set es" "es \<noteq> []"
  shows "resolve_elems dst first es = dst @ (if first then [] else ''/'') @ Join es ''/''"
  using assms
proof (induction es arbitrary: dst first)
  case (Cons x es)
  then show ?case by (cases es) auto
qed simp

lemma resolvePath_absolute:
  assumes "ref \<noteq> []" "hd ref = CHR ''/''" "no_dots ref"
  shows "resolvePath base ref = ref"
proof -
  have ne: "Split CHR ''/'' ref \<noteq> []" using assms(1) by (cases ref) (auto split: list.splits)
  have "last (Split CHR ''/'' ref) \<noteq> ''.'' \<and> last (Split CHR ''/'' ref) \<noteq> ''..''"
    using assms(3) ne last_in_set unfolding no_dots_def by metis
  moreover have "resolve_elems [] True (Split CHR ''/'' ref) = ref"
    using resolve_elems_plain [of "Split CHR ''/'' ref" "[]" True] assms(3) ne by (simp add: no_dots_def)
  ultimately show ?thesis
    using assms(1,2) by (cases ref) (simp_all add: resolvePath_def Let_def del: Split.simps)
qed

lemma setPath_EscapedPath:
  assumes "Path u \<noteq> ''*''"
  shows "\<exists>v. setPath (EscapedPath u) w = Some v \<and> EscapedPath v = EscapedPath u \<and> Path v = Path u"
  using assms by (auto simp: setPath_def EscapedPath_def)

subsection \<open>Same origin\<close>

lemma target_authority:
  "Scheme (invalidationTarget r u) = (if Scheme u \<noteq> [] \<and> \<not> (Scheme (URL (Request r)) = [] \<and> Host (URL (Request r)) = [])
     then Scheme u else Scheme (URL (Request r)))"
  "Host (invalidationTarget r u) = (if Host u \<noteq> [] \<and> \<not> (Scheme (URL (Request r)) = [] \<and> Host (URL (Request r)) = [])
     then Host u else Host (URL (Request r)))"
  by (simp_all add: invalidationTarget_def Let_def)

lemma matches_cong:
  assumes "Host t = Host u" "ToLower (Scheme t) = ToLower (Scheme u) \<or> Scheme u = [] \<and> Scheme t = Scheme (URL (Request r))"
  shows "matchesOrigin ip r t = matchesOrigin ip r u"
proof -
  have "(if ToLower (Scheme t) = [] then originScheme r else ToLower (Scheme t))
      = (if ToLower (Scheme u) = [] then originScheme r else ToLower (Scheme u))"
    using assms(2) by (auto simp: originScheme_def ToLower_def Let_def)
  then show ?thesis unfolding matchesOrigin_def Let_def assms(1) by (simp only:)
qed


subsection \<open>The key of a named resource\<close>

definition origin_form :: "url \<Rightarrow> url" where
  \<comment> \<open>the URL of a direct request for \<open>u\<close> that a server receives in origin form\<close>
  "origin_form u = empty_url\<lparr>Path := (if Path u = [] then ''/'' else Path u), RawPath := RawPath u,
     RawQuery := RawQuery u, ForceQuery := ForceQuery u\<rparr>"

lemma EscapedPath_cong: "Path t = Path u \<Longrightarrow> RawPath t = RawPath u \<Longrightarrow> EscapedPath t = EscapedPath u"
  by (simp add: EscapedPath_def)

lemma url_String_cong:
  assumes "ToLower (Scheme t) = ToLower (Scheme u)" "ToLower (Host t) = ToLower (Host u)" "User t = User u" "EscapedPath t = EscapedPath u"
    and "Path t = Path u" "RawQuery t = RawQuery u" "ForceQuery t = ForceQuery u" "Opaque t = Opaque u"
    and "Scheme u = [] \<or> Host u \<noteq> []"
  shows "url_String (canonicalURL t) = url_String (canonicalURL u)"
proof -
  have "EscapedPath (canonicalURL v) = EscapedPath v" for v by (simp add: EscapedPath_def canonicalURL_def)
  then have esc: "EscapedPath (canonicalURL t) = EscapedPath (canonicalURL u)" using assms(4) by simp
  have f: "Scheme (canonicalURL t) = Scheme (canonicalURL u)" "Host (canonicalURL t) = Host (canonicalURL u)"
    "User (canonicalURL t) = User (canonicalURL u)" "Path (canonicalURL t) = Path (canonicalURL u)"
    "RawQuery (canonicalURL t) = RawQuery (canonicalURL u)" "ForceQuery (canonicalURL t) = ForceQuery (canonicalURL u)"
    "Opaque (canonicalURL t) = Opaque (canonicalURL u)" "Fragment (canonicalURL t) = []" "Fragment (canonicalURL u) = []"
    using assms by (simp_all add: canonicalURL_def)
  have "Scheme (canonicalURL u) = [] \<or> Host (canonicalURL u) \<noteq> []"
    using assms(9) by (auto simp: canonicalURL_def ToLower_def)
  then have "url_authority (canonicalURL t) = url_authority (canonicalURL u)"
    unfolding url_authority_def f by auto
  with esc f show ?thesis unfolding url_String_def url_path_def Let_def by simp
qed

lemma key_text_cong: "url_String (canonicalURL t) = url_String (canonicalURL u) \<Longrightarrow>
  key_pair e (NewKey m t h) = key_pair e (NewKey m u h')"
  by (simp add: key_pair_def key_String_def NewKey_def ForMethod_def)

lemma origin_target:
  assumes o: "Scheme (URL (Request r)) = []" "Host (URL (Request r)) = []" "User (URL (Request r)) = None" "Opaque (URL (Request r)) = []"
    and u: "Host u \<noteq> [] \<or> Scheme u = [] \<and> Path u \<noteq> [] \<and> hd (EscapedPath u) = CHR ''/'' \<and> no_dots (EscapedPath u)"
  shows "url_String (canonicalURL (invalidationTarget r u)) = url_String (canonicalURL (origin_form u))"
proof (cases "Host u \<noteq> []")
  case True
  with o show ?thesis
    by (intro url_String_cong) (simp_all add: invalidationTarget_def Let_def origin_form_def empty_url_def EscapedPath_def)
next
  case False
  with u have u': "Scheme u = []" "Host u = []" "Path u \<noteq> []" "hd (EscapedPath u) = CHR ''/''" "no_dots (EscapedPath u)" by auto
  let ?ref = "empty_url\<lparr>Path := Path u, RawPath := RawPath u, RawQuery := RawQuery u, ForceQuery := ForceQuery u\<rparr>"
  have esc: "EscapedPath ?ref = EscapedPath u" by (simp add: EscapedPath_def)
  have ne: "EscapedPath u \<noteq> []" using u'(3) unescape_EscapedPath [of u] by (metis option.sel unescape.simps(1))
  have star: "Path u \<noteq> ''*''"
    using u'(4) ne unescape_EscapedPath [of u] by (cases "EscapedPath u") auto
  obtain v where v: "setPath (EscapedPath u) (?ref\<lparr>Scheme := [], Host := [], User := None\<rparr>) = Some v"
      "EscapedPath v = EscapedPath u" "Path v = Path u"
    using setPath_EscapedPath [OF star] by metis
  have res: "ResolveReference (URL (Request r)) ?ref = v"
    using o u'(3) v(1) resolvePath_absolute [OF ne u'(4,5)]
    using esc unfolding empty_url_def by (simp add: ResolveReference_def Let_def)
  have "invalidationTarget r u = (URL (Request r))\<lparr>Path := Path v, RawPath := RawPath v, RawQuery := RawQuery v,
      ForceQuery := ForceQuery v, Fragment := []\<rparr>"
    using u' o by (simp add: invalidationTarget_def res Let_def)
  then have t: "EscapedPath (invalidationTarget r u) = EscapedPath v" "Path (invalidationTarget r u) = Path u"
    "RawQuery (invalidationTarget r u) = RawQuery v" "ForceQuery (invalidationTarget r u) = ForceQuery v"
    "Scheme (invalidationTarget r u) = []" "Host (invalidationTarget r u) = []" "User (invalidationTarget r u) = None"
    "Opaque (invalidationTarget r u) = []"
    using o v(3) by (simp_all add: EscapedPath_cong)
  have "EscapedPath (origin_form u) = EscapedPath u" using u'(3) by (intro EscapedPath_cong) (simp_all add: origin_form_def)
  with t setPath_fields(8,9) [OF v(1)] v(2) show ?thesis
    using u'(3) by (intro url_String_cong) (simp_all add: origin_form_def empty_url_def)
qed

text \<open>
  C36: the entries of a named resource are found. A \<^verbatim>\<open>Location\<close> that gives an absolute URI of the
  origin makes stale exactly the keys of a direct GET or HEAD for that URI, when requests carry
  absolute URLs; and when they carry origin-form URLs, so does every absolute URI and every
  absolute path without dot segments.
\<close>

theorem named_resource_is_invalidated:
  assumes "sameOriginURL ip r raw = Some t" "url_Parse ip raw = Some u" "http_url (URL (Request r))"
  shows "(Scheme (URL (Request r)) \<noteq> [] \<and> Scheme u \<noteq> [] \<and> Host u \<noteq> [] \<longrightarrow>
      key_pair e (NewKey ''GET'' t h) = key_pair e (NewKey ''GET'' u h'))
    \<and> (Scheme (URL (Request r)) = [] \<and> (Host u \<noteq> [] \<or> Scheme u = [] \<and> Path u \<noteq> [] \<and> hd (EscapedPath u) = CHR ''/'' \<and> no_dots (EscapedPath u)) \<longrightarrow>
      key_pair e (NewKey ''GET'' t h) = key_pair e (NewKey ''GET'' (origin_form u) h'))"
proof (intro conjI impI key_text_cong)
  have t: "t = invalidationTarget r u" using assms(1,2) by (auto simp: sameOriginURL_def split: if_splits)
  have r: "Opaque (URL (Request r)) = []" using assms(3) by (simp add: http_url_def)
  show "url_String (canonicalURL t) = url_String (canonicalURL u)"
    if "Scheme (URL (Request r)) \<noteq> [] \<and> Scheme u \<noteq> [] \<and> Host u \<noteq> []"
    using that r parse_opaque [OF assms(2)]
    by (intro url_String_cong) (simp_all add: t invalidationTarget_def Let_def EscapedPath_def empty_url_def)
  show "url_String (canonicalURL t) = url_String (canonicalURL (origin_form u))"
    if "Scheme (URL (Request r)) = [] \<and> (Host u \<noteq> [] \<or> Scheme u = [] \<and> Path u \<noteq> [] \<and> hd (EscapedPath u) = CHR ''/'' \<and> no_dots (EscapedPath u))"
    using that assms(3) unfolding t by (intro origin_target) (auto simp: http_url_def)
qed

subsection \<open>Examples\<close>

definition example_put :: "string \<Rightarrow> cacheRequest" where
  "example_put scheme = \<lparr>Request = (example_request [])\<lparr>Method := ''PUT'',
       URL := empty_url\<lparr>Scheme := scheme, Host := (if scheme = [] then [] else ''example.org''), Path := ''/orders/1''\<rparr>\<rparr>,
     rKey = NewRequestKey (example_request []), rTime = 1, rCC = [], discoveryKey = [], servedKey = []\<rparr>"

abbreviation (input) no_literal :: ip_literal where
  "no_literal \<equiv> \<lambda>_. None"

definition example_target :: url where
  "example_target = empty_url\<lparr>Scheme := ''http'', Host := ''EXAMPLE.org:80'', Path := ''/orders/2''\<rparr>"

lemma example_parse:
  "url_Parse no_literal ''http://EXAMPLE.org:80/orders/2'' = Some example_target"
  "sameOriginURL no_literal (example_put ''http'') ''http://EXAMPLE.org:80/orders/2'' = Some example_target"
  "sameOriginURL no_literal (example_put []) ''http://EXAMPLE.org:80/orders/2'' = Some (empty_url\<lparr>Path := ''/orders/2''\<rparr>)"
  by code_simp+


lemma named_resource_is_invalidated_witness:
  "key_pair seconds_env (NewKey ''GET'' example_target []) = key_pair seconds_env (NewKey ''GET'' example_target [(''A'', [''b''])])
   \<and> key_pair seconds_env (NewKey ''GET'' (empty_url\<lparr>Path := ''/orders/2''\<rparr>) []) = key_pair seconds_env (NewKey ''GET'' (origin_form example_target) [])"
proof -
  have h: "http_url (URL (Request (example_put ''http'')))" "http_url (URL (Request (example_put [])))"
    "Scheme (URL (Request (example_put ''http''))) \<noteq> []" "Scheme (URL (Request (example_put []))) = []"
    "Scheme example_target \<noteq> []" "Host example_target \<noteq> []"
    by code_simp+
  show ?thesis
    using named_resource_is_invalidated [OF example_parse(2,1) h(1), of seconds_env "[]" "[(''A'', [''b''])]"]
      named_resource_is_invalidated [OF example_parse(3,1) h(2), of seconds_env "[]" "[]"] h(3-)
    by blast
qed

text \<open>
  A reference with a scheme and no authority is not compared with the origin of the request: for
  a request in absolute form \<^verbatim>\<open>https:/item\<close> names an entry of another origin.
\<close>

lemma scheme_only_reference_leaves_origin:
  "\<exists>t. sameOriginURL no_literal (example_put ''http'') ''https:/item'' = Some t
     \<and> key_String seconds_env (NewKey ''GET'' t []) = ''GET:https://example.org/item'' \<and> \<not> matchesOrigin no_literal (example_put ''http'') t"
proof -
  have "sameOriginURL no_literal (example_put ''http'') ''https:/item'' = Some (empty_url\<lparr>Scheme := ''https'', Host := ''example.org'', Path := ''/item''\<rparr>)"
    "key_String seconds_env (NewKey ''GET'' (empty_url\<lparr>Scheme := ''https'', Host := ''example.org'', Path := ''/item''\<rparr>) []) = ''GET:https://example.org/item''"
    "\<not> matchesOrigin no_literal (example_put ''http'') (empty_url\<lparr>Scheme := ''https'', Host := ''example.org'', Path := ''/item''\<rparr>)"
    by code_simp+
  then show ?thesis by blast
qed

text \<open>The key of a request in origin form does not depend on its \<^verbatim>\<open>Host\<close>: hosts served by one handler share their entries.\<close>

lemma host_header_not_in_key: "key_String e (NewRequestKey (r\<lparr>reqHost := host\<rparr>)) = key_String e (NewRequestKey r)"
  by (simp add: NewRequestKey_def)

end
