(* ===== verification/Lookup.thy ===== *)
theory Lookup
  imports Publication Origin
begin

text \<open>
  Finding and judging stored responses (\<^verbatim>\<open>src/handler.go\<close>): lookup of the base entry with the fallback
  from HEAD to GET, selection of the \<^verbatim>\<open>Vary\<close> variant, the comparison of what was found with the
  invalidation times, and the operations that record such times.

  \<open>ops\<close> is the handler's cache and \<open>h\<close> the handler's own record; a lookup changes the state \<open>c\<close> of the
  cache (its counters and its LRU order) and returns the request with the keys it used.
\<close>

subsection \<open>Invalidation times\<close>

definition staleAt :: "'c cache_ops \<Rightarrow> 'c \<Rightarrow> handlerMarks \<Rightarrow> string \<Rightarrow> time option" where
  "staleAt ops c h key = (case opStaleAt ops of Some checker \<Rightarrow> checker c key | None \<Rightarrow> local_staleAt h key)"

definition staleSnapshot :: "'c cache_ops \<Rightarrow> 'c \<Rightarrow> handlerMarks \<Rightarrow> string list \<Rightarrow> markers" where
  "staleSnapshot ops c h keys =
     (case opStaleSnapshot ops of Some checker \<Rightarrow> checker c keys
      | None \<Rightarrow>
          let look = (case opStaleAt ops of Some checker \<Rightarrow> checker c | None \<Rightarrow> local_staleAt h);
              order = (case opStaleAt ops of Some _ \<Rightarrow> rev keys | None \<Rightarrow> keys)
          in foldl (\<lambda>snapshot key. case look key of Some at \<Rightarrow> AList.update key at snapshot | None \<Rightarrow> snapshot) [] order)"

definition resourceFreshAfter :: "goenv \<Rightarrow> 'c cache_ops \<Rightarrow> resource \<Rightarrow> time \<Rightarrow> bool" where
  "resourceFreshAfter e ops res at =
     (case opStaleAt ops of Some _ \<Rightarrow> StoredAfter e res at | None \<Rightarrow> at < handlerStoredAt res)"

definition markInvalidatedResource ::
  "goenv \<Rightarrow> 'c cache_ops \<Rightarrow> 'c \<Rightarrow> handlerMarks \<Rightarrow> string \<Rightarrow> string \<Rightarrow> bool \<Rightarrow> resource \<Rightarrow> resource" where
  "markInvalidatedResource e ops c h resourceKey baseKey baseStale res =
     (let res = (if resourceKey \<noteq> baseKey then
                   (case staleAt ops c h resourceKey of None \<Rightarrow> res
                    | Some at \<Rightarrow> if \<not> resourceFreshAfter e ops res at then MarkStale res else res)
                 else res)
      in case staleAt ops c h baseKey of
           Some at \<Rightarrow> if \<not> resourceFreshAfter e ops res at then MarkStale res else res
         | None \<Rightarrow> if baseStale then MarkStale res else res)"

definition fence :: "'c cache_ops \<Rightarrow> time \<Rightarrow> string list \<Rightarrow> 'c \<times> handlerMarks \<Rightarrow> 'c \<times> handlerMarks" where
  \<comment> \<open>\<^verbatim>\<open>h.recordStale(keys...)\<close> followed by \<^verbatim>\<open>h.cache.Invalidate(keys...)\<close>\<close>
  "fence ops now keys = (\<lambda>(c, h). (opInvalidate ops keys c, recordStale now keys h))"

definition invalidateResource ::
  "ip_literal \<Rightarrow> goenv \<Rightarrow> 'c cache_ops \<Rightarrow> time \<Rightarrow> (request \<Rightarrow> key option) option \<Rightarrow> resource \<Rightarrow> cacheRequest
    \<Rightarrow> 'c \<times> handlerMarks \<Rightarrow> 'c \<times> handlerMarks" where
  "invalidateResource ip e ops now requestKey res r s =
     (let keys = handler_invalidationKeys ip e requestKey res r in if keys = [] then s else fence ops now keys s)"

definition fenceValidationKeys :: "goenv \<Rightarrow> 'c cache_ops \<Rightarrow> time \<Rightarrow> cacheRequest \<Rightarrow> 'c \<times> handlerMarks \<Rightarrow> 'c \<times> handlerMarks" where
  "fenceValidationKeys e ops now cReq s = fence ops now (validationKeys e cReq) s"

definition freshenValidatedResponse ::
  "goenv \<Rightarrow> 'c cache_ops \<Rightarrow> time \<Rightarrow> time \<Rightarrow> resource \<Rightarrow> string list \<Rightarrow> 'c \<times> handlerMarks
    \<Rightarrow> (bool \<times> resource \<times> 'c \<times> handlerMarks) option" where
  "freshenValidatedResponse e ops t0 t1 res keys s =
     (case freshenResource ops t0 t1 res keys s of None \<Rightarrow> None
      | Some (Some err, res, c, h) \<Rightarrow> Some (False, res, c, h)
      | Some (None, res, c, h) \<Rightarrow>
          if list_ex (\<lambda>(key, at). \<not> ReceivedAfter e res at) (staleSnapshot ops c h keys) then Some (False, res, c, h)
          else Some (True, markFresh res, c, h))"

subsection \<open>Lookup\<close>

type_synonym 'c retriever = "string \<Rightarrow> 'c \<Rightarrow> (cache_error + resource) \<times> 'c"

definition with_evidence :: "handlerMarks \<Rightarrow> 'c retriever \<Rightarrow> 'c retriever" where
  \<comment> \<open>\<^verbatim>\<open>h.generationRetriever(retrieve)\<close> when nothing is published during the call\<close>
  "with_evidence h get key c = (let (r, c) = get key c in (generationRetriever h h key r, c))"

definition lookupBaseUsing ::
  "goenv \<Rightarrow> bool \<Rightarrow> cacheRequest \<Rightarrow> 'c retriever \<Rightarrow> 'c \<Rightarrow> (cache_error + resource) \<times> key \<times> cacheRequest \<times> 'c" where
  "lookupBaseUsing e shared req get c =
     (let req = req\<lparr>discoveryKey := [], servedKey := []\<rparr>;
          baseKey = key_String e (rKey req);
          (r, c) = get baseKey c
      in if r = Inl NotFoundInCache \<and> Method (Request req) = ''HEAD'' then
           let lookup_key = ForMethod (rKey req) ''GET''; baseKey = key_String e lookup_key; (r, c) = get baseKey c in
           (case r of Inl err \<Rightarrow> (Inl err, lookup_key, req, c)
            | Inr res \<Rightarrow>
                if hasExplicitExpiration shared res \<and> request_isCacheable req
                then (Inr res, lookup_key, req\<lparr>servedKey := baseKey, discoveryKey := baseKey\<rparr>, c)
                else (Inl NotFoundInCache, lookup_key, req, c))
         else (case r of Inl err \<Rightarrow> (Inl err, rKey req, req, c)
               | Inr res \<Rightarrow> (Inr res, rKey req, req\<lparr>discoveryKey := baseKey\<rparr>, c)))"

definition lookupVaryResource ::
  "goenv \<Rightarrow> 'c cache_ops \<Rightarrow> handlerMarks \<Rightarrow> cacheRequest \<Rightarrow> resource \<Rightarrow> key \<Rightarrow> string \<Rightarrow> 'c retriever \<Rightarrow> 'c
    \<Rightarrow> (cache_error + resource) \<times> cacheRequest \<times> 'c" where
  "lookupVaryResource e ops h req base lookup_key varyHeader get c =
     (if varyWildcard varyHeader then (Inl NotFoundInCache, req, c)
      else let baseKey = key_String e lookup_key;
               variantKey = key_String e (key_Vary e lookup_key varyHeader (Request req));
               (r, c) = get variantKey c
           in case r of Inl err \<Rightarrow> (Inl err, req, c)
              | Inr varied \<Rightarrow> (Inr (markInvalidatedResource e ops c h variantKey baseKey (stale base) varied), req\<lparr>servedKey := variantKey\<rparr>, c))"

definition lookupUsing ::
  "goenv \<Rightarrow> 'c cache_ops \<Rightarrow> bool \<Rightarrow> handlerMarks \<Rightarrow> cacheRequest \<Rightarrow> 'c retriever \<Rightarrow> 'c
    \<Rightarrow> (cache_error + resource) \<times> cacheRequest \<times> 'c" where
  "lookupUsing e ops shared h req get c =
     (let get = with_evidence h get;
          (r, lookup_key, req, c) = lookupBaseUsing e shared req get c
      in case r of Inl err \<Rightarrow> (Inl err, req, c)
         | Inr res \<Rightarrow>
             let baseKey = key_String e lookup_key;
                 req = req\<lparr>discoveryKey := baseKey\<rparr>;
                 res = markInvalidatedResource e ops c h baseKey baseKey False res;
                 varyHeader = combinedHeaderValues (rheader res) ''Vary''
             in if varyHeader \<noteq> [] then lookupVaryResource e ops h req res lookup_key varyHeader get c else (Inr res, req, c))"

definition lookup :: "goenv \<Rightarrow> 'c cache_ops \<Rightarrow> bool \<Rightarrow> handlerMarks \<Rightarrow> cacheRequest \<Rightarrow> 'c \<Rightarrow> (cache_error + resource) \<times> cacheRequest \<times> 'c" where
  "lookup e ops shared h req c = lookupUsing e ops shared h req (opRetrieve ops) c"

definition recheckMiss :: "goenv \<Rightarrow> 'c cache_ops \<Rightarrow> bool \<Rightarrow> handlerMarks \<Rightarrow> cacheRequest \<Rightarrow> 'c \<Rightarrow> (cache_error + resource) \<times> cacheRequest \<times> 'c" where
  "recheckMiss e ops shared h req c =
     lookupUsing e ops shared h req
       (case opRetrieveForRecheck ops of Some get \<Rightarrow> get
        | None \<Rightarrow> (case opRetrieveUncounted ops of Some get \<Rightarrow> get | None \<Rightarrow> opRetrieve ops)) c"

subsection \<open>Storing\<close>

definition store_keys :: "goenv \<Rightarrow> resource \<Rightarrow> cacheRequest \<Rightarrow> string list" where
  "store_keys e res r =
     (let varyHeader = combinedHeaderValues (rheader res) ''Vary''
      in key_String e (rKey r) # (if varyHeader \<noteq> [] then [key_String e (key_Vary e (rKey r) varyHeader (Request r))] else []))"

text \<open>
  The background goroutine of \<^verbatim>\<open>storeResource\<close>. \<^verbatim>\<open>headers\<close> is the resource's own map, from which
  \<^verbatim>\<open>RemovePrivateHeaders\<close> deletes, so the variant is chosen by what is left.
\<close>

definition storeResource ::
  "goenv \<Rightarrow> 'c cache_ops \<Rightarrow> bool \<Rightarrow> time \<Rightarrow> time \<Rightarrow> resource \<Rightarrow> cacheRequest \<Rightarrow> 'c \<times> handlerMarks
    \<Rightarrow> (cache_error option \<times> 'c \<times> handlerMarks) option" where
  "storeResource e ops shared t0 t1 res r s =
     (let res = (if shared then RemovePrivateHeaders res else res)
      in publishResource ops t0 t1 res (rTime r) (store_keys e res r) s)"

subsection \<open>What a lookup returns\<close>

lemma staleMap_remove: "staleMap (snd (removeEntry v entry c)) = staleMap c"
  by (auto simp: removeEntry_def Let_def split: prod.splits)

lemma staleMap_discard: "staleMap (snd (discardUnadmitted v now key k sz at c)) = staleMap c"
  using staleMap_remove [of v _ c]
  by (auto simp: discardUnadmitted_def Let_def split: option.split prod.split) (metis snd_conv)+

lemma staleMap_retrieve: "staleMap (snd (retrieveRecorded v x e now key b c)) = staleMap c"
proof -
  have "staleMap (snd (retrieve v x e now b key c)) = staleMap c"
    by (simp add: retrieve_def recordMiss_def recordHit_def touchEntry_def Let_def split: sum.split vfs_error.split option.split prod.split)
  moreover have "staleMap (discardCorrupt v x now key fault c') = staleMap c'" for fault c'
    by (simp add: discardCorrupt_def staleMap_discard Let_def split: sum.split)
  moreover obtain r c1 where "retrieve v x e now b key c = (r, c1)" by (rule prod.exhaust)
  ultimately show ?thesis
    by (cases r; cases "projl r") (simp_all add: retrieveRecorded_def integrityResult_def recordMiss_def Let_def)
qed

lemma MarkStale_times [simp]: "DateAfter e (MarkStale r) d = DateAfter e r d" "ReceivedAfter e (MarkStale r) d = ReceivedAfter e r d"
  "StoredAfter e (MarkStale r) d = StoredAfter e r d" "MarkStale (MarkStale r) = MarkStale r" "stale (MarkStale r)"
  "handlerStoredAt (MarkStale r) = handlerStoredAt r"
proof -
  show d: "DateAfter e (MarkStale r) d = DateAfter e r d" by (simp add: DateAfter_def MarkStale_def)
  have f: "RequestTime (MarkStale r) = RequestTime r" "rheader (MarkStale r) = rheader r" "storedAt (MarkStale r) = storedAt r"
    by (simp_all add: MarkStale_def)
  show a: "ReceivedAfter e (MarkStale r) d = ReceivedAfter e r d" unfolding ReceivedAfter_def d f ..
  show "StoredAfter e (MarkStale r) d = StoredAfter e r d" unfolding StoredAfter_def a f ..
qed (simp_all add: MarkStale_def)

lemma freshAfter_mark [simp]: "resourceFreshAfter e ops (MarkStale r) t = resourceFreshAfter e ops r t"
  by (simp add: resourceFreshAfter_def split: option.split)

lemma mark_cases: "markInvalidatedResource e ops c h rk bk b res = res \<or> markInvalidatedResource e ops c h rk bk b res = MarkStale res"
  by (simp add: markInvalidatedResource_def Let_def split: option.split)

lemma mark_judges:
  assumes "\<not> stale (markInvalidatedResource e ops c h rk bk b res)" "k = rk \<or> k = bk" "staleAt ops c h k = Some t"
  shows "resourceFreshAfter e ops res t"
  using assms by (auto simp: markInvalidatedResource_def Let_def split: if_splits option.splits)

text \<open>
  What the lookup needs of a cache that keeps its own markers: reading an entry does not change
  them. Inside, what a lookup returns was compared with the markers of every key it used.
\<close>

locale marker_keeper =
  fixes ops :: "'c cache_ops" and look :: "'c \<Rightarrow> string \<Rightarrow> time option"
  assumes keeps: "opStaleAt ops = Some look" and reading: "opRetrieve ops key c = (r, c') \<Longrightarrow> look c' = look c"
begin

lemma look_staleAt: "staleAt ops c h = look c" and fresh_stored: "resourceFreshAfter e ops r t = StoredAfter e r t"
  using keeps by (auto simp: staleAt_def resourceFreshAfter_def)

lemma judged:
  assumes "\<not> stale (markInvalidatedResource e ops c h rk bk b res)" "k = rk \<or> k = bk" "look c k = Some t"
  shows "StoredAfter e (markInvalidatedResource e ops c h rk bk b res) t"
proof -
  have "StoredAfter e res t" using mark_judges [OF assms(1,2)] assms(3) by (simp add: look_staleAt fresh_stored)
  then show ?thesis using mark_cases [of e ops c h rk bk b res] by auto
qed

lemma evidence_reading: "with_evidence h (opRetrieve ops) key c = (r, c') \<Longrightarrow> look c' = look c"
  by (cases "opRetrieve ops key c") (auto simp: with_evidence_def dest: reading)

lemma base_reading:
  assumes "lookupBaseUsing e shared req (with_evidence h (opRetrieve ops)) c = (r, lk, req', c')"
  shows "look c' = look c" "r = Inr res \<Longrightarrow> discoveryKey req' = key_String e lk \<and> (servedKey req' = [] \<or> servedKey req' = key_String e lk)"
proof -
  let ?get = "with_evidence h (opRetrieve ops)"
  obtain r1 c1 where 1: "?get (key_String e (rKey req)) c = (r1, c1)" by (rule prod.exhaust)
  obtain r2 c2 where 2: "?get (key_String e (ForMethod (rKey req) ''GET'')) c1 = (r2, c2)" by (rule prod.exhaust)
  have "look c1 = look c" "look c2 = look c" using evidence_reading 1 2 by metis+
  then show "look c' = look c"
    using assms by (auto simp: lookupBaseUsing_def 1 2 Let_def split: if_splits sum.splits)
  show "r = Inr res \<Longrightarrow> discoveryKey req' = key_String e lk \<and> (servedKey req' = [] \<or> servedKey req' = key_String e lk)"
    using assms by (auto simp: lookupBaseUsing_def 1 2 Let_def split: if_splits sum.splits)
qed

lemma lookup_judged:
  assumes "lookup e ops shared h req c = (Inr res, req', c')" "\<not> stale res"
    and "k = discoveryKey req' \<or> k = servedKey req' \<and> servedKey req' \<noteq> []" "look c k = Some t"
  shows "StoredAfter e res t"
proof -
  let ?get = "with_evidence h (opRetrieve ops)"
  obtain r lk req1 c1 where b: "lookupBaseUsing e shared req ?get c = (r, lk, req1, c1)" by (metis prod_cases4)
  then obtain base where r: "r = Inr base" using assms(1) by (cases r) (auto simp: lookup_def lookupUsing_def)
  note br = base_reading(1) [OF b] base_reading(2) [OF b r]
  let ?base = "markInvalidatedResource e ops c1 h (key_String e lk) (key_String e lk) False base"
  let ?vary = "combinedHeaderValues (rheader ?base) ''Vary''"
  show ?thesis
  proof (cases "?vary = []")
    case True
    with assms(1) have res: "res = ?base" and req': "req' = req1\<lparr>discoveryKey := key_String e lk\<rparr>"
      by (auto simp: lookup_def lookupUsing_def b r Let_def)
    have "k = key_String e lk" using assms(3) br(2) unfolding req' by auto
    moreover have "look c1 k = Some t" using assms(4) br(1) by simp
    ultimately show ?thesis using judged assms(2) unfolding res by blast
  next
    case False
    let ?vk = "key_String e (key_Vary e lk ?vary (Request (req1\<lparr>discoveryKey := key_String e lk\<rparr>)))"
    obtain r2 c2 where g: "?get ?vk c1 = (r2, c2)" by (rule prod.exhaust)
    have l: "lookup e ops shared h req c = (if varyWildcard ?vary then (Inl NotFoundInCache, req1\<lparr>discoveryKey := key_String e lk\<rparr>, c1)
        else case r2 of Inl err \<Rightarrow> (Inl err, req1\<lparr>discoveryKey := key_String e lk\<rparr>, c2)
          | Inr varied \<Rightarrow> (Inr (markInvalidatedResource e ops c2 h ?vk (key_String e lk) (stale ?base) varied),
              req1\<lparr>discoveryKey := key_String e lk, servedKey := ?vk\<rparr>, c2))"
      using False by (simp only: lookup_def lookupUsing_def lookupVaryResource_def Let_def b r g split_beta fst_conv snd_conv if_False
          sum.case not_False_eq_True cacheRequest.update_convs if_True)
    then obtain varied where res: "res = markInvalidatedResource e ops c2 h ?vk (key_String e lk) (stale ?base) varied"
      and req': "req' = req1\<lparr>discoveryKey := key_String e lk, servedKey := ?vk\<rparr>"
      using assms(1) by (cases r2) (simp_all split: if_splits)
    have "k = ?vk \<or> k = key_String e lk" using assms(3) unfolding req' by auto
    moreover have "look c2 k = Some t" using assms(4) br(1) evidence_reading [OF g] by simp
    ultimately show ?thesis using judged assms(2) unfolding res by blast
  qed
qed

end

interpretation bk: marker_keeper "builtin_ops v x cd e en held now" StaleAt
  for v :: "'fs vfs" and x cd e en held now
proof
  show "opRetrieve (builtin_ops v x cd e en held now) key c = (r, c') \<Longrightarrow> StaleAt c' = StaleAt c" for key c r c'
    using staleMap_retrieve [of v x e now key True c]
    by (simp add: builtin_ops_def cache_Retrieve_def StaleAt_def fun_eq_iff)
qed (simp add: builtin_ops_def)

lemma lookup_discovers:
  assumes "lookup e ops shared h req c = (Inr res, req', c')"
  shows "discoveryKey req' = key_String e (rKey req)
    \<or> Method (Request req) = ''HEAD'' \<and> discoveryKey req' = key_String e (ForMethod (rKey req) ''GET'')"
proof -
  let ?get = "with_evidence h (opRetrieve ops)"
  obtain r lk req1 c1 where b: "lookupBaseUsing e shared req ?get c = (r, lk, req1, c1)" by (metis prod_cases4)
  then have "lk = rKey req \<or> Method (Request req) = ''HEAD'' \<and> lk = ForMethod (rKey req) ''GET''"
    by (auto simp: lookupBaseUsing_def Let_def split: prod.splits if_splits sum.splits)
  moreover have "discoveryKey req' = key_String e lk"
    using assms by (auto simp: lookup_def lookupUsing_def lookupVaryResource_def b Let_def split: sum.splits if_splits prod.splits)
  ultimately show ?thesis by auto
qed

lemma StoredAfter_mono:
  assumes "StoredAfter e res t'" "t \<le> t'"
  shows "StoredAfter e res t"
proof -
  have d: "DateAfter e res t' \<Longrightarrow> DateAfter e res t" using assms(2) by (auto simp: DateAfter_def Let_def split: option.splits if_splits)
  have r: "ReceivedAfter e res t' \<Longrightarrow> ReceivedAfter e res t" using assms(2) d by (auto simp: ReceivedAfter_def split: sum.splits if_splits)
  show ?thesis using assms r by (auto simp: StoredAfter_def split: if_splits)
qed

text \<open>
  C17: a successful unsafe request hides what it made stale. The handler invalidates the targets of
  such a request at time \<open>now\<close>. In any later state of the cache of \<^verbatim>\<open>src/cache.go\<close>, as long as the
  markers are not dropped, a lookup by a GET or HEAD for any of these targets, whichever variant it
  selects, returns as fresh only what was stored after \<open>now\<close>.
\<close>

theorem mutation_hides_old_responses:
  assumes inv: "invalidateResource ip e (builtin_ops v x cd e en held now) now None mutation r (c, h) = (c1, h1)"
    and later: "\<forall>k t. StaleAt c1 k = Some t \<longrightarrow> (\<exists>t'. StaleAt c2 k = Some t' \<and> t \<le> t')"
    and target: "u = URL (Request r) \<or> u \<in> set (named_targets ip mutation r)"
    and req: "rKey req = NewKey m u hs" "m \<in> {''GET'', ''HEAD''}"
    and look: "lookup e (builtin_ops v x cd e en' held' now') shared h2 req c2 = (Inr res, req', c3)" and fresh: "\<not> stale res"
  shows "StoredAfter e res now"
proof -
  let ?keys = "invalidationKeys ip e mutation r"
  have "key_String e (rKey req) \<in> set ?keys" "key_String e (ForMethod (rKey req) ''GET'') \<in> set ?keys"
    using target req by (auto simp: invalidationKeys_def key_pair_def NewKey_def ForMethod_def key_String_def)
  then have k: "discoveryKey req' \<in> set ?keys" using lookup_discovers [OF look] by auto
  then have "?keys \<noteq> []" by auto
  then have "c1 = Invalidate v cd now ?keys c"
    using inv by (simp add: invalidateResource_def handler_invalidationKeys_def fence_def builtin_ops_def Let_def)
  then have "StaleAt c1 (discoveryKey req') = Some now" using k by (simp add: StaleAt_def Invalidate_marks)
  with later obtain t' where "StaleAt c2 (discoveryKey req') = Some t'" "now \<le> t'" by blast
  with bk.lookup_judged [OF look fresh] StoredAfter_mono show ?thesis by blast
qed

subsection \<open>Hits\<close>

lemma mark_plain [simp]:
  "rheader (markInvalidatedResource e ops c h rk bk b res) = rheader res" "rbody (markInvalidatedResource e ops c h rk bk b res) = rbody res"
  "statusCode (markInvalidatedResource e ops c h rk bk b res) = statusCode res" "storedAt (markInvalidatedResource e ops c h rk bk b res) = storedAt res"
  "ccMemo (markInvalidatedResource e ops c h rk bk b res) = ccMemo res"
  by (simp_all add: markInvalidatedResource_def MarkStale_def Let_def split: option.split)

lemma evidence_plain: "generationRetriever h0 h1 key (Inr got) = Inr res \<Longrightarrow> rheader res = rheader got \<and> rbody res = rbody got
  \<and> statusCode res = statusCode got \<and> storedAt res = storedAt got \<and> stale res = stale got \<and> ccMemo res = ccMemo got"
  by (auto simp: generationRetriever_def localPublicationSnapshot_def Let_def split: if_splits)

lemma lookup_plain_hit:
  assumes "opRetrieve ops (key_String e (rKey req)) c = (Inr got, c')" "generationRetriever h h (key_String e (rKey req)) (Inr got) = Inr res"
    and "combinedHeaderValues (rheader got) ''Vary'' = []"
  shows "lookup e ops shared h req c = (Inr (markInvalidatedResource e ops c' h (key_String e (rKey req)) (key_String e (rKey req)) False res),
    req\<lparr>discoveryKey := key_String e (rKey req), servedKey := []\<rparr>, c')"
  using assms evidence_plain [OF assms(2)]
  by (simp add: lookup_def lookupUsing_def lookupBaseUsing_def with_evidence_def Let_def)

lemma no_vary_delivered:
  assumes "delivers res key at m got" "\<forall>k. EqualFold k ''Vary'' \<longrightarrow> header_at (rheader res) k = []"
  shows "combinedHeaderValues (rheader got) ''Vary'' = []"
proof -
  have "header_at (rheader got) k = []" if "k \<in> set (fold_keys (rheader got) ''Vary'')" for k
    using that assms by (simp add: delivers_def fold_keys_def)
  then have "field_lines (rheader got) ''Vary'' = []" by (simp add: field_lines_def)
  then show ?thesis by (simp add: combinedHeaderValues_def)
qed

subsection \<open>Caches without markers\<close>

definition initial_pub :: "pubworld \<Rightarrow> bool" where
  "initial_pub w \<longleftrightarrow> \<not> keepsMarkers (marks w) \<and> localFresh (marks w) = [] \<and> localPublications (marks w) = [] \<and> runs w = []
     \<and> (\<forall>k n. backend w k = Some n \<longrightarrow> n < nextPub w)"

lemma initial_pub_ok: "initial_pub w \<Longrightarrow> pub_ok w"
  by (simp add: initial_pub_def pub_ok_def key_ok_def)

text \<open>
  C16: a cache that keeps no markers cannot bring back a response from before a mutation. Let any
  number of stores and freshenings run, interleaved with invalidations and with a retrieval whose
  snapshots are taken at \<open>w0\<close> and \<open>w2\<close> and whose entry is read at \<open>w1\<close>. If the key it was read under, or
  the base key, was invalidated at \<open>t\<close> by the time the resource is judged, and the resource is not
  marked stale, then the request that produced the entry began after \<open>t\<close>. No publication that is
  still running will find its counters missing when it ends.
\<close>

theorem no_reuse_across_mutation:
  assumes w: "initial_pub w" "pub_steps w w0" "pub_steps w0 w1" "pub_steps w1 w2" "pub_steps w2 w3" and ops: "opStaleAt ops = None"
    and read: "backend w1 resourceKey = Some n"
    and res: "generationRetriever (marks w0) (marks w2) resourceKey (Inr stored) = Inr res"
    and key: "key = resourceKey \<or> key = baseKey" "local_staleAt (marks w3) key = Some t" "0 \<le> t"
    and fresh: "\<not> stale (markInvalidatedResource e ops c (marks w3) resourceKey baseKey baseStale res)"
  shows "t < startedAt w1 n \<and> (\<forall>r \<in> set (runs w3). finishLocalPublication now (rat r) (rkeys r) success (marks w3) \<noteq> None)"
proof
  have ok: "pub_ok w0" "pub_ok w3"
    using w(1) initial_pub_ok pub_ok_steps w(2-) by (meson rtranclp_trans)+
  have "staleAt ops c (marks w3) key = Some t" using ops key(2) by (simp add: staleAt_def)
  then have "resourceFreshAfter e ops res t" using mark_judges [OF fresh key(1)] by blast
  then have "t < handlerStoredAt res" using ops by (simp add: resourceFreshAfter_def)
  with evidence_identifies [OF ok(1) w(3,4) read res] key(3) show "t < startedAt w1 n" by simp
  show "\<forall>r \<in> set (runs w3). finishLocalPublication now (rat r) (rkeys r) success (marks w3) \<noteq> None"
    using finish_running [OF ok(2)] by fastforce
qed

subsection \<open>Examples\<close>

definition example_post :: cacheRequest where
  "example_post = (example_put [])\<lparr>Request := (example_request [])\<lparr>Method := ''POST'', URL := empty_url\<lparr>Path := ''/o''\<rparr>\<rparr>\<rparr>"

definition example_get :: cacheRequest where
  "example_get = (example_put [])\<lparr>Request := (example_request [])\<lparr>URL := empty_url\<lparr>Path := ''/o''\<rparr>\<rparr>,
     rKey := NewKey ''GET'' (empty_url\<lparr>Path := ''/o''\<rparr>) []\<rparr>"

definition no_marks :: "bool \<Rightarrow> handlerMarks" where
  "no_marks keeps = \<lparr>keepsMarkers = keeps, localStale = [], localFresh = [], localPublications = [], localStaleTTL = 0, nextProof = 0\<rparr>"

abbreviation (input) mem_ops :: "time \<Rightarrow> (string, string) gomap cache cache_ops" where
  "mem_ops now \<equiv> builtin_ops mem_vfs plain_recenv line_codec seconds_env quiet True now"

definition example_mutated :: "(string, string) gomap cache \<times> handlerMarks" where
  "example_mutated = invalidateResource no_literal seconds_env (mem_ops 5) 5 None (NewResource 200 [] []) example_post
     (example_opened IntegrityDisabled (key_String seconds_env (rKey example_get)) ''hi'', no_marks True)"

abbreviation (input) example_key :: string where
  "example_key \<equiv> key_String seconds_env (rKey example_get)"

lemma example_no_vary: "EqualFold k ''Vary'' \<Longrightarrow> header_at (rheader example_response) k = []"
  by (auto simp: example_response_def NewResource_def header_at_def EqualFold_def ToLower_def lower_char_def)

lemma example_found:
  assumes "entry_files mem_vfs example_key c = (Inr ''hi'', Inr (stored_record plain_recenv (Integrity (cfg c)) example_response example_key 7))"
    and "StaleAt c example_key = Some t" "t < 7"
  shows "\<exists>res req' c'. lookup seconds_env (mem_ops 20) False (no_marks True) example_get c = (Inr res, req', c') \<and> \<not> stale res"
proof -
  have b: "stored_body example_response = ''hi''" by code_simp
  obtain got c' where g: "cache_Retrieve mem_vfs plain_recenv seconds_env 20 example_key c = (Inr got, c')"
      "delivers example_response example_key 7 (StaleAt c example_key) got"
    using retrieve_hit [OF mem_stat_law example_readable, of example_key c seconds_env 20] assms(1) b by auto
  have "StaleAt c' example_key = Some t"
    using staleMap_retrieve [of mem_vfs plain_recenv seconds_env 20 example_key True c] g(1) assms(2)
    by (simp add: StaleAt_def cache_Retrieve_def)
  moreover have "storedAt got = 7" "\<not> stale got" using g(2) assms(2,3) by (auto simp: delivers_def)
  moreover have "generationRetriever (no_marks True) (no_marks True) example_key (Inr got) = Inr got"
    by (simp add: generationRetriever_def no_marks_def)
  moreover note lookup_plain_hit [of "mem_ops 20" seconds_env example_get c got c' "no_marks True" got False] no_vary_delivered [OF g(2)]
  ultimately show ?thesis
    using assms(3) example_no_vary g(1)
    by (auto simp: markInvalidatedResource_def staleAt_def resourceFreshAfter_def StoredAfter_def builtin_ops_def isZero_def Let_def)
qed

lemma mutation_hides_old_responses_witness:
  "\<exists>res req' c'. lookup seconds_env (mem_ops 20) False (no_marks True) example_get (fst example_mutated) = (Inr res, req', c')
     \<and> StoredAfter seconds_env res 5"
proof -
  let ?c = "example_opened IntegrityDisabled example_key ''hi''"
  have inv: "invalidateResource no_literal seconds_env (mem_ops 5) 5 None (NewResource 200 [] []) example_post (?c, no_marks True)
      = (fst example_mutated, snd example_mutated)"
    by (simp add: example_mutated_def)
  have keys: "named_targets no_literal (NewResource 200 [] []) example_post = []" "URL (Request example_post) = empty_url\<lparr>Path := ''/o''\<rparr>"
    "reqHeader (Request example_post) = []"
    by code_simp+
  have c1: "fst example_mutated = Invalidate mem_vfs line_codec 5 (key_pair seconds_env (rKey example_get)) ?c"
    by (simp add: example_mutated_def invalidateResource_def handler_invalidationKeys_def invalidationKeys_def keys fence_def builtin_ops_def
        example_get_def key_pair_def Let_def)
  have "entry_files mem_vfs example_key (fst example_mutated) = entry_files mem_vfs example_key ?c"
    using persist_files [OF mem_vfs_laws, of example_key] unfolding c1
    by (simp add: Invalidate_def invalidate_final_def invalidate_barrier_def entry_files_def key_pair_def Let_def)
  then have f: "entry_files mem_vfs example_key (fst example_mutated)
      = (Inr ''hi'', Inr (stored_record plain_recenv (Integrity (cfg (fst example_mutated))) example_response example_key 7))"
    using example_opened_files(1) [of example_key IntegrityDisabled "''hi''"] example_opened_files(2) [of IntegrityDisabled example_key "''hi''"] unfolding c1
    by (simp add: Invalidate_def invalidate_final_def invalidate_barrier_def key_pair_def Let_def)
  have m: "StaleAt (fst example_mutated) example_key = Some 5" unfolding c1 by (simp add: StaleAt_def Invalidate_marks key_pair_def)
  obtain res req' c' where l: "lookup seconds_env (mem_ops 20) False (no_marks True) example_get (fst example_mutated) = (Inr res, req', c')" "\<not> stale res"
    using example_found [OF f m] by auto
  have "rKey example_get = NewKey ''GET'' (URL (Request example_post)) []" by (simp add: example_get_def keys)
  from mutation_hides_old_responses [OF inv _ _ this _ l] l(1) show ?thesis by blast
qed

definition example_world :: "nat \<Rightarrow> pubworld" where
  "example_world i =
     (let marked = recordStale 5 [''k''] (no_marks False);
          begun = snd (beginLocalPublication 10 0 [''k''] marked);
          ended = the (finishLocalPublication 11 10 [''k''] True begun)
      in [\<lparr>marks = no_marks False, runs = [], backend = \<lambda>_. None, startedAt = \<lambda>_. 0, nextPub = 0\<rparr>,
          \<lparr>marks = marked, runs = [], backend = \<lambda>_. None, startedAt = \<lambda>_. 0, nextPub = 0\<rparr>,
          \<lparr>marks = begun, runs = [\<lparr>rid = 0, rat = 10, rkeys = [''k''], written = {}\<rparr>], backend = \<lambda>_. None,
            startedAt = (\<lambda>_. 0)(0 := 10), nextPub = 1\<rparr>,
          \<lparr>marks = begun, runs = [\<lparr>rid = 0, rat = 10, rkeys = [''k''], written = {''k''}\<rparr>], backend = [''k'' \<mapsto> 0],
            startedAt = (\<lambda>_. 0)(0 := 10), nextPub = 1\<rparr>,
          \<lparr>marks = ended, runs = [], backend = [''k'' \<mapsto> 0], startedAt = (\<lambda>_. 0)(0 := 10), nextPub = 1\<rparr>] ! i)"

lemma example_world_steps: "pub_steps (example_world 0) (example_world 4)"
proof -
  have "pub_step (example_world 0) (example_world 1)"
    using pub_step.invalidate [of "example_world 0" 5 "[''k'']"] by (simp add: example_world_def)
  moreover have "fst (beginLocalPublication 10 0 [''k''] (recordStale 5 [''k''] (no_marks False))) = Some (10, [''k''])" by code_simp
  then have b: "beginLocalPublication 10 0 [''k''] (recordStale 5 [''k''] (no_marks False))
      = (Some (10, [''k'']), snd (beginLocalPublication 10 0 [''k''] (recordStale 5 [''k''] (no_marks False))))" by (metis prod.collapse)
  have "pub_step (example_world 1) (example_world 2)"
    using pub_step.start [of 10 0 "[''k'']" "example_world 1"] b by (simp add: example_world_def)
  moreover have "pub_step (example_world 2) (example_world 3)"
    using pub_step.written_key [of "example_world 2" "[]" _ "[]" "''k''"] by (simp add: example_world_def)
  moreover have "finishLocalPublication 11 10 [''k''] True (snd (beginLocalPublication 10 0 [''k''] (recordStale 5 [''k''] (no_marks False)))) \<noteq> None"
    by code_simp
  then have "pub_step (example_world 3) (example_world 4)"
    using pub_step.finish [of "example_world 3" "[]" _ "[]" True 11] by (simp add: example_world_def)
  ultimately show ?thesis by (meson converse_rtranclp_into_rtranclp rtranclp.rtrancl_refl)
qed

lemma no_reuse_across_mutation_witness:
  "\<not> stale (markInvalidatedResource seconds_env (mem_ops 20\<lparr>opStaleAt := None, opStaleSnapshot := None\<rparr>) (empty_cache [] False DefaultCacheConfig) (marks (example_world 4)) ''k'' ''k'' False
      (NewResource 200 [] []\<lparr>handlerStoredAt := 10\<rparr>)) \<and> 5 < startedAt (example_world 4) 0"
proof -
  let ?w = "example_world 4"
  let ?res = "NewResource 200 [] []\<lparr>handlerStoredAt := 10\<rparr>"
  have f: "map_of (localFresh (marks ?w)) ''k'' = Some \<lparr>proofAt = 10, proofId = 0\<rparr>" "map_of (localPublications (marks ?w)) ''k'' = None"
    "local_staleAt (marks ?w) ''k'' = Some 5" "\<not> keepsMarkers (marks ?w)" "backend ?w ''k'' = Some 0"
    by code_simp+
  have g: "generationRetriever (marks ?w) (marks ?w) ''k'' (Inr (NewResource 200 [] [])) = Inr ?res"
    using f by (simp add: generationRetriever_def localPublicationSnapshot_def)
  have i: "initial_pub (example_world 0)" by (simp add: initial_pub_def example_world_def no_marks_def)
  have m: "\<not> stale (markInvalidatedResource seconds_env (mem_ops 20\<lparr>opStaleAt := None, opStaleSnapshot := None\<rparr>) (empty_cache [] False DefaultCacheConfig) (marks ?w) ''k'' ''k'' False ?res)"
    using f(3) by (simp add: markInvalidatedResource_def staleAt_def resourceFreshAfter_def NewResource_def)
  from no_reuse_across_mutation [OF i example_world_steps rtranclp.rtrancl_refl rtranclp.rtrancl_refl rtranclp.rtrancl_refl _ f(5) g _ f(3) _ m] m
  show ?thesis by simp
qed

end
