(* ===== verification/Barrier.thy ===== *)
theory Barrier
  imports Lookup
begin

text \<open>
  Stores and freshenings of \<^verbatim>\<open>src/cache.go\<close> against invalidations, with the two locks that order them.
  A writer holds \<^verbatim>\<open>generationMu\<close> for reading from its check \<^verbatim>\<open>responseSuperseded\<close> to the end of its
  call, and fixes the time of storage in between; an invalidation publishes the barrier at once and
  takes \<^verbatim>\<open>generationMu\<close> for writing before it replaces the barrier by the time of the invalidation.

  Of a writer the state keeps when its request began and its keys; of the entry visible under a
  key, when the request that produced it began and when it was stored. \<open>clk\<close> is the latest reading
  of the clock: readings do not decrease and lie before the year 10000.
\<close>

record writer =
  wreq :: time
  wkeys :: "string list"

record 'fs fenced =
  fcache :: "'fs cache"
  writers :: "writer list"
  visible :: "string \<Rightarrow> (time \<times> time) option"
  clk :: time

inductive fence_step :: "'fs vfs \<Rightarrow> codec \<Rightarrow> goenv \<Rightarrow> 'fs fenced \<Rightarrow> 'fs fenced \<Rightarrow> bool" for v cd e where
  admit: "\<not> responseSuperseded e res keys (fcache s) \<Longrightarrow> \<not> isZero (RequestTime res) \<Longrightarrow>
    fence_step v cd e s (s\<lparr>writers := \<lparr>wreq = RequestTime res, wkeys = keys\<rparr> # writers s\<rparr>)"
| publish: "w \<in> set (writers s) \<Longrightarrow> k \<in> set (wkeys w) \<Longrightarrow> at \<le> clk s \<Longrightarrow> staleMap c' = staleMap (fcache s) \<Longrightarrow>
    fence_step v cd e s (s\<lparr>visible := (visible s)(k := Some (wreq w, at)), fcache := c'\<rparr>)"
| drop: "staleMap c' = staleMap (fcache s) \<Longrightarrow> fence_step v cd e s (s\<lparr>visible := (visible s)(k := None), fcache := c'\<rparr>)"
| leave: "writers s = ws @ w # ws' \<Longrightarrow> fence_step v cd e s (s\<lparr>writers := ws @ ws'\<rparr>)"
| barrier: "fence_step v cd e s (s\<lparr>fcache := invalidate_barrier v cd keys (fcache s)\<rparr>)"
| final: "writers s = [] \<Longrightarrow> clk s \<le> now \<Longrightarrow> now < invalidationBarrierTime \<Longrightarrow>
    fence_step v cd e s (s\<lparr>fcache := invalidate_final v cd now keys (fcache s), clk := now\<rparr>)"
| tick: "clk s \<le> now \<Longrightarrow> now < invalidationBarrierTime \<Longrightarrow> fence_step v cd e s (s\<lparr>clk := now\<rparr>)"

abbreviation fence_steps :: "'fs vfs \<Rightarrow> codec \<Rightarrow> goenv \<Rightarrow> 'fs fenced \<Rightarrow> 'fs fenced \<Rightarrow> bool" where
  "fence_steps v cd e \<equiv> (fence_step v cd e)\<^sup>*\<^sup>*"

definition fence_ok :: "'fs fenced \<Rightarrow> bool" where
  "fence_ok s \<longleftrightarrow> clk s < invalidationBarrierTime
     \<and> (\<forall>w \<in> set (writers s). \<forall>k \<in> set (wkeys w). \<forall>t. StaleAt (fcache s) k = Some t \<longrightarrow> t < wreq w \<or> t = invalidationBarrierTime)
     \<and> (\<forall>k req at. visible s k = Some (req, at) \<longrightarrow> at \<le> clk s \<and> (\<forall>t. StaleAt (fcache s) k = Some t \<and> t < at \<longrightarrow> t < req))"

lemma barrier_marks: "StaleAt (invalidate_barrier v cd keys c) k = (if k \<in> set keys then Some invalidationBarrierTime else StaleAt c k)"
  by (simp add: invalidate_barrier_def StaleAt_def Let_def go_map_simps)

lemma final_marks: "StaleAt (invalidate_final v cd now keys c) k = (if k \<in> set keys then Some now else StaleAt c k)"
  by (simp add: invalidate_final_def StaleAt_def Let_def go_map_simps)

lemma admitted_after:
  assumes "\<not> responseSuperseded e res keys c" "\<not> isZero (RequestTime res)" "k \<in> set keys" "StaleAt c k = Some t"
  shows "t < RequestTime res"
  using assms by (fastforce simp: responseSuperseded_def list_ex_iff ReceivedAfter_def)

lemma fence_ok_step:
  assumes "fence_step v cd e s s'" "fence_ok s"
  shows "fence_ok s'"
  using assms(1)
proof (cases rule: fence_step.cases)
  case (admit res keys)
  with assms(2) admitted_after [OF admit(2,3)] show ?thesis by (auto simp: fence_ok_def)
next
  case (publish w k at c')
  then have st: "StaleAt c' = StaleAt (fcache s)" by (simp add: StaleAt_def fun_eq_iff)
  have "t < wreq w" if "StaleAt (fcache s) k = Some t" "t < at" for t
    using that publish(2-4) assms(2) by (fastforce simp: fence_ok_def)
  with publish st assms(2) show ?thesis by (auto simp: fence_ok_def)
next
  case (drop c' k)
  then have "StaleAt c' = StaleAt (fcache s)" by (simp add: StaleAt_def fun_eq_iff)
  with drop assms(2) show ?thesis by (auto simp: fence_ok_def)
next
  case (leave ws w ws')
  with assms(2) show ?thesis by (auto simp: fence_ok_def)
next
  case (barrier keys)
  with assms(2) show ?thesis by (fastforce simp: fence_ok_def barrier_marks)
next
  case (final now keys)
  with assms(2) show ?thesis by (fastforce simp: fence_ok_def final_marks)
next
  case (tick now)
  with assms(2) show ?thesis by (fastforce simp: fence_ok_def)
qed

lemma fence_ok_steps: "fence_steps v cd e s s' \<Longrightarrow> fence_ok s \<Longrightarrow> fence_ok s'"
  by (induction rule: rtranclp_induct) (auto intro: fence_ok_step)

text \<open>
  C3: a response requested before a mutation is never fresh after it. Whatever stores and
  freshenings are running when keys are invalidated, once the marker of a key is the time \<open>t\<close> of an
  invalidation, an entry under that key counts as stored after \<open>t\<close> only if the request that produced
  it began after \<open>t\<close>; while the invalidation is still waiting for writers, no entry does.
\<close>

theorem store_races_invalidation:
  assumes "clk s0 < invalidationBarrierTime" "writers s0 = []" "visible s0 = (\<lambda>_. None)" "fence_steps v cd e s0 s"
    and "visible s k = Some (req, at)" "StaleAt (fcache s) k = Some t" "\<not> isZero at"
  shows "(StoredAfter e (SetStoredAt res at) t \<longrightarrow> t < req) \<and> (t = invalidationBarrierTime \<longrightarrow> \<not> StoredAfter e (SetStoredAt res at) t)"
proof -
  have "fence_ok s" using fence_ok_steps [OF assms(4)] assms(1-3) by (simp add: fence_ok_def)
  with assms(5,6) have "at \<le> clk s" "clk s < invalidationBarrierTime" "t < at \<longrightarrow> t < req" by (auto simp: fence_ok_def)
  with assms(7) show ?thesis by (auto simp: StoredAfter_def SetStoredAt_def)
qed

subsection \<open>The store as a writer\<close>

lemma publish_keys:
  assumes "w \<in> set (writers s)" "set ks \<subseteq> set (wkeys w)" "\<forall>k \<in> set ks. at k \<le> clk s" "staleMap c' = staleMap (fcache s)" "ks \<noteq> []"
  shows "fence_steps v cd e s (s\<lparr>visible := (\<lambda>k. if k \<in> set ks then Some (wreq w, at k) else visible s k), fcache := c'\<rparr>)"
  using assms
proof (induction ks arbitrary: s)
  case Nil
  then show ?case by simp
next
  case (Cons k ks)
  let ?s1 = "s\<lparr>visible := (visible s)(k := Some (wreq w, at k)), fcache := c'\<rparr>"
  have 1: "fence_step v cd e s ?s1" using Cons.prems by (intro fence_step.publish) auto
  show ?case
  proof (cases "ks = []")
    case True
    have "?s1 = s\<lparr>visible := (\<lambda>j. if j \<in> set (k # ks) then Some (wreq w, at j) else visible s j), fcache := c'\<rparr>"
      using True by (auto simp: fun_eq_iff)
    with 1 show ?thesis by (metis r_into_rtranclp)
  next
    case False
    have "fence_steps v cd e ?s1 (?s1\<lparr>visible := (\<lambda>j. if j \<in> set ks then Some (wreq w, at j) else visible ?s1 j), fcache := c'\<rparr>)"
      using Cons.prems False by (intro Cons.IH) auto
    moreover have "?s1\<lparr>visible := (\<lambda>j. if j \<in> set ks then Some (wreq w, at j) else visible ?s1 j), fcache := c'\<rparr>
        = s\<lparr>visible := (\<lambda>j. if j \<in> set (k # ks) then Some (wreq w, at j) else visible s j), fcache := c'\<rparr>"
      by (auto simp: fun_eq_iff)
    ultimately show ?thesis using 1 by (metis (no_types, lifting) converse_rtranclp_into_rtranclp)
  qed
qed

lemma unique_nonempty: "keys \<noteq> [] \<Longrightarrow> fst (lockStoreKeys keys) \<noteq> []"
  by (cases keys) (simp_all add: lockStoreKeys_def Let_def)


subsection \<open>Examples\<close>

definition example_fenced :: "(string, string) gomap fenced" where
  "example_fenced = \<lparr>fcache = empty_cache [] True DefaultCacheConfig, writers = [], visible = \<lambda>_. None, clk = 10\<rparr>"

definition example_timed :: resource where
  "example_timed = example_response\<lparr>RequestTime := 6\<rparr>"

lemma example_timed_stored:
  "\<exists>c'. StoreContext mem_vfs plain_recenv line_codec seconds_env quiet example_timed [''k''] (fcache example_fenced) = (None, c')"
proof -
  have "fst (StoreContext mem_vfs plain_recenv line_codec seconds_env quiet example_timed [''k''] (fcache example_fenced)) = None"
    by code_simp
  then show ?thesis by (metis prod.collapse)
qed

lemma example_timed_readable: "readable_record plain_recenv example_timed key 7"
proof -
  have "stored_body example_timed = stored_body example_response" "statusCode example_timed = statusCode example_response"
    "rheader example_timed = rheader example_response" by code_simp+
  with example_readable [of key] show ?thesis unfolding readable_record_def by simp
qed


lemma store_races_invalidation_witness:
  "\<exists>s. fence_steps mem_vfs line_codec seconds_env example_fenced s \<and> visible s ''k'' = Some (6, 7) \<and> StaleAt (fcache s) ''k'' = Some 10
     \<and> \<not> StoredAfter seconds_env (SetStoredAt example_timed 7) 10"
proof -
  let ?c = "fcache example_fenced"
  let ?s1 = "example_fenced\<lparr>writers := [\<lparr>wreq = 6, wkeys = [''k'']\<rparr>]\<rparr>"
  let ?s2 = "?s1\<lparr>fcache := invalidate_barrier mem_vfs line_codec [''k''] ?c\<rparr>"
  let ?s3 = "?s2\<lparr>visible := [''k'' \<mapsto> (6, 7)]\<rparr>"
  let ?s4 = "?s3\<lparr>writers := []\<rparr>"
  let ?s5 = "?s4\<lparr>fcache := invalidate_final mem_vfs line_codec 10 [''k''] (fcache ?s4)\<rparr>"
  have "\<not> responseSuperseded seconds_env example_timed [''k''] ?c" using example_free by (simp add: example_fenced_def)
  then have 1: "fence_step mem_vfs line_codec seconds_env example_fenced ?s1"
    using fence_step.admit [of seconds_env example_timed "[''k'']" example_fenced] by (simp add: example_timed_def isZero_def example_fenced_def)
  have 2: "fence_step mem_vfs line_codec seconds_env ?s1 ?s2"
    using fence_step.barrier [of _ _ _ ?s1 "[''k'']"] by simp
  have 3: "fence_step mem_vfs line_codec seconds_env ?s2 ?s3"
    using fence_step.publish [of "\<lparr>wreq = 6, wkeys = [''k'']\<rparr>" ?s2 "''k''" 7 "fcache ?s2"] by (simp add: example_fenced_def)
  have 4: "fence_step mem_vfs line_codec seconds_env ?s3 ?s4" using fence_step.leave [of ?s3 "[]" _ "[]"] by simp
  have 5: "fence_step mem_vfs line_codec seconds_env ?s4 ?s5"
    using fence_step.final [of ?s4 10 _ _ _ "[''k'']"] by (simp add: example_fenced_def invalidationBarrierTime_def)
  have st: "fence_steps mem_vfs line_codec seconds_env example_fenced ?s5"
    using 1 2 3 4 5 by (meson converse_rtranclp_into_rtranclp rtranclp.rtrancl_refl)
  have v: "visible ?s5 ''k'' = Some (6, 7)" "StaleAt (fcache ?s5) ''k'' = Some 10" by (simp_all add: final_marks)
  have "StoredAfter seconds_env (SetStoredAt example_timed 7) 10 \<longrightarrow> (10 :: int) < 6"
    using store_races_invalidation [OF _ _ _ st v, of example_timed] by (simp add: example_fenced_def invalidationBarrierTime_def isZero_def)
  with st v show ?thesis by auto
qed

end
