(* ===== verification/Conditions.thy ===== *)
theory Conditions
  imports Validator
begin

text \<open>
  The preconditions of a request as \<^verbatim>\<open>http.ServeContent\<close> of the standard library evaluates them; both
  \<^verbatim>\<open>serveResource\<close> of \<^verbatim>\<open>src/handler.go\<close> and the writer of \<^verbatim>\<open>src/client_preconditions.go\<close> leave this
  decision to it. A result is what \<^verbatim>\<open>checkPreconditions\<close> does: answer 412, answer 304, or go on.
\<close>

datatype cond = CondNone | CondTrue | CondFalse

definition isZeroTime :: "time \<Rightarrow> bool" where
  \<comment> \<open>the zero time or the Unix epoch\<close>
  "isZeroTime t \<longleftrightarrow> isZero t \<or> t = 719162 * 86400 * 1000000000"

fun etag_end :: "string \<Rightarrow> string \<Rightarrow> (string \<times> string) option" where
  \<comment> \<open>the text up to the closing quote and what follows it\<close>
  "etag_end acc [] = None"
| "etag_end acc (c # cs) =
     (if code c = 33 \<or> (35 \<le> code c \<and> code c \<le> 126) \<or> 128 \<le> code c then etag_end (acc @ [c]) cs
      else if c = CHR 0x22 then Some (acc @ [c], cs) else None)"

definition scanETag :: "string \<Rightarrow> (string \<times> string) option" where
  "scanETag s0 =
     (let s = trim_by ascii_space s0; start = (if take 2 s = ''W/'' then 2 else 0)
      in if length (drop start s) < 2 \<or> s ! start \<noteq> CHR 0x22 then None
         else etag_end (take (start + 1) s) (drop (start + 1) s))"

definition etagStrongMatch :: "string \<Rightarrow> string \<Rightarrow> bool" where
  "etagStrongMatch a b \<longleftrightarrow> a = b \<and> a \<noteq> [] \<and> hd a = CHR 0x22"

definition trim_weak :: "string \<Rightarrow> string" where
  "trim_weak a = (if take 2 a = ''W/'' then drop 2 a else a)"

definition etagWeakMatch :: "string \<Rightarrow> string \<Rightarrow> bool" where
  "etagWeakMatch a b \<longleftrightarrow> trim_weak a = trim_weak b"

lemma etag_end_shorter: "etag_end acc cs = Some (tag, rest) \<Longrightarrow> length rest < length cs"
  by (induction acc cs rule: etag_end.induct) (auto split: if_splits)

lemma length_trim_by: "length (trim_by P s) \<le> length s"
  unfolding trim_by_def by (metis length_dropWhile_le length_rev order_trans)

lemma scanETag_shorter: "scanETag s = Some (tag, rest) \<Longrightarrow> length rest < length s"
  using length_trim_by [of ascii_space s]
  by (auto simp: scanETag_def Let_def split: if_splits dest!: etag_end_shorter)

lemma trimmed_tl: "trim_by P s \<noteq> [] \<Longrightarrow> length (trim_by P s) - Suc 0 < length s"
  using length_trim_by [of P s] by (cases "trim_by P s") auto

lemma trimmed_scan: "scanETag (trim_by P s) = Some (tag, rest) \<Longrightarrow> length rest < length s"
  using scanETag_shorter length_trim_by [of P s] by fastforce

text \<open>Whether a list of entity tags has the star or a tag that matches; a malformed rest ends the list.\<close>

function tag_list_matches :: "(string \<Rightarrow> bool) \<Rightarrow> string \<Rightarrow> bool" where
  "tag_list_matches P buf =
     (let buf' = trim_by ascii_space buf in
      if buf' = [] then False
      else if hd buf' = CHR '','' then tag_list_matches P (tl buf')
      else if hd buf' = CHR ''*'' then True
      else (case scanETag buf' of None \<Rightarrow> False
            | Some (etag, remain) \<Rightarrow> if P etag then True else tag_list_matches P remain))"
  by pat_completeness auto
termination
  by (relation "measure (\<lambda>(P, buf). length buf)") (auto intro: trimmed_tl trimmed_scan)

declare tag_list_matches.simps [simp del]

definition checkIfMatch :: "header \<Rightarrow> request \<Rightarrow> cond" where
  "checkIfMatch h r =
     (let im = Get (reqHeader r) ''If-Match''
      in if im = [] then CondNone
         else if tag_list_matches (\<lambda>etag. etagStrongMatch etag (Get h ''Etag'')) im then CondTrue else CondFalse)"

definition truncate_second :: "time \<Rightarrow> time" where
  "truncate_second t = t - t mod 1000000000"

definition since :: "goenv \<Rightarrow> string \<Rightarrow> time \<Rightarrow> request \<Rightarrow> bool option" where
  \<comment> \<open>whether the representation is not newer than the date in a field; no answer without both\<close>
  "since e name modtime r =
     (let v = Get (reqHeader r) name
      in if v = [] \<or> isZeroTime modtime then None
         else map_option (\<lambda>t. truncate_second modtime \<le> t) (ParseTime e v))"

definition checkIfUnmodifiedSince :: "goenv \<Rightarrow> time \<Rightarrow> request \<Rightarrow> cond" where
  "checkIfUnmodifiedSince e modtime r =
     (case since e ''If-Unmodified-Since'' modtime r of None \<Rightarrow> CondNone | Some b \<Rightarrow> if b then CondTrue else CondFalse)"

definition checkIfNoneMatch :: "header \<Rightarrow> request \<Rightarrow> cond" where
  "checkIfNoneMatch h r =
     (let inm = Get (reqHeader r) ''If-None-Match''
      in if inm = [] then CondNone
         else if tag_list_matches (\<lambda>etag. etagWeakMatch etag (Get h ''Etag'')) inm then CondFalse else CondTrue)"

definition checkIfModifiedSince :: "goenv \<Rightarrow> time \<Rightarrow> request \<Rightarrow> cond" where
  "checkIfModifiedSince e modtime r =
     (if Method r \<noteq> ''GET'' \<and> Method r \<noteq> ''HEAD'' then CondNone
      else case since e ''If-Modified-Since'' modtime r of None \<Rightarrow> CondNone | Some b \<Rightarrow> if b then CondFalse else CondTrue)"

definition checkPreconditions :: "goenv \<Rightarrow> header \<Rightarrow> time \<Rightarrow> request \<Rightarrow> int option" where
  \<comment> \<open>the status that answers the request, if the conditions do\<close>
  "checkPreconditions e h modtime r =
     (let ch = checkIfMatch h r;
          ch = (if ch = CondNone then checkIfUnmodifiedSince e modtime r else ch)
      in if ch = CondFalse then Some 412
         else case checkIfNoneMatch h r of
           CondFalse \<Rightarrow> if Method r = ''GET'' \<or> Method r = ''HEAD'' then Some 304 else Some 412
         | CondNone \<Rightarrow> if checkIfModifiedSince e modtime r = CondFalse then Some 304 else None
         | CondTrue \<Rightarrow> None)"

definition setLastModified :: "goenv \<Rightarrow> time \<Rightarrow> header \<Rightarrow> header" where
  "setLastModified e modtime h = (if isZeroTime modtime then h else Set h ''Last-Modified'' (FormatTime e modtime))"

definition writeNotModified :: "header \<Rightarrow> header" where
  "writeNotModified h0 =
     (let h = AList.delete ''Content-Encoding'' (AList.delete ''Content-Length'' (AList.delete ''Content-Type'' h0))
      in if Get h ''Etag'' \<noteq> [] then AList.delete ''Last-Modified'' h else h)"

definition answer_preconditions :: "goenv \<Rightarrow> time \<Rightarrow> request \<Rightarrow> header \<Rightarrow> (int \<times> header) option" where
  \<comment> \<open>status and header with which \<^verbatim>\<open>ServeContent\<close> ends at the conditions\<close>
  "answer_preconditions e modtime r h =
     (let h = setLastModified e modtime h
      in map_option (\<lambda>s. (s, if s = 304 then writeNotModified h else h)) (checkPreconditions e h modtime r))"

end
