(* ===== verification/Writers.thy ===== *)
theory Writers
  imports Policy Conditions
begin

text \<open>
  The response writers between an origin and a client: \<^verbatim>\<open>responseStreamer\<close> of \<^verbatim>\<open>src/handler.go\<close>, which
  copies a response to the cache while it delivers it, \<^verbatim>\<open>validationExchange\<close> of
  \<^verbatim>\<open>src/conditional_response.go\<close>, which captures one, and the writer of \<^verbatim>\<open>src/client_preconditions.go\<close>,
  which applies a client's conditions to one.

  An origin is the sequence of calls it makes on its writer. A writer is a state with the operations
  in a record; the outermost is the connection of \<^verbatim>\<open>net/http\<close>, the type \<open>client\<close>. An origin that keeps a
  header map from before its first status and changes it afterwards is not modelled: every change
  is made through \<^verbatim>\<open>Header()\<close>.
\<close>

subsection \<open>Writers\<close>

record 'w writer_ops =
  wHeader :: "'w \<Rightarrow> header"
  wSet :: "header \<Rightarrow> 'w \<Rightarrow> 'w"
  wWriteHeader :: "int \<Rightarrow> 'w \<Rightarrow> 'w"
  wWrite :: "string \<Rightarrow> 'w \<Rightarrow> 'w"
  wFlush :: "'w \<Rightarrow> 'w"

fun writer_call :: "'w writer_ops \<Rightarrow> 'w \<Rightarrow> writer_call \<Rightarrow> 'w" where
  "writer_call ops w (EditHeader f) = wSet ops (f (wHeader ops w)) w"
| "writer_call ops w (WriteHeader s) = wWriteHeader ops s w"
| "writer_call ops w (Write b) = wWrite ops b w"
| "writer_call ops w Flush = wFlush ops w"

definition run_calls :: "'w writer_ops \<Rightarrow> writer_call list \<Rightarrow> 'w \<Rightarrow> 'w" where
  "run_calls ops calls w = foldl (writer_call ops) w calls"

text \<open>
  The writer \<^verbatim>\<open>net/http\<close> gives to a handler. An informational status is sent at once and does not
  end the header; later statuses after the first final one are ignored; a status without a body
  drops what is written. After the header was sent, the live map holds trailer values.
\<close>

record client =
  live :: header
  sent :: "(int \<times> header) option"
  interim :: "(int \<times> header) list"
  out :: string

definition informational :: "int \<Rightarrow> bool" where
  "informational s \<longleftrightarrow> 100 \<le> s \<and> s \<le> 199 \<and> s \<noteq> 101"

definition bodyAllowed :: "int \<Rightarrow> bool" where
  "bodyAllowed s \<longleftrightarrow> \<not> (100 \<le> s \<and> s \<le> 199) \<and> s \<noteq> 204 \<and> s \<noteq> 304"

definition client_WriteHeader :: "int \<Rightarrow> client \<Rightarrow> client" where
  "client_WriteHeader s w =
     (if sent w \<noteq> None then w
      else if informational s then w\<lparr>interim := interim w @ [(s, live w)]\<rparr>
      else w\<lparr>sent := Some (s, live w)\<rparr>)"

definition client_Write :: "string \<Rightarrow> client \<Rightarrow> client" where
  "client_Write b w =
     (let w = (if sent w = None then client_WriteHeader 200 w else w)
      in if bodyAllowed (fst (the (sent w))) then w\<lparr>out := out w @ b\<rparr> else w)"

definition client_ops :: "client writer_ops" where
  "client_ops = \<lparr>wHeader = live, wSet = \<lambda>h w. w\<lparr>live := h\<rparr>, wWriteHeader = client_WriteHeader, wWrite = client_Write,
     wFlush = \<lambda>w. if sent w = None then client_WriteHeader 200 w else w\<rparr>"

subsection \<open>The streamer\<close>

record 'w responseStreamer =
  rw :: 'w
  StatusCode :: int
  deferHeaders :: bool
  retainHeader :: bool
  bufferedHeader :: "header option"
  responseHeader :: "header option"
  clientHeader :: "header option"
  stagingTrailer :: bool
  headerOnce :: bool
  committed :: bool
  pipe :: string

definition newResponseStreamer :: "'w \<Rightarrow> 'w responseStreamer" where
  "newResponseStreamer w = \<lparr>rw = w, StatusCode = 0, deferHeaders = False, retainHeader = False, bufferedHeader = None,
     responseHeader = None, clientHeader = None, stagingTrailer = False, headerOnce = False, committed = False, pipe = []\<rparr>"

definition own_header :: "'w responseStreamer \<Rightarrow> bool" where
  "own_header s \<longleftrightarrow> deferHeaders s \<and> \<not> retainHeader s \<and> \<not> committed s"

definition rs_Header :: "'w writer_ops \<Rightarrow> 'w responseStreamer \<Rightarrow> header" where
  "rs_Header ops s =
     (if \<not> own_header s then wHeader ops (rw s)
      else case bufferedHeader s of None \<Rightarrow> wHeader ops (rw s) | Some h \<Rightarrow> h)"

definition rs_Set :: "'w writer_ops \<Rightarrow> header \<Rightarrow> 'w responseStreamer \<Rightarrow> 'w responseStreamer" where
  \<comment> \<open>changing the map that \<^verbatim>\<open>Header()\<close> returns\<close>
  "rs_Set ops h s = (if \<not> own_header s then s\<lparr>rw := wSet ops h (rw s)\<rparr> else s\<lparr>bufferedHeader := Some h\<rparr>)"

definition commit_fields :: "bool \<Rightarrow> header \<Rightarrow> header \<Rightarrow> header" where
  "commit_fields retain hdr dst =
     foldl (\<lambda>d (name, values). if retain \<and> map_of d name = Some values then d else AList.update name values d)
       (filter (\<lambda>(name, values). retain \<and> map_of hdr name \<noteq> None) dst) hdr"

definition CommitHeaders :: "'w writer_ops \<Rightarrow> 'w responseStreamer \<Rightarrow> 'w responseStreamer" where
  "CommitHeaders ops s =
     (if committed s then s
      else let hdr = (case clientHeader s of Some h \<Rightarrow> h | None \<Rightarrow> the (responseHeader s));
               w = (if deferHeaders s then wSet ops (commit_fields (retainHeader s) hdr (wHeader ops (rw s))) (rw s) else rw s)
           in s\<lparr>rw := wWriteHeader ops (StatusCode s) w, committed := True\<rparr>)"

text \<open>When headers are deferred, the call publishes them and waits until the handler has committed them.\<close>

definition rs_WriteHeader :: "'w writer_ops \<Rightarrow> int \<Rightarrow> 'w responseStreamer \<Rightarrow> 'w responseStreamer" where
  "rs_WriteHeader ops status s =
     (if headerOnce s then s
      else let s = s\<lparr>StatusCode := status, responseHeader := Some (rs_Header ops s), headerOnce := True,
                     bufferedHeader := (if own_header s then Some (rs_Header ops s) else bufferedHeader s)\<rparr>
           in if deferHeaders s then s else CommitHeaders ops s)"

definition rs_Write :: "'w writer_ops \<Rightarrow> string \<Rightarrow> 'w responseStreamer \<Rightarrow> 'w responseStreamer" where
  "rs_Write ops b s = (let s = rs_WriteHeader ops 200 s in s\<lparr>pipe := pipe s @ b, rw := wWrite ops b (rw s)\<rparr>)"

definition rs_Close :: "'w writer_ops \<Rightarrow> 'w responseStreamer \<Rightarrow> 'w responseStreamer" where
  "rs_Close ops s = rs_WriteHeader ops 200 s"

definition streamer_ops :: "'w writer_ops \<Rightarrow> 'w responseStreamer writer_ops" where
  "streamer_ops ops = \<lparr>wHeader = rs_Header ops, wSet = rs_Set ops, wWriteHeader = rs_WriteHeader ops,
     wWrite = rs_Write ops, wFlush = \<lambda>s. s\<rparr>"

text \<open>
  \<^verbatim>\<open>WaitHeaders\<close>: the origin runs until it has published a status, by a call or by returning; the second
  result is what it does afterwards. A \<^verbatim>\<open>Write\<close> publishes the status 200 before it writes.
\<close>

fun WaitHeaders :: "'w writer_ops \<Rightarrow> writer_call list \<Rightarrow> 'w responseStreamer \<Rightarrow> 'w responseStreamer \<times> writer_call list" where
  "WaitHeaders ops [] s = (rs_Close ops s, [])"
| "WaitHeaders ops (c # cs) s =
     (case c of EditHeader f \<Rightarrow> WaitHeaders ops cs (rs_Set ops (f (rs_Header ops s)) s)
      | WriteHeader st \<Rightarrow> (rs_WriteHeader ops st s, cs)
      | Write b \<Rightarrow> (rs_WriteHeader ops 200 s, Write b # cs)
      | Flush \<Rightarrow> WaitHeaders ops cs s)"

definition commitStagingHeaders ::
  "'w writer_ops \<Rightarrow> request \<Rightarrow> string \<Rightarrow> bool \<Rightarrow> 'w responseStreamer \<Rightarrow> 'w responseStreamer" where
  "commitStagingHeaders ops req status admitted s =
     (if \<not> deferHeaders s then s
      else
        let h = Set (the (responseHeader s)) ''X-Cache'' (if \<not> admitted then ''SKIP'' else status);
            trailer = (admitted \<and> canConveyStaging req (StatusCode s));
            h = (if trailer then
                   let h = Add h ''Trailer'' ''X-Cache-Staging'' in
                   if ProtoMajor req = 1 then
                     let h = Del h ''Content-Length''
                     in if EqualFold (Get h ''Transfer-Encoding'') ''identity'' then Del h ''Transfer-Encoding'' else h
                   else h
                 else h)
        in CommitHeaders ops (s\<lparr>clientHeader := Some h, stagingTrailer := trailer\<rparr>))"

definition finishStaging :: "'w writer_ops \<Rightarrow> string \<Rightarrow> 'w responseStreamer \<Rightarrow> 'w responseStreamer" where
  "finishStaging ops status s =
     (let s = (if deferHeaders s \<and> \<not> retainHeader s
               then rs_Set ops (copyValidationTrailers (rs_Header ops s) (the (bufferedHeader s)) (the (responseHeader s))) s
               else s)
      in if stagingTrailer s then rs_Set ops (Set (rs_Header ops s) ''X-Cache-Staging'' status) s else s)"

definition rs_Resource :: "'w writer_ops \<Rightarrow> 'w responseStreamer \<Rightarrow> resource" where
  "rs_Resource ops s = NewResource (StatusCode s) (pipe s) (case responseHeader s of Some h \<Rightarrow> h | None \<Rightarrow> rs_Header ops s)"

subsection \<open>The exchange\<close>

record validationExchange =
  xheader :: header
  xsnapshot :: "header option"
  xstatus :: int
  xbody :: string

definition newValidationExchange :: validationExchange where
  "newValidationExchange = \<lparr>xheader = [], xsnapshot = None, xstatus = 0, xbody = []\<rparr>"

definition ve_WriteHeader :: "int \<Rightarrow> validationExchange \<Rightarrow> validationExchange" where
  "ve_WriteHeader status x =
     (if status < 200 then x
      else if xsnapshot x \<noteq> None then x
      else x\<lparr>xstatus := status, xsnapshot := Some (xheader x)\<rparr>)"

definition ve_Write :: "string \<Rightarrow> validationExchange \<Rightarrow> validationExchange" where
  "ve_Write b x = (let x = ve_WriteHeader 200 x in x\<lparr>xbody := xbody x @ b\<rparr>)"

definition ve_Flush :: "validationExchange \<Rightarrow> validationExchange" where
  "ve_Flush x = ve_WriteHeader 200 x"

definition exchange_ops :: "validationExchange writer_ops" where
  "exchange_ops = \<lparr>wHeader = xheader, wSet = \<lambda>h x. x\<lparr>xheader := h\<rparr>, wWriteHeader = ve_WriteHeader, wWrite = ve_Write, wFlush = ve_Flush\<rparr>"

text \<open>An origin is its calls and whether it panics after them; the flag of the result says that the body is complete.\<close>

definition ve_serve :: "writer_call list \<times> bool \<Rightarrow> validationExchange \<Rightarrow> validationExchange \<times> bool" where
  "ve_serve origin x =
     (let x = run_calls exchange_ops (fst origin) x
      in if snd origin then (ve_WriteHeader 502 x, False) else (ve_WriteHeader 200 x, True))"

subsection \<open>The client's preconditions\<close>

record 'w clientPreconditionWriter =
  pcw :: 'w
  pcreq :: request
  pcheader :: header
  suppress :: bool
  deferStaging :: bool
  pendingStatus :: int
  pendingHeader :: header

definition newClientPreconditionWriter :: "'w writer_ops \<Rightarrow> 'w \<Rightarrow> request \<Rightarrow> 'w + 'w clientPreconditionWriter" where
  "newClientPreconditionWriter ops w req =
     (let h = reqHeader req in
      if Get h ''If-None-Match'' = [] \<and> Get h ''If-Modified-Since'' = [] \<and> Get h ''If-Match'' = [] \<and> Get h ''If-Unmodified-Since'' = []
      then Inl w
      else Inr \<lparr>pcw = w, pcreq = req, pcheader = wHeader ops w, suppress = False, deferStaging = False, pendingStatus = 0, pendingHeader = []\<rparr>)"

definition pc_commitHeader :: "'w writer_ops \<Rightarrow> int \<Rightarrow> header \<Rightarrow> 'w clientPreconditionWriter \<Rightarrow> 'w clientPreconditionWriter" where
  "pc_commitHeader ops status h p = p\<lparr>pcw := wWriteHeader ops status (wSet ops h (pcw p))\<rparr>"

definition pc_WriteHeader :: "goenv \<Rightarrow> 'w writer_ops \<Rightarrow> int \<Rightarrow> 'w clientPreconditionWriter \<Rightarrow> 'w clientPreconditionWriter" where
  "pc_WriteHeader e ops status0 p =
     (let h0 = pcheader p;
          modified = (case ParseTime e (Get h0 ''Last-Modified'') of Some t \<Rightarrow> t | None \<Rightarrow> 0);
          probe = (if 200 \<le> status0 \<and> status0 < 300 then answer_preconditions e modified (pcreq p) h0 else None);
          (status, h, sup) = (case probe of Some (s, h) \<Rightarrow> (s, h, True) | None \<Rightarrow> (status0, h0, suppress p));
          p = p\<lparr>suppress := sup\<rparr>
      in if deferStaging p \<and> suppress p then p\<lparr>pendingStatus := status, pendingHeader := h\<rparr>
         else pc_commitHeader ops status h p)"

definition pc_Write :: "goenv \<Rightarrow> 'w writer_ops \<Rightarrow> string \<Rightarrow> 'w clientPreconditionWriter \<Rightarrow> 'w clientPreconditionWriter" where
  "pc_Write e ops b p = (if suppress p then p else p\<lparr>pcw := wWrite ops b (pcw p)\<rparr>)"

definition DeferStagingHeaders :: "'w clientPreconditionWriter \<Rightarrow> 'w clientPreconditionWriter" where
  "DeferStagingHeaders p = p\<lparr>deferStaging := True\<rparr>"

definition finishTrailers :: "'w writer_ops \<Rightarrow> 'w clientPreconditionWriter \<Rightarrow> 'w clientPreconditionWriter" where
  "finishTrailers ops p =
     (if suppress p then p
      else p\<lparr>pcw := wSet ops (copyValidationTrailers (wHeader ops (pcw p)) (pcheader p) (pcheader p)) (pcw p)\<rparr>)"

definition FinishStagingHeaders :: "'w writer_ops \<Rightarrow> 'w clientPreconditionWriter \<Rightarrow> 'w clientPreconditionWriter" where
  "FinishStagingHeaders ops p =
     (if pendingStatus p = 0 then finishTrailers ops p
      else
        let h = foldl (\<lambda>h name. case map_of (pcheader p) name of Some values \<Rightarrow> AList.update name values h | None \<Rightarrow> AList.delete name h)
                  (pendingHeader p) [''X-Cache'', ''Age'', ''Proxy-Date''];
            h = foldl Del h [''Trailer'', ''X-Cache-Staging'', ''Content-Length'', ''Transfer-Encoding''];
            h = filter (\<lambda>(name, values). \<not> prefix TrailerPrefix name) h
        in pc_commitHeader ops (pendingStatus p) h (p\<lparr>pendingStatus := 0, pendingHeader := []\<rparr>))"

definition precondition_ops :: "goenv \<Rightarrow> 'w writer_ops \<Rightarrow> ('w + 'w clientPreconditionWriter) writer_ops" where
  "precondition_ops e ops = \<lparr>
     wHeader = case_sum (wHeader ops) pcheader,
     wSet = \<lambda>h. map_sum (wSet ops h) (\<lambda>p. p\<lparr>pcheader := h\<rparr>),
     wWriteHeader = \<lambda>s. map_sum (wWriteHeader ops s) (pc_WriteHeader e ops s),
     wWrite = \<lambda>b. map_sum (wWrite ops b) (pc_Write e ops b),
     wFlush = map_sum (wFlush ops) (\<lambda>p. p)\<rparr>"

subsection \<open>The first status wins\<close>

text \<open>
  What a handler may assume of every writer here: the first status that counts is the status of the
  response, and writing without one sends 200.
\<close>

fun first_status :: "(int \<Rightarrow> bool) \<Rightarrow> bool \<Rightarrow> writer_call list \<Rightarrow> int option" where
  "first_status counts flushes [] = None"
| "first_status counts flushes (WriteHeader s # cs) = (if counts s then Some s else first_status counts flushes cs)"
| "first_status counts flushes (Write b # cs) = Some 200"
| "first_status counts flushes (Flush # cs) = (if flushes then Some 200 else first_status counts flushes cs)"
| "first_status counts flushes (EditHeader f # cs) = first_status counts flushes cs"

locale status_writer =
  fixes ops :: "'w writer_ops" and inv :: "'w \<Rightarrow> bool" and status :: "'w \<Rightarrow> int option" and counts :: "int \<Rightarrow> bool" and flushes :: bool
  assumes keeps_inv: "inv w \<Longrightarrow> inv (writer_call ops w c)"
    and keeps_status: "inv w \<Longrightarrow> status w = Some s \<Longrightarrow> status (writer_call ops w c) = Some s"
    and takes_status: "inv w \<Longrightarrow> status w = None \<Longrightarrow> status (writer_call ops w c) = first_status counts flushes [c]"
begin

lemma run_inv: "inv w \<Longrightarrow> inv (run_calls ops cs w)"
  unfolding run_calls_def by (induction cs arbitrary: w) (auto intro: keeps_inv)

lemma run_keeps: "inv w \<Longrightarrow> status w = Some s \<Longrightarrow> status (run_calls ops cs w) = Some s"
  unfolding run_calls_def by (induction cs arbitrary: w) (auto intro: keeps_inv keeps_status)

lemma run_status:
  "inv w \<Longrightarrow> status (run_calls ops cs w) = (case status w of Some s \<Rightarrow> Some s | None \<Rightarrow> first_status counts flushes cs)"
proof (induction cs arbitrary: w)
  case Nil
  then show ?case by (simp add: run_calls_def split: option.split)
next
  case (Cons c cs)
  have step: "run_calls ops (c # cs) w = run_calls ops cs (writer_call ops w c)" by (simp add: run_calls_def)
  note inv = keeps_inv [OF Cons.prems, of c]
  show ?case
  proof (cases "status w")
    case None
    have "first_status counts flushes (c # cs)
        = (case first_status counts flushes [c] of Some s \<Rightarrow> Some s | None \<Rightarrow> first_status counts flushes cs)"
      by (cases c) simp_all
    with None Cons.IH [OF inv] takes_status [OF Cons.prems None, of c] step show ?thesis by simp
  next
    case (Some s)
    with run_keeps [OF Cons.prems Some, of "c # cs"] show ?thesis by simp
  qed
qed

end

interpretation cw: status_writer client_ops "\<lambda>_. True" "\<lambda>w. map_option fst (sent w)" "\<lambda>s. \<not> informational s" True
proof
  show "map_option fst (sent w) = Some s \<Longrightarrow> map_option fst (sent (writer_call client_ops w c)) = Some s" for w s c
    by (cases c) (auto simp: client_ops_def client_WriteHeader_def client_Write_def Let_def)
  show "map_option fst (sent w) = None \<Longrightarrow> map_option fst (sent (writer_call client_ops w c)) = first_status (\<lambda>s. \<not> informational s) True [c]" for w c
    by (cases c) (auto simp: client_ops_def client_WriteHeader_def client_Write_def informational_def Let_def)
qed simp

interpretation xw: status_writer exchange_ops "\<lambda>x. xsnapshot x = None \<or> 200 \<le> xstatus x"
    "\<lambda>x. map_option (\<lambda>_. xstatus x) (xsnapshot x)" "\<lambda>s. 200 \<le> s" True
proof
  show "xsnapshot w = None \<or> 200 \<le> xstatus w \<Longrightarrow>
      xsnapshot (writer_call exchange_ops w c) = None \<or> 200 \<le> xstatus (writer_call exchange_ops w c)" for w c
    by (cases c) (auto simp: exchange_ops_def ve_WriteHeader_def ve_Write_def ve_Flush_def Let_def)
  show "map_option (\<lambda>_. xstatus w) (xsnapshot w) = Some s \<Longrightarrow>
      map_option (\<lambda>_. xstatus (writer_call exchange_ops w c)) (xsnapshot (writer_call exchange_ops w c)) = Some s" for w s c
    by (cases c) (auto simp: exchange_ops_def ve_WriteHeader_def ve_Write_def ve_Flush_def Let_def)
  show "map_option (\<lambda>_. xstatus w) (xsnapshot w) = None \<Longrightarrow>
      map_option (\<lambda>_. xstatus (writer_call exchange_ops w c)) (xsnapshot (writer_call exchange_ops w c)) = first_status (\<lambda>s. 200 \<le> s) True [c]" for w c
    by (cases c) (auto simp: exchange_ops_def ve_WriteHeader_def ve_Write_def ve_Flush_def Let_def)
qed

lemma commit_fields_kept [simp]:
  "StatusCode (CommitHeaders ops s) = StatusCode s" "headerOnce (CommitHeaders ops s) = headerOnce s" "pipe (CommitHeaders ops s) = pipe s"
  "responseHeader (CommitHeaders ops s) = responseHeader s" "deferHeaders (CommitHeaders ops s) = deferHeaders s" "committed (CommitHeaders ops s)"
  by (auto simp: CommitHeaders_def Let_def)

interpretation sw: status_writer "streamer_ops ops" "\<lambda>_. True" "\<lambda>s. if headerOnce s then Some (StatusCode s) else None" "\<lambda>_. True" False
  for ops :: "'w writer_ops"
proof
  show "(if headerOnce w then Some (StatusCode w) else None) = Some s \<Longrightarrow>
      (if headerOnce (writer_call (streamer_ops ops) w c) then Some (StatusCode (writer_call (streamer_ops ops) w c)) else None) = Some s" for w s c
    by (cases c) (auto simp: streamer_ops_def rs_WriteHeader_def rs_Write_def rs_Set_def Let_def split: if_splits)
  show "(if headerOnce w then Some (StatusCode w) else None) = None \<Longrightarrow>
      (if headerOnce (writer_call (streamer_ops ops) w c) then Some (StatusCode (writer_call (streamer_ops ops) w c)) else None)
        = first_status (\<lambda>_. True) False [c]" for w c
    by (cases c) (auto simp: streamer_ops_def rs_WriteHeader_def rs_Write_def rs_Set_def Let_def split: if_splits)
qed simp


subsection \<open>A streamed response\<close>

text \<open>When an origin returns, \<^verbatim>\<open>net/http\<close> sends the status 200 if it has sent none.\<close>

definition client_finish :: "client \<Rightarrow> client" where
  "client_finish w = (if sent w = None then client_WriteHeader 200 w else w)"

definition final_call :: "writer_call \<Rightarrow> bool" where
  "final_call c = (case c of WriteHeader s \<Rightarrow> \<not> informational s | _ \<Rightarrow> True)"

definition body_written :: "writer_call list \<Rightarrow> string" where
  "body_written calls = concat (map (\<lambda>c. case c of Write b \<Rightarrow> b | _ \<Rightarrow> []) calls)"

text \<open>What a streamer without deferred headers and the connection below it agree on.\<close>

definition in_step :: "client responseStreamer \<Rightarrow> bool" where
  "in_step s \<longleftrightarrow> \<not> deferHeaders s \<and> clientHeader s = None \<and> committed s = headerOnce s
     \<and> (if headerOnce s then responseHeader s \<noteq> None \<and> sent (rw s) = Some (StatusCode s, the (responseHeader s)) else sent (rw s) = None)"

lemma in_step_WriteHeader:
  assumes "in_step s" "\<not> informational st"
  shows "in_step (rs_WriteHeader client_ops st s) \<and> rw (rs_WriteHeader client_ops st s) = client_WriteHeader st (rw s)
    \<and> pipe (rs_WriteHeader client_ops st s) = pipe s \<and> headerOnce (rs_WriteHeader client_ops st s)"
  using assms by (auto simp: in_step_def rs_WriteHeader_def CommitHeaders_def rs_Header_def own_header_def client_ops_def client_WriteHeader_def Let_def)

lemma in_step_call:
  assumes "in_step s" "final_call c" "c \<noteq> Flush"
  shows "in_step (writer_call (streamer_ops client_ops) s c)
    \<and> rw (writer_call (streamer_ops client_ops) s c) = writer_call client_ops (rw s) c
    \<and> pipe (writer_call (streamer_ops client_ops) s c) = pipe s @ body_written [c]"
proof (cases c)
  case (EditHeader g)
  with assms show ?thesis by (auto simp: in_step_def streamer_ops_def rs_Set_def rs_Header_def own_header_def client_ops_def body_written_def)
next
  case (WriteHeader st)
  with assms in_step_WriteHeader [of s st] show ?thesis
    by (simp add: streamer_ops_def final_call_def client_ops_def body_written_def)
next
  case (Write b)
  have w: "in_step (rs_WriteHeader client_ops 200 s)" "rw (rs_WriteHeader client_ops 200 s) = client_WriteHeader 200 (rw s)"
    "pipe (rs_WriteHeader client_ops 200 s) = pipe s" "headerOnce (rs_WriteHeader client_ops 200 s)"
    using in_step_WriteHeader [OF assms(1), of 200] by (simp_all add: informational_def)
  then show ?thesis using Write
    by (auto simp: in_step_def streamer_ops_def rs_Write_def client_ops_def client_Write_def client_WriteHeader_def body_written_def Let_def
        split: if_splits)
next
  case Flush
  with assms show ?thesis by simp
qed

lemma in_step_run:
  "in_step s \<Longrightarrow> list_all final_call cs \<Longrightarrow>
    in_step (run_calls (streamer_ops client_ops) cs s)
    \<and> rw (run_calls (streamer_ops client_ops) cs s) = run_calls client_ops (filter (\<lambda>c. \<not> is_Flush c) cs) (rw s)
    \<and> pipe (run_calls (streamer_ops client_ops) cs s) = pipe s @ body_written cs"
proof (induction cs arbitrary: s)
  case Nil
  then show ?case by (simp add: run_calls_def body_written_def)
next
  case (Cons c cs)
  let ?s = "writer_call (streamer_ops client_ops) s c"
  have step: "in_step ?s \<and> rw ?s = (if c = Flush then rw s else writer_call client_ops (rw s) c) \<and> pipe ?s = pipe s @ body_written [c]"
  proof (cases "c = Flush")
    case True
    with Cons.prems show ?thesis by (simp add: streamer_ops_def body_written_def)
  next
    case False
    with Cons.prems in_step_call [of s c] show ?thesis by simp
  qed
  with Cons show ?case by (simp add: run_calls_def body_written_def)
qed

lemma body_written_append: "body_written (cs @ ds) = body_written cs @ body_written ds"
  by (simp add: body_written_def)

lemma in_step_new: "sent w = None \<Longrightarrow> in_step (newResponseStreamer w)"
  by (simp add: in_step_def newResponseStreamer_def)


definition fresh_client :: client where
  "fresh_client = \<lparr>live = [], sent = None, interim = [], out = []\<rparr>"



text \<open>
  An informational status is taken for the final one. An origin that sends \<^verbatim>\<open>103 Early Hints\<close> and then
  answers 404 makes the client receive 200 with the body of the 404: the streamer takes the first status
  it is given for the status of the response and drops every later one, and the connection, which sent
  103 as an interim response, then supplies 200 when the body is written. Without the streamer the
  client receives 404.
\<close>

lemma early_hints_hide_status:
  assumes "sent w = None" and hint: "informational st" and final: "\<not> informational st'"
    and s: "s = run_calls (streamer_ops client_ops) [WriteHeader st, WriteHeader st', Write b] (newResponseStreamer w)"
  shows "map_option fst (sent (rw s)) = Some 200 \<and> StatusCode s = st
    \<and> map_option fst (sent (run_calls client_ops [WriteHeader st, WriteHeader st', Write b] w)) = Some st'"
proof -
  have "\<not> informational 200" by (simp add: informational_def)
  with assms show ?thesis
    by (simp add: run_calls_def streamer_ops_def client_ops_def newResponseStreamer_def rs_WriteHeader_def CommitHeaders_def rs_Write_def
        client_WriteHeader_def client_Write_def rs_Header_def own_header_def Let_def)
qed

lemma early_hints_hide_status_witness:
  "map_option fst (sent (rw (run_calls (streamer_ops client_ops) [WriteHeader 103, WriteHeader 404, Write ''gone''] (newResponseStreamer fresh_client)))) = Some 200
   \<and> map_option fst (sent (run_calls client_ops [WriteHeader 103, WriteHeader 404, Write ''gone''] fresh_client)) = Some 404"
  using early_hints_hide_status [OF _ _ _ refl, of fresh_client 103 404 "''gone''"] by (simp add: fresh_client_def informational_def)


subsection \<open>Conditions apply to delivery only\<close>

text \<open>What the client of a conditional request should be sent for a response with this status, header and body.\<close>

definition conditional_answer :: "goenv \<Rightarrow> request \<Rightarrow> int \<Rightarrow> header \<Rightarrow> (int \<times> header) option" where
  "conditional_answer e req st h =
     (if 200 \<le> st \<and> st < 300
      then answer_preconditions e (case ParseTime e (Get h ''Last-Modified'') of Some t \<Rightarrow> t | None \<Rightarrow> 0) req h else None)"

definition delivered :: "goenv \<Rightarrow> request \<Rightarrow> int \<Rightarrow> header \<Rightarrow> string \<Rightarrow> client \<Rightarrow> client" where
  "delivered e req st h b w =
     (case conditional_answer e req st h of
        Some (st', h') \<Rightarrow> client_WriteHeader st' (w\<lparr>live := h'\<rparr>)
      | None \<Rightarrow> client_Write b (client_WriteHeader st (w\<lparr>live := h\<rparr>)))"

definition cond_step :: "goenv \<Rightarrow> request \<Rightarrow> client \<Rightarrow> (client + client clientPreconditionWriter) responseStreamer \<Rightarrow> bool" where
  "cond_step e req w s \<longleftrightarrow> \<not> deferHeaders s \<and> clientHeader s = None \<and> committed s = headerOnce s \<and> sent w = None
     \<and> (\<exists>p. rw s = Inr p \<and> pcreq p = req \<and> \<not> deferStaging p
          \<and> (if headerOnce s
             then (\<exists>h. responseHeader s = Some h \<and> \<not> informational (StatusCode s)
                     \<and> suppress p = (conditional_answer e req (StatusCode s) h \<noteq> None)
                     \<and> pcw p = delivered e req (StatusCode s) h (pipe s) w)
             else responseHeader s = None \<and> pcw p = w \<and> \<not> suppress p \<and> pipe s = []))"

lemma client_Write_append:
  "sent w \<noteq> None \<Longrightarrow> client_Write c (client_Write b w) = client_Write (b @ c) w"
  by (auto simp: client_Write_def Let_def)

lemma client_Write_Nil: "sent w \<noteq> None \<Longrightarrow> client_Write [] w = w"
  by (auto simp: client_Write_def Let_def)

lemma sent_WriteHeader: "\<not> informational st \<Longrightarrow> sent (client_WriteHeader st w) \<noteq> None"
  by (simp add: client_WriteHeader_def)

lemma cond_step_WriteHeader:
  assumes "cond_step e req w s" "\<not> informational st"
  shows "cond_step e req w (rs_WriteHeader (precondition_ops e client_ops) st s)
    \<and> pipe (rs_WriteHeader (precondition_ops e client_ops) st s) = pipe s \<and> headerOnce (rs_WriteHeader (precondition_ops e client_ops) st s)"
proof (cases "headerOnce s")
  case True
  with assms show ?thesis by (simp add: rs_WriteHeader_def)
next
  case False
  with assms(1) obtain p where p: "rw s = Inr p" "pcreq p = req" "\<not> deferStaging p" "pcw p = w" "\<not> suppress p" "pipe s = []" "\<not> deferHeaders s"
      "clientHeader s = None" "\<not> committed s" "sent w = None"
    by (auto simp: cond_step_def)
  have "pc_WriteHeader e client_ops st p = p\<lparr>suppress := conditional_answer e req st (pcheader p) \<noteq> None, pcw := delivered e req st (pcheader p) [] w\<rparr>"
    using p sent_WriteHeader [OF assms(2)]
    by (auto simp: pc_WriteHeader_def conditional_answer_def delivered_def pc_commitHeader_def client_ops_def client_Write_Nil Let_def
        split: option.splits)
  with False p assms(2) show ?thesis
    by (simp add: cond_step_def rs_WriteHeader_def CommitHeaders_def rs_Header_def own_header_def precondition_ops_def Let_def)
qed

lemma cond_step_Write:
  assumes "cond_step e req w s" "headerOnce s"
  shows "cond_step e req w (s\<lparr>pipe := pipe s @ b, rw := wWrite (precondition_ops e client_ops) b (rw s)\<rparr>)"
proof -
  from assms obtain p h where p: "rw s = Inr p" "pcreq p = req" "\<not> deferStaging p" "responseHeader s = Some h" "\<not> informational (StatusCode s)"
      "suppress p = (conditional_answer e req (StatusCode s) h \<noteq> None)" "pcw p = delivered e req (StatusCode s) h (pipe s) w"
    and s: "\<not> deferHeaders s" "clientHeader s = None" "committed s" "sent w = None"
    by (auto simp: cond_step_def)
  have "pc_Write e client_ops b p = p\<lparr>pcw := delivered e req (StatusCode s) h (pipe s @ b) w\<rparr>"
    using p sent_WriteHeader [OF p(5)]
    by (cases p) (auto simp: pc_Write_def delivered_def client_ops_def client_Write_append split: option.splits)
  with p s assms(2) show ?thesis by (simp add: cond_step_def precondition_ops_def)
qed

lemma cond_step_call:
  assumes "cond_step e req w s" "final_call c"
  shows "cond_step e req w (writer_call (streamer_ops (precondition_ops e client_ops)) s c)
    \<and> pipe (writer_call (streamer_ops (precondition_ops e client_ops)) s c) = pipe s @ body_written [c]"
proof (cases c)
  case (EditHeader g)
  with assms show ?thesis
    by (auto simp: cond_step_def streamer_ops_def rs_Set_def own_header_def precondition_ops_def body_written_def)
next
  case (WriteHeader st)
  with assms cond_step_WriteHeader [of e req w s st] show ?thesis by (simp add: streamer_ops_def final_call_def body_written_def)
next
  case (Write b)
  have h: "cond_step e req w (rs_WriteHeader (precondition_ops e client_ops) 200 s)
    \<and> pipe (rs_WriteHeader (precondition_ops e client_ops) 200 s) = pipe s \<and> headerOnce (rs_WriteHeader (precondition_ops e client_ops) 200 s)"
    using cond_step_WriteHeader [OF assms(1), of 200] by (simp add: informational_def)
  then show ?thesis
    using cond_step_Write [of e req w "rs_WriteHeader (precondition_ops e client_ops) 200 s" b]
    by (simp add: Write streamer_ops_def rs_Write_def body_written_def Let_def)
next
  case Flush
  with assms show ?thesis by (simp add: streamer_ops_def body_written_def)
qed

lemma cond_step_run:
  "cond_step e req w s \<Longrightarrow> list_all final_call cs \<Longrightarrow>
    cond_step e req w (run_calls (streamer_ops (precondition_ops e client_ops)) cs s)
    \<and> pipe (run_calls (streamer_ops (precondition_ops e client_ops)) cs s) = pipe s @ body_written cs"
proof (induction cs arbitrary: s)
  case Nil
  then show ?case by (simp add: run_calls_def body_written_def)
next
  case (Cons c cs)
  with cond_step_call [of e req w s c] show ?case by (simp add: run_calls_def body_written_def)
qed



definition conditional_get :: request where
  "conditional_get = (example_request [(''If-None-Match'', [[CHR 0x22, CHR ''a'', CHR 0x22]])])"

definition tagged_origin :: "writer_call list" where
  "tagged_origin = [EditHeader (\<lambda>h. Set h ''Etag'' [CHR 0x22, CHR ''a'', CHR 0x22]), WriteHeader 200, Write ''body'']"

lemma conditional_answer_example:
  "conditional_answer seconds_env conditional_get 200 [(''Etag'', [[CHR 0x22, CHR ''a'', CHR 0x22]])]
   = Some (304, [(''Etag'', [[CHR 0x22, CHR ''a'', CHR 0x22]])])"
  by code_simp


definition conditional_delivery :: "(client + client clientPreconditionWriter) responseStreamer" where
  "conditional_delivery = rs_Close (precondition_ops seconds_env client_ops)
     (run_calls (streamer_ops (precondition_ops seconds_env client_ops)) tagged_origin
        (newResponseStreamer (newClientPreconditionWriter client_ops fresh_client conditional_get)))"


end
