(* ===== verification/Staging.thy ===== *)
theory Staging
  imports Prelude "HOL-Library.Sublist"
begin

text \<open>
  Temporary copies of response bodies and the budget they are charged to: \<^verbatim>\<open>src/staging_budget.go\<close>. An
  application implements \<^verbatim>\<open>StagingBudget\<close>, so the budget is a record of its operations, and \<open>budget_laws\<close>
  is what the comments of the interface promise of it. A lease is a number; \<open>bHeld\<close> reads the bytes charged
  to it. What the operating system and the context do is an argument of each operation.
\<close>

datatype StageKind = StageHandlerBody | StageCacheBody | StageCacheHeader

datatype stage_error = ContextDone | BudgetExceeded | NilLease | CreateFailed | RemoveFailed | WriteFailed | ShortWrite

record 'b budget_ops =
  bNewLease :: "StageKind \<Rightarrow> 'b \<Rightarrow> (nat option \<times> bool) \<times> 'b"
  bReserve :: "nat \<Rightarrow> int \<Rightarrow> 'b \<Rightarrow> bool \<times> 'b"
  bRelease :: "nat \<Rightarrow> int \<Rightarrow> 'b \<Rightarrow> 'b"
  bClose :: "nat \<Rightarrow> 'b \<Rightarrow> 'b"
  bHeld :: "'b \<Rightarrow> nat \<Rightarrow> int"

definition budget_laws :: "'b budget_ops \<Rightarrow> bool" where
  "budget_laws ops \<longleftrightarrow>
     (\<forall>kind b l err b'. bNewLease ops kind b = ((l, err), b') \<longrightarrow>
        bHeld ops b' = (case l of None \<Rightarrow> bHeld ops b | Some i \<Rightarrow> (bHeld ops b)(i := 0))
        \<and> (\<forall>i. l = Some i \<longrightarrow> bHeld ops b i = 0))
   \<and> (\<forall>i n b ok b'. bReserve ops i n b = (ok, b') \<longrightarrow>
        bHeld ops b' = (if ok then (bHeld ops b)(i := bHeld ops b i + n) else bHeld ops b))
   \<and> (\<forall>i n b. bHeld ops (bRelease ops i n b) = (bHeld ops b)(i := bHeld ops b i - n))
   \<and> (\<forall>i b. bHeld ops (bClose ops i b) = (bHeld ops b)(i := 0))"

definition closeStageLease :: "'b budget_ops \<Rightarrow> nat option \<Rightarrow> 'b \<Rightarrow> 'b" where
  "closeStageLease ops lease b = (case lease of Some i \<Rightarrow> bClose ops i b | None \<Rightarrow> b)"

definition newStageLease :: "bool \<Rightarrow> 'b budget_ops option \<Rightarrow> StageKind \<Rightarrow> 'b \<Rightarrow> (stage_error + nat option) \<times> 'b" where
  "newStageLease cancelled budget kind b =
     (if cancelled then (Inl ContextDone, b)
      else case budget of None \<Rightarrow> (Inr None, b)
      | Some ops \<Rightarrow>
          (case bNewLease ops kind b of ((lease, err), b') \<Rightarrow>
             if err then (Inl BudgetExceeded, closeStageLease ops lease b')
             else if lease = None then (Inl NilLease, b')
             else (Inr lease, b')))"

subsection \<open>Writing to a stage\<close>

text \<open>
  One call of \<^verbatim>\<open>Write\<close>: whether the context is done, how many bytes the file takes and whether it reports an
  error are given; the file takes no more than it is handed.
\<close>

record write_event =
  chunk :: string
  wcancelled :: bool
  taken :: nat
  werr :: bool

definition reserve_chunk :: "'b budget_ops option \<Rightarrow> nat option \<Rightarrow> string \<Rightarrow> 'b \<Rightarrow> bool \<times> 'b" where
  "reserve_chunk budget lease p b =
     (case (budget, lease) of (Some ops, Some i) \<Rightarrow> bReserve ops i (int (length p)) b | _ \<Rightarrow> (True, b))"

definition release_rest :: "'b budget_ops option \<Rightarrow> nat option \<Rightarrow> string \<Rightarrow> nat \<Rightarrow> 'b \<Rightarrow> 'b" where
  "release_rest budget lease p n b =
     (case (budget, lease) of (Some ops, Some i) \<Rightarrow> if n < length p then bRelease ops i (int (length p - n)) b else b | _ \<Rightarrow> b)"

definition stagingWriter_Write ::
  "'b budget_ops option \<Rightarrow> nat option \<Rightarrow> write_event \<Rightarrow> string \<times> 'b \<Rightarrow> (nat \<times> stage_error option) \<times> string \<times> 'b" where
  "stagingWriter_Write budget lease w st =
     (let (f, b) = st; p = chunk w; n = min (taken w) (length p) in
      if wcancelled w then ((0, Some ContextDone), f, b)
      else case reserve_chunk budget lease p b of
        (False, b') \<Rightarrow> ((0, Some BudgetExceeded), f, b')
      | (True, b') \<Rightarrow> ((n, if werr w then Some WriteFailed else None), f @ take n p, release_rest budget lease p n b'))"

text \<open>\<^verbatim>\<open>io.Copy\<close> into the writer, which ends at the first error or short write.\<close>

fun copy_stage ::
  "'b budget_ops option \<Rightarrow> nat option \<Rightarrow> write_event list \<Rightarrow> string \<times> 'b \<Rightarrow> stage_error option \<times> string \<times> 'b" where
  "copy_stage budget lease [] st = (None, st)"
| "copy_stage budget lease (w # ws) st =
     (case stagingWriter_Write budget lease w st of
        ((n, Some err), st') \<Rightarrow> (Some err, st')
      | ((n, None), st') \<Rightarrow> if n < length (chunk w) then (Some ShortWrite, st') else copy_stage budget lease ws st')"

subsection \<open>The stage of a handler\<close>

datatype removal = Removed | WasMissing | NotRemoved

record os_events =
  windows :: bool
  tempName :: "string option"   \<comment> \<open>what \<^verbatim>\<open>os.CreateTemp\<close> makes, if it succeeds\<close>
  unlink :: removal              \<comment> \<open>the first removal of that name\<close>
  unlinkAgain :: removal         \<comment> \<open>the removal when the stage is closed\<close>
  fileClose :: bool             \<comment> \<open>whether closing the descriptor fails\<close>

record handlerStage =
  contents :: string
  slease :: "nat option"
  spath :: string
  sonce :: bool
  serr :: "stage_error option"

definition stage_Close :: "'b budget_ops option \<Rightarrow> os_events \<Rightarrow> handlerStage \<Rightarrow> 'b \<Rightarrow> stage_error option \<times> handlerStage \<times> 'b" where
  "stage_Close budget os s b =
     (if sonce s then (serr s, s, b)
      else let err = (if fileClose os then Some WriteFailed else None) in
        if spath s \<noteq> [] \<and> unlinkAgain os = NotRemoved
        then (Some RemoveFailed, s\<lparr>sonce := True, serr := Some RemoveFailed\<rparr>, b)
        else (err, s\<lparr>sonce := True, serr := err\<rparr>, case budget of None \<Rightarrow> b | Some ops \<Rightarrow> closeStageLease ops (slease s) b))"

definition newHandlerStage :: "bool \<Rightarrow> 'b budget_ops option \<Rightarrow> os_events \<Rightarrow> 'b \<Rightarrow> (stage_error + handlerStage) \<times> 'b" where
  "newHandlerStage cancelled budget os b =
     (case newStageLease cancelled budget StageHandlerBody b of
        (Inl err, b') \<Rightarrow> (Inl err, b')
      | (Inr lease, b') \<Rightarrow>
          (case tempName os of
             None \<Rightarrow> (Inl CreateFailed, case budget of None \<Rightarrow> b' | Some ops \<Rightarrow> closeStageLease ops lease b')
           | Some path \<Rightarrow>
               let s = \<lparr>contents = [], slease = lease, spath = path, sonce = False, serr = None\<rparr> in
               if windows os then (Inr s, b')
               else if unlink os \<noteq> Removed
                 then (case stage_Close budget os s b' of (_, _, b'') \<Rightarrow> (Inl RemoveFailed, b''))
               else (Inr (s\<lparr>spath := []\<rparr>), b')))"

text \<open>The whole life of a copy: opened, filled and closed.\<close>

definition fill_stage :: "'b budget_ops option \<Rightarrow> write_event list \<Rightarrow> handlerStage \<Rightarrow> 'b \<Rightarrow> stage_error option \<times> handlerStage \<times> 'b" where
  "fill_stage budget ws s b =
     (case copy_stage budget (slease s) ws (contents s, b) of (err, f, b') \<Rightarrow> (err, s\<lparr>contents := f\<rparr>, b'))"


subsection \<open>Accounting\<close>

lemma budget_new:
  "budget_laws ops \<Longrightarrow> bNewLease ops kind b = ((Some i, err), b') \<Longrightarrow> bHeld ops b' = bHeld ops b \<and> bHeld ops b i = 0"
  unfolding budget_laws_def by (metis fun_upd_idem option.simps(5))

lemma budget_new_none: "budget_laws ops \<Longrightarrow> bNewLease ops kind b = ((None, err), b') \<Longrightarrow> bHeld ops b' = bHeld ops b"
  unfolding budget_laws_def by (metis option.simps(4))

lemma budget_reserve:
  "budget_laws ops \<Longrightarrow> bReserve ops i n b = (ok, b') \<Longrightarrow>
    bHeld ops b' = (if ok then (bHeld ops b)(i := bHeld ops b i + n) else bHeld ops b)"
  unfolding budget_laws_def by blast

lemma budget_release: "budget_laws ops \<Longrightarrow> bHeld ops (bRelease ops i n b) = (bHeld ops b)(i := bHeld ops b i - n)"
  unfolding budget_laws_def by blast

lemma budget_close: "budget_laws ops \<Longrightarrow> bHeld ops (bClose ops i b) = (bHeld ops b)(i := 0)"
  unfolding budget_laws_def by blast

lemma lease_opened:
  assumes "budget_laws ops"
  shows "case newStageLease cancelled (Some ops) kind b of
      (Inl err, b') \<Rightarrow> bHeld ops b' = bHeld ops b
    | (Inr lease, b') \<Rightarrow> (\<exists>i. lease = Some i \<and> bHeld ops b i = 0 \<and> bHeld ops b' = bHeld ops b)"
proof -
  obtain l err b' where n: "bNewLease ops kind b = ((l, err), b')" by (metis surj_pair)
  show ?thesis
  proof (cases l)
    case None
    with n budget_new_none [OF assms] show ?thesis by (auto simp: newStageLease_def closeStageLease_def)
  next
    case (Some i)
    with n budget_new [OF assms] budget_close [OF assms] show ?thesis
      by (auto simp: newStageLease_def closeStageLease_def)
  qed
qed

lemma write_charges:
  assumes laws: "budget_laws ops" and w: "stagingWriter_Write (Some ops) (Some i) w (f, b) = ((n, err), f', b')"
    and charged: "bHeld ops b i = int (length f)"
  shows "f' = f @ take n (chunk w) \<and> bHeld ops b' = (bHeld ops b)(i := int (length f')) \<and> n \<le> length (chunk w)"
proof (cases "wcancelled w")
  case True
  with w charged show ?thesis by (auto simp: stagingWriter_Write_def Let_def)
next
  case False
  obtain ok b1 where r: "bReserve ops i (int (length (chunk w))) b = (ok, b1)" by (metis surj_pair)
  note held = budget_reserve [OF laws r]
  show ?thesis
  proof (cases ok)
    case True
    with False r w have n: "n = min (taken w) (length (chunk w))" "f' = f @ take n (chunk w)"
        "b' = release_rest (Some ops) (Some i) (chunk w) n b1"
      by (auto simp: stagingWriter_Write_def reserve_chunk_def Let_def)
    then show ?thesis using held True charged budget_release [OF laws, of i "int (length (chunk w) - n)" b1]
      by (auto simp: release_rest_def)
  next
    case refused: False
    with False r w held charged show ?thesis by (auto simp: stagingWriter_Write_def reserve_chunk_def Let_def)
  qed
qed

lemma copy_charges:
  assumes laws: "budget_laws ops"
  shows "copy_stage (Some ops) (Some i) ws (f, b) = (err, f', b') \<Longrightarrow> bHeld ops b i = int (length f) \<Longrightarrow>
    (\<exists>k. f' = f @ take k (concat (map chunk ws))) \<and> bHeld ops b' = (bHeld ops b)(i := int (length f'))
    \<and> (err = None \<longrightarrow> f' = f @ concat (map chunk ws))"
proof (induction ws arbitrary: f b)
  case Nil
  then show ?case by auto
next
  case (Cons w ws)
  obtain n e f1 b1 where w: "stagingWriter_Write (Some ops) (Some i) w (f, b) = ((n, e), f1, b1)" by (metis surj_pair)
  note c = write_charges [OF laws w Cons.prems(2)]
  show ?case
  proof (cases "e = None \<and> n = length (chunk w)")
    case True
    then have "copy_stage (Some ops) (Some i) ws (f1, b1) = (err, f', b')" using Cons.prems(1) w by simp
    moreover have f1: "f1 = f @ chunk w" "bHeld ops b1 i = int (length f1)" using c True by auto
    ultimately have ih: "\<exists>k. f' = f1 @ take k (concat (map chunk ws))" "bHeld ops b' = (bHeld ops b1)(i := int (length f'))"
        "err = None \<longrightarrow> f' = f1 @ concat (map chunk ws)"
      using Cons.IH by blast+
    then obtain k where "f' = f1 @ take k (concat (map chunk ws))" by blast
    then have "f' = f @ take (length (chunk w) + k) (concat (map chunk (w # ws)))" using f1 by simp
    moreover have "bHeld ops b' = (bHeld ops b)(i := int (length f'))" using ih(2) c by simp
    moreover have "err = None \<longrightarrow> f' = f @ concat (map chunk (w # ws))" using ih(3) f1 by simp
    ultimately show ?thesis by blast
  next
    case False
    then have "err \<noteq> None" "f' = f1" "b' = b1" using Cons.prems(1) w c by (auto split: option.splits if_splits)
    with c show ?thesis by (auto intro!: exI [of _ n])
  qed
qed

lemma stage_opened:
  assumes laws: "budget_laws ops"
  shows "case newHandlerStage cancelled (Some ops) os b of
      (Inl err, b') \<Rightarrow> bHeld ops b' = bHeld ops b
    | (Inr s, b') \<Rightarrow> contents s = [] \<and> \<not> sonce s \<and> (spath s = [] \<longleftrightarrow> \<not> windows os \<or> tempName os = Some [])
        \<and> (\<exists>i. slease s = Some i \<and> bHeld ops b i = 0 \<and> bHeld ops b' = bHeld ops b)"
proof -
  obtain r b1 where n: "newStageLease cancelled (Some ops) StageHandlerBody b = (r, b1)" by (metis surj_pair)
  show ?thesis
  proof (cases r)
    case (Inl err)
    with n lease_opened [OF laws, where cancelled = cancelled and kind = StageHandlerBody and b = b] show ?thesis by (simp add: newHandlerStage_def)
  next
    case (Inr lease)
    with n lease_opened [OF laws, where cancelled = cancelled and kind = StageHandlerBody and b = b] obtain i where
      i: "lease = Some i" "bHeld ops b i = 0" "bHeld ops b1 = bHeld ops b" by auto
    have closed: "(bHeld ops b)(i := 0) = bHeld ops b" using i(2) by auto
    show ?thesis using n Inr i budget_close [OF laws, of i b1] closed
      by (auto simp: newHandlerStage_def stage_Close_def closeStageLease_def Let_def split: option.split)
  qed
qed

text \<open>
  C27: A temporary copy is charged for exactly the bytes it holds. Opening a stage that fails charges nothing.
  Otherwise, however the context, the budget and the file end the copy, the lease then holds as many bytes as
  the file, which has a prefix of the response and all of it when the copy reports no error; closing returns
  every byte unless the file could not be removed, whose bytes stay charged; closing again changes nothing; and
  no other lease is touched.
\<close>

theorem stage_charge_is_exact:
  assumes laws: "budget_laws ops"
  shows "case newHandlerStage cancelled (Some ops) os b of
      (Inl err, b1) \<Rightarrow> bHeld ops b1 = bHeld ops b
    | (Inr s, b1) \<Rightarrow>
        (case fill_stage (Some ops) ws s b1 of (err, s1, b2) \<Rightarrow>
           case stage_Close (Some ops) os' s1 b2 of (err', s2, b3) \<Rightarrow>
             \<exists>i. slease s = Some i
               \<and> bHeld ops b2 = (bHeld ops b)(i := int (length (contents s1)))
               \<and> prefix (contents s1) (concat (map chunk ws)) \<and> (err = None \<longrightarrow> contents s1 = concat (map chunk ws))
               \<and> bHeld ops b3 = (if err' = Some RemoveFailed then bHeld ops b2 else bHeld ops b)
               \<and> stage_Close (Some ops) os'' s2 b3 = (err', s2, b3))"
proof (cases "newHandlerStage cancelled (Some ops) os b")
  case (Pair r b1)
  note opened = stage_opened [OF laws, where cancelled = cancelled and os = os and b = b, unfolded Pair]
  show ?thesis
  proof (cases r)
    case (Inl err)
    with Pair opened show ?thesis by simp
  next
    case (Inr s)
    with opened obtain i where i: "slease s = Some i" "bHeld ops b i = 0" "bHeld ops b1 = bHeld ops b" "contents s = []" "\<not> sonce s" by auto
    obtain err f b2 where c: "copy_stage (Some ops) (Some i) ws ([], b1) = (err, f, b2)" by (metis surj_pair)
    note charge = copy_charges [OF laws c]
    have fill: "fill_stage (Some ops) ws s b1 = (err, s\<lparr>contents := f\<rparr>, b2)" using c i by (simp add: fill_stage_def)
    have zero: "(bHeld ops b)(i := 0) = bHeld ops b" using i(2) by auto
    have pre: "prefix f (concat (map chunk ws))" using charge i take_is_prefix by force
    show ?thesis using Pair Inr fill charge i zero pre budget_close [OF laws, of i b2]
      by (auto simp: stage_Close_def closeStageLease_def Let_def)
  qed
qed


text \<open>A budget with a limit for all its leases.\<close>

record counted =
  nextLease :: nat
  free :: int
  charges :: "nat \<Rightarrow> int"

definition counted_ops :: "counted budget_ops" where
  "counted_ops = \<lparr>
     bNewLease = \<lambda>kind b. if charges b (nextLease b) = 0 then ((Some (nextLease b), False), b\<lparr>nextLease := nextLease b + 1\<rparr>) else ((None, True), b),
     bReserve = \<lambda>i n b. if n \<le> free b then (True, b\<lparr>free := free b - n, charges := (charges b)(i := charges b i + n)\<rparr>) else (False, b),
     bRelease = \<lambda>i n b. b\<lparr>free := free b + n, charges := (charges b)(i := charges b i - n)\<rparr>,
     bClose = \<lambda>i b. b\<lparr>free := free b + charges b i, charges := (charges b)(i := 0)\<rparr>,
     bHeld = charges\<rparr>"

lemma counted_laws: "budget_laws counted_ops"
  unfolding budget_laws_def counted_ops_def by (auto split: if_splits)

definition empty_budget :: "int \<Rightarrow> counted" where
  "empty_budget n = \<lparr>nextLease = 0, free = n, charges = \<lambda>_. 0\<rparr>"

definition unix_events :: os_events where
  "unix_events = \<lparr>windows = False, tempName = Some ''/tmp/httpcache-1.tmp'', unlink = Removed, unlinkAgain = Removed, fileClose = False\<rparr>"

theorem stage_charge_is_exact_witness:
  "\<exists>s b1 s1 b2. newHandlerStage False (Some counted_ops) unix_events (empty_budget 5) = (Inr s, b1)
     \<and> fill_stage (Some counted_ops) [\<lparr>chunk = ''abc'', wcancelled = False, taken = 3, werr = False\<rparr>, \<lparr>chunk = ''defg'', wcancelled = False, taken = 4, werr = False\<rparr>] s b1
         = (Some BudgetExceeded, s1, b2)
     \<and> contents s1 = ''abc'' \<and> charges b2 = (\<lambda>_. 0)(0 := 3)"
proof -
  let ?ws = "[\<lparr>chunk = ''abc'', wcancelled = False, taken = 3, werr = False\<rparr>, \<lparr>chunk = ''defg'', wcancelled = False, taken = 4, werr = False\<rparr>]"
  note exact = stage_charge_is_exact [OF counted_laws, where cancelled = False and os = unix_events and b = "empty_budget 5" and ws = ?ws
      and os' = unix_events and os'' = unix_events]
  have "bHeld counted_ops b = charges b" for b by (simp add: counted_ops_def)
  note held = this
  show ?thesis using exact unfolding held
    by (simp add: newHandlerStage_def newStageLease_def fill_stage_def stagingWriter_Write_def reserve_chunk_def release_rest_def stage_Close_def
        closeStageLease_def counted_ops_def unix_events_def empty_budget_def Let_def)
qed

end
