(* ===== verification/Miss.thy ===== *)
theory Miss
  imports Prelude
begin

text \<open>
  Concurrent misses and background writes: \<^verbatim>\<open>claimMiss\<close>, \<^verbatim>\<open>finishMiss\<close>, \<^verbatim>\<open>resolveMiss\<close>, \<^verbatim>\<open>beginWrite\<close>, \<^verbatim>\<open>endWrite\<close> and
  \<^verbatim>\<open>Shutdown\<close> of \<^verbatim>\<open>src/handler.go\<close>. Requests are the threads of a step relation; a call that holds a mutex is
  one step. What the origin, the store, the clients and an application's coordinator answer is left open; that
  they answer is what the final theorem assumes, by letting every step happen.
\<close>

record lifecycle =
  flights :: "string \<rightharpoonup> nat"
  nextFlight :: nat
  doneFlights :: "nat set"   \<comment> \<open>the flights whose channel is closed\<close>
  closing :: bool
  writes :: int

definition claimMiss :: "string \<Rightarrow> lifecycle \<Rightarrow> nat \<times> bool \<times> lifecycle" where
  "claimMiss key h =
     (case flights h key of Some flight \<Rightarrow> (flight, False, h)
      | None \<Rightarrow> (nextFlight h, True, h\<lparr>flights := (flights h)(key \<mapsto> nextFlight h), nextFlight := nextFlight h + 1\<rparr>))"

definition finishMiss :: "string \<Rightarrow> nat \<Rightarrow> lifecycle \<Rightarrow> lifecycle" where
  "finishMiss key flight h =
     (if flights h key = Some flight
      then h\<lparr>flights := (flights h)(key := None), doneFlights := insert flight (doneFlights h)\<rparr> else h)"

definition beginWrite :: "lifecycle \<Rightarrow> bool \<times> lifecycle" where
  "beginWrite h = (if closing h then (False, h) else (True, h\<lparr>writes := writes h + 1\<rparr>))"

definition endWrite :: "lifecycle \<Rightarrow> lifecycle" where
  "endWrite h = h\<lparr>writes := writes h - 1\<rparr>"

definition shutdown_begin :: "lifecycle \<Rightarrow> lifecycle" where
  "shutdown_begin h = h\<lparr>closing := True\<rparr>"

text \<open>\<^verbatim>\<open>Shutdown\<close> returns without an error once \<^verbatim>\<open>h.writes.Wait()\<close> has seen the count at zero.\<close>

definition shutdown_returns :: "lifecycle \<Rightarrow> bool" where
  "shutdown_returns h \<longleftrightarrow> closing h \<and> writes h = 0"

subsection \<open>Threads\<close>

datatype miss_pc =
    Looking              \<comment> \<open>at the head of the loop of \<^verbatim>\<open>resolveMiss\<close>\<close>
  | Waiting nat          \<comment> \<open>for the leader of a flight\<close>
  | Leading nat          \<comment> \<open>fetching with the duty to finish the flight\<close>
  | Storing nat          \<comment> \<open>in the background write that finishes the flight\<close>
  | Solo                 \<comment> \<open>fetching without a flight\<close>
  | Ending               \<comment> \<open>in a background write with no flight to finish\<close>
  | Served

type_synonym threads = "(string \<times> miss_pc) list"

text \<open>The first argument says whether the application has a coordinator of its own.\<close>

inductive miss_step :: "bool \<Rightarrow> lifecycle \<times> threads \<Rightarrow> lifecycle \<times> threads \<Rightarrow> bool" for coord where
  lead: "miss_step coord (h, ts) (h', ts[i := (key, Leading f)])"
    if "i < length ts" "ts ! i = (key, Looking)" "claimMiss key h = (f, True, h')"
| follow: "miss_step coord (h, ts) (h', ts[i := (key, Waiting f)])"
    if "i < length ts" "ts ! i = (key, Looking)" "claimMiss key h = (f, False, h')"
| woken_hit: "miss_step coord (h, ts) (h, ts[i := (key, Served)])"
    if "i < length ts" "ts ! i = (key, Waiting f)" "f \<in> doneFlights h"
| woken_miss: "miss_step coord (h, ts) (h, ts[i := (key, if coord then Looking else Solo)])"
    if "i < length ts" "ts ! i = (key, Waiting f)" "f \<in> doneFlights h"
| lead_ends: "miss_step coord (h, ts) (finishMiss key f h, ts[i := (key, Served)])"
    if "i < length ts" "ts ! i = (key, Leading f)"
| lead_stores: "miss_step coord (h, ts) (if ok then h' else finishMiss key f h', ts[i := (key, if ok then Storing f else Served)])"
    if "i < length ts" "ts ! i = (key, Leading f)" "beginWrite h = (ok, h')"
| store_completes: "miss_step coord (h, ts) (finishMiss key f h, ts[i := (key, Ending)])"
    if "i < length ts" "ts ! i = (key, Storing f)"
| write_ends: "miss_step coord (h, ts) (endWrite h, ts[i := (key, Served)])"
    if "i < length ts" "ts ! i = (key, Ending)"
| solo_ends: "miss_step coord (h, ts) (h, ts[i := (key, Served)])"
    if "i < length ts" "ts ! i = (key, Solo)"
| solo_stores: "miss_step coord (h, ts) (h', ts[i := (key, if ok then Ending else Served)])"
    if "i < length ts" "ts ! i = (key, Solo)" "beginWrite h = (ok, h')"

text \<open>The outside world: requests arrive, clients go away, and the application shuts the handler down.\<close>

inductive miss_env :: "lifecycle \<times> threads \<Rightarrow> lifecycle \<times> threads \<Rightarrow> bool" where
  arrive: "miss_env (h, ts) (h, ts @ [(key, Looking)])"
| refetch: "miss_env (h, ts) (h, ts @ [(key, Solo)])"
| cancel: "miss_env (h, ts) (h, ts[i := (key, Served)])"
    if "i < length ts" "ts ! i = (key, Looking) \<or> ts ! i = (key, Waiting f)"
| shutdown: "miss_env (h, ts) (shutdown_begin h, ts)"

definition miss_any :: "bool \<Rightarrow> lifecycle \<times> threads \<Rightarrow> lifecycle \<times> threads \<Rightarrow> bool" where
  "miss_any coord s s' \<longleftrightarrow> miss_step coord s s' \<or> miss_env s s'"

definition new_lifecycle :: lifecycle where
  "new_lifecycle = \<lparr>flights = Map.empty, nextFlight = 0, doneFlights = {}, closing = False, writes = 0\<rparr>"

definition miss_reachable :: "bool \<Rightarrow> lifecycle \<times> threads \<Rightarrow> bool" where
  "miss_reachable coord s \<longleftrightarrow> (miss_any coord)\<^sup>*\<^sup>* (new_lifecycle, []) s"

subsection \<open>The invariant\<close>

fun duty :: "miss_pc \<Rightarrow> nat option" where
  "duty (Leading f) = Some f"
| "duty (Storing f) = Some f"
| "duty _ = None"

fun writing :: "miss_pc \<Rightarrow> bool" where
  "writing (Storing f) = True"
| "writing Ending = True"
| "writing _ = False"

definition writers_of :: "threads \<Rightarrow> int" where
  "writers_of ts = sum_list (map (\<lambda>t. of_bool (writing (snd t))) ts)"

text \<open>
  The flights in the map are exactly the duties of the threads, each in one hand; a thread waits for a flight
  that is open under its key, or closed; and the count of the wait group is the number of background writes.
\<close>

definition duties_ok :: "lifecycle \<Rightarrow> threads \<Rightarrow> bool" where
  "duties_ok h ts \<longleftrightarrow> (\<forall>i < length ts. \<forall>f. duty (snd (ts ! i)) = Some f \<longrightarrow> flights h (fst (ts ! i)) = Some f)"

definition flights_ok :: "lifecycle \<Rightarrow> threads \<Rightarrow> bool" where
  "flights_ok h ts \<longleftrightarrow> (\<forall>key f. flights h key = Some f \<longrightarrow> f \<notin> doneFlights h \<and> f < nextFlight h
     \<and> (\<exists>i < length ts. fst (ts ! i) = key \<and> duty (snd (ts ! i)) = Some f)) \<and> (\<forall>f \<in> doneFlights h. f < nextFlight h)"

definition one_hand :: "threads \<Rightarrow> bool" where
  "one_hand ts \<longleftrightarrow> (\<forall>i < length ts. \<forall>j < length ts. duty (snd (ts ! i)) \<noteq> None \<longrightarrow> duty (snd (ts ! j)) = duty (snd (ts ! i)) \<longrightarrow> i = j)"

definition waiters_ok :: "lifecycle \<Rightarrow> threads \<Rightarrow> bool" where
  "waiters_ok h ts \<longleftrightarrow> (\<forall>i < length ts. \<forall>f. snd (ts ! i) = Waiting f \<longrightarrow> f \<in> doneFlights h \<or> flights h (fst (ts ! i)) = Some f)"

definition miss_ok :: "lifecycle \<times> threads \<Rightarrow> bool" where
  "miss_ok = (\<lambda>(h, ts). duties_ok h ts \<and> flights_ok h ts \<and> one_hand ts \<and> waiters_ok h ts \<and> writes h = writers_of ts)"

lemma writers_update:
  "i < length ts \<Longrightarrow> writers_of (ts[i := t]) = writers_of ts - of_bool (writing (snd (ts ! i))) + of_bool (writing (snd t))"
  using sum_update [of i ts "\<lambda>t. of_bool (writing (snd t)) :: int" t] by (simp add: writers_of_def)

lemma flight_owner:
  assumes "flights_ok h ts" "flights h key = Some f"
  obtains j where "j < length ts" "fst (ts ! j) = key" "duty (snd (ts ! j)) = Some f"
  using assms unfolding flights_ok_def by blast

lemma same_hand: "one_hand ts \<Longrightarrow> i < length ts \<Longrightarrow> j < length ts \<Longrightarrow> duty (snd (ts ! i)) = Some f \<Longrightarrow> duty (snd (ts ! j)) = Some f \<Longrightarrow> i = j"
  unfolding one_hand_def by (metis option.distinct(1))

text \<open>The three ways in which a step changes flights and duties.\<close>

lemma same_duty:
  assumes ok: "miss_ok (h, ts)" and i: "i < length ts" "fst (ts ! i) = key" "duty pc = duty (snd (ts ! i))"
    and h: "flights h' = flights h" "doneFlights h' = doneFlights h" "nextFlight h' = nextFlight h"
    and w: "\<And>f. pc = Waiting f \<Longrightarrow> flights h key = Some f"
    and n: "writes h' = writes h - of_bool (writing (snd (ts ! i))) + of_bool (writing pc)"
  shows "miss_ok (h', ts[i := (key, pc)])"
proof -
  have d: "duty (snd (ts[i := (key, pc)] ! j)) = duty (snd (ts ! j))" "fst (ts[i := (key, pc)] ! j) = fst (ts ! j)" if "j < length ts" for j
    using that i by (auto simp: nth_list_update)
  have "duties_ok h' (ts[i := (key, pc)])" using ok d h by (simp add: miss_ok_def duties_ok_def)
  moreover have "flights_ok h' (ts[i := (key, pc)])" using ok d h by (simp add: miss_ok_def flights_ok_def) (metis d)
  moreover have "one_hand (ts[i := (key, pc)])" using ok d by (simp add: miss_ok_def one_hand_def)
  moreover have "waiters_ok h' (ts[i := (key, pc)])" using ok i w h by (auto simp: miss_ok_def waiters_ok_def nth_list_update)
  moreover have "writes h' = writers_of (ts[i := (key, pc)])" using ok n i writers_update [OF i(1), of "(key, pc)"] by (simp add: miss_ok_def)
  ultimately show ?thesis by (simp add: miss_ok_def)
qed

lemma duty_taken:
  assumes ok: "miss_ok (h, ts)" and i: "i < length ts" "ts ! i = (key, Looking)" and c: "claimMiss key h = (f, True, h')"
  shows "miss_ok (h', ts[i := (key, Leading f)])"
proof -
  have f: "flights h key = None" "f = nextFlight h" "flights h' = (flights h)(key \<mapsto> f)" "nextFlight h' = nextFlight h + 1"
      "doneFlights h' = doneFlights h" "writes h' = writes h"
    using c by (auto simp: claimMiss_def split: option.splits)
  have new: "duty (snd (ts ! j)) \<noteq> Some f" if "j < length ts" for j
    using ok that f(2) by (auto simp: miss_ok_def duties_ok_def flights_ok_def)
  have key: "fst (ts ! j) \<noteq> key" if "j < length ts" "duty (snd (ts ! j)) \<noteq> None" for j
    using ok that f(1) by (auto simp: miss_ok_def duties_ok_def)
  have "duties_ok h' (ts[i := (key, Leading f)])" using ok key i f by (auto simp: miss_ok_def duties_ok_def nth_list_update)
  moreover have "flights_ok h' (ts[i := (key, Leading f)])"
    unfolding flights_ok_def
  proof (intro conjI allI impI)
    fix k g assume g: "flights h' k = Some g"
    show "g \<notin> doneFlights h'" "g < nextFlight h'"
      using g f ok by (auto simp: miss_ok_def flights_ok_def less_Suc_eq split: if_splits)
    show "\<exists>j < length (ts[i := (key, Leading f)]). fst (ts[i := (key, Leading f)] ! j) = k \<and> duty (snd (ts[i := (key, Leading f)] ! j)) = Some g"
    proof (cases "k = key")
      case True
      then show ?thesis using g f i by (auto intro!: exI [of _ i])
    next
      case False
      with g f ok obtain j where "j < length ts" "fst (ts ! j) = k" "duty (snd (ts ! j)) = Some g"
        by (auto simp: miss_ok_def elim: flight_owner)
      with i False show ?thesis by (auto intro!: exI [of _ j] simp: nth_list_update)
    qed
  next
    show "\<forall>g \<in> doneFlights h'. g < nextFlight h'" using ok f by (auto simp: miss_ok_def flights_ok_def)
  qed
  moreover have "one_hand (ts[i := (key, Leading f)])" using ok new i(1) by (auto simp: miss_ok_def one_hand_def nth_list_update split: if_splits)
  moreover have "waiters_ok h' (ts[i := (key, Leading f)])" using ok f i(1) by (auto simp: miss_ok_def waiters_ok_def nth_list_update split: if_splits)
  moreover have "writes h' = writers_of (ts[i := (key, Leading f)])" using ok f i writers_update [OF i(1), of "(key, Leading f)"] by (simp add: miss_ok_def)
  ultimately show ?thesis by (simp add: miss_ok_def)
qed

lemma duty_done:
  assumes ok: "miss_ok (h, ts)" and i: "i < length ts" "fst (ts ! i) = key" "duty (snd (ts ! i)) = Some f" and pc: "duty pc = None" "\<And>g. pc \<noteq> Waiting g"
    and n: "writing pc = writing (snd (ts ! i))"
  shows "miss_ok (finishMiss key f h, ts[i := (key, pc)])"
proof -
  let ?h = "finishMiss key f h" and ?ts = "ts[i := (key, pc)]"
  have f: "flights h key = Some f" using ok i by (auto simp: miss_ok_def duties_ok_def)
  then have h: "flights ?h = (flights h)(key := None)" "doneFlights ?h = insert f (doneFlights h)" "nextFlight ?h = nextFlight h" "writes ?h = writes h"
    by (simp_all add: finishMiss_def)
  have other: "flights h k \<noteq> Some f" if "k \<noteq> key" for k
  proof
    assume "flights h k = Some f"
    then obtain j where j: "j < length ts" "fst (ts ! j) = k" "duty (snd (ts ! j)) = Some f"
      using ok by (auto simp: miss_ok_def elim: flight_owner)
    with same_hand [of ts i j f] ok i that show False by (simp add: miss_ok_def)
  qed
  have key: "fst (ts ! j) \<noteq> key" if "j < length ts" "j \<noteq> i" "duty (snd (ts ! j)) \<noteq> None" for j
  proof
    assume "fst (ts ! j) = key"
    with that ok f have "duty (snd (ts ! j)) = Some f" by (auto simp: miss_ok_def duties_ok_def)
    with same_hand [of ts i j f] ok i that show False by (simp add: miss_ok_def)
  qed
  have "duties_ok ?h ?ts"
    unfolding duties_ok_def
  proof (intro allI impI)
    fix j g assume j: "j < length ?ts" "duty (snd (?ts ! j)) = Some g"
    with pc i(1) have "j \<noteq> i" "duty (snd (ts ! j)) = Some g" "fst (?ts ! j) = fst (ts ! j)" by (auto simp: nth_list_update split: if_splits)
    with key [of j] j ok h show "flights ?h (fst (?ts ! j)) = Some g" by (simp add: miss_ok_def duties_ok_def)
  qed
  moreover have "flights_ok ?h ?ts"
    unfolding flights_ok_def
  proof (intro conjI allI impI)
    fix k g assume g: "flights ?h k = Some g"
    then have k: "k \<noteq> key" "flights h k = Some g" using h by (auto split: if_splits)
    with other have "g \<noteq> f" by auto
    show "g \<notin> doneFlights ?h" "g < nextFlight ?h" using k h ok \<open>g \<noteq> f\<close> by (auto simp: miss_ok_def flights_ok_def)
    from k ok obtain j where "j < length ts" "fst (ts ! j) = k" "duty (snd (ts ! j)) = Some g"
      by (auto simp: miss_ok_def elim: flight_owner)
    with k i show "\<exists>j < length ?ts. fst (?ts ! j) = k \<and> duty (snd (?ts ! j)) = Some g" by (auto intro!: exI [of _ j] simp: nth_list_update)
  next
    show "\<forall>g \<in> doneFlights ?h. g < nextFlight ?h" using ok f h by (auto simp: miss_ok_def flights_ok_def)
  qed
  moreover have "one_hand ?ts" using ok pc i(1) by (auto simp: miss_ok_def one_hand_def nth_list_update split: if_splits)
  moreover have "waiters_ok ?h ?ts" using ok f h pc i(1) by (auto simp: miss_ok_def waiters_ok_def nth_list_update split: if_splits)
  moreover have "writes ?h = writers_of ?ts" using ok h n i writers_update [OF i(1), of "(key, pc)"] by (simp add: miss_ok_def)
  ultimately show ?thesis by (simp add: miss_ok_def)
qed


lemma miss_ok_step:
  assumes "miss_step coord s s'" "miss_ok s"
  shows "miss_ok s'"
  using assms
proof (cases rule: miss_step.cases)
  case (lead i ts key h f h')
  with assms(2) show ?thesis by (auto intro: duty_taken)
next
  case (follow i ts key h f h')
  then have "h' = h" "flights h key = Some f" by (auto simp: claimMiss_def split: option.splits)
  with follow assms(2) show ?thesis by (auto intro!: same_duty)
next
  case (woken_hit i ts key f h)
  with assms(2) show ?thesis by (auto intro!: same_duty)
next
  case (woken_miss i ts key f h)
  with assms(2) show ?thesis by (auto intro!: same_duty)
next
  case (lead_ends i ts key f h)
  with assms(2) show ?thesis by (auto intro!: duty_done)
next
  case (lead_stores i ts key f h ok h')
  show ?thesis
  proof (cases ok)
    case True
    with lead_stores assms(2) show ?thesis by (auto intro!: same_duty simp: beginWrite_def split: if_splits)
  next
    case False
    then have "h' = h" using lead_stores by (simp add: beginWrite_def split: if_splits)
    with False lead_stores assms(2) show ?thesis by (auto intro!: duty_done)
  qed
next
  case (store_completes i ts key f h)
  with assms(2) show ?thesis by (auto intro!: duty_done)
next
  case (write_ends i ts key h)
  with assms(2) show ?thesis by (auto intro!: same_duty simp: endWrite_def)
next
  case (solo_ends i ts key h)
  with assms(2) show ?thesis by (auto intro!: same_duty)
next
  case (solo_stores i ts key h ok h')
  with assms(2) show ?thesis by (auto intro!: same_duty simp: beginWrite_def split: if_splits)
qed

lemma miss_ok_append:
  assumes "miss_ok (h, ts)" "duty pc = None" "\<And>f. pc \<noteq> Waiting f" "\<not> writing pc"
  shows "miss_ok (h, ts @ [(key, pc)])"
proof -
  have "duties_ok h (ts @ [(key, pc)])" "waiters_ok h (ts @ [(key, pc)])" "one_hand (ts @ [(key, pc)])"
    using assms by (auto simp: miss_ok_def duties_ok_def waiters_ok_def one_hand_def nth_append less_Suc_eq)
  moreover have "flights_ok h (ts @ [(key, pc)])"
    using assms(1) unfolding miss_ok_def flights_ok_def by (fastforce simp: nth_append less_Suc_eq)
  moreover have "writes h = writers_of (ts @ [(key, pc)])" using assms by (simp add: miss_ok_def writers_of_def)
  ultimately show ?thesis by (simp add: miss_ok_def)
qed

lemma miss_ok_env:
  assumes "miss_env s s'" "miss_ok s"
  shows "miss_ok s'"
  using assms(1)
proof cases
  case (arrive h ts key)
  with assms(2) show ?thesis by (simp add: miss_ok_append)
next
  case (refetch h ts key)
  with assms(2) show ?thesis by (simp add: miss_ok_append)
next
  case (cancel i ts key f h)
  with assms(2) show ?thesis by (auto intro!: same_duty)
next
  case (shutdown h ts)
  with assms(2) show ?thesis by (simp add: miss_ok_def duties_ok_def flights_ok_def waiters_ok_def shutdown_begin_def)
qed

lemma miss_ok_start: "miss_ok (new_lifecycle, [])"
  by (simp add: miss_ok_def duties_ok_def flights_ok_def one_hand_def waiters_ok_def new_lifecycle_def writers_of_def)

lemma miss_ok_any: "miss_any coord s s' \<Longrightarrow> miss_ok s \<Longrightarrow> miss_ok s'"
  unfolding miss_any_def by (auto intro: miss_ok_step miss_ok_env)

lemma miss_ok_reachable: "miss_reachable coord s \<Longrightarrow> miss_ok s"
  unfolding miss_reachable_def
  by (induction rule: rtranclp_induct) (auto intro: miss_ok_start miss_ok_any)


text \<open>
  C12: For every key at most one request at a time fetches for the others, from its claim to the end of its
  background write, and no wake-up is lost: a request that waits either waits for a flight whose leader
  is still at work, or its channel is closed already.
\<close>

theorem one_leader_per_key:
  assumes "miss_reachable coord (h, ts)" "i < length ts" "ts ! i = (key, pc)"
  shows "(\<forall>j pc'. j < length ts \<and> ts ! j = (key, pc') \<and> duty pc \<noteq> None \<and> duty pc' \<noteq> None \<longrightarrow> j = i)
    \<and> (\<forall>f. pc = Waiting f \<longrightarrow> f \<in> doneFlights h \<or> (\<exists>j pc'. j < length ts \<and> ts ! j = (key, pc') \<and> duty pc' = Some f))"
proof (intro conjI allI impI)
  note ok = miss_ok_reachable [OF assms(1)]
  {
    fix j pc' assume j: "j < length ts \<and> ts ! j = (key, pc') \<and> duty pc \<noteq> None \<and> duty pc' \<noteq> None"
    then obtain f g where "duty pc = Some f" "duty pc' = Some g" by blast
    moreover have "flights h key = duty pc" "flights h key = duty pc'"
      using ok assms(2,3) j \<open>duty pc = Some f\<close> \<open>duty pc' = Some g\<close> by (auto simp: miss_ok_def duties_ok_def)
    ultimately show "j = i" using same_hand [of ts j i f] ok assms(2,3) j by (simp add: miss_ok_def)
  }
  fix f assume "pc = Waiting f"
  then have "f \<in> doneFlights h \<or> flights h key = Some f" using ok assms(2,3) by (auto simp: miss_ok_def waiters_ok_def)
  then show "f \<in> doneFlights h \<or> (\<exists>j pc'. j < length ts \<and> ts ! j = (key, pc') \<and> duty pc' = Some f)"
    using ok by (auto simp: miss_ok_def elim!: flight_owner)
qed

subsection \<open>Every miss is resolved\<close>

fun phase :: "miss_pc \<Rightarrow> nat" where
  "phase Looking = 4"
| "phase (Waiting f) = 4"
| "phase (Leading f) = 3"
| "phase Solo = 3"
| "phase (Storing f) = 2"
| "phase Ending = 1"
| "phase Served = 0"

fun spin :: "nat set \<Rightarrow> miss_pc \<Rightarrow> nat" where
  "spin closed Looking = 1"
| "spin closed (Waiting f) = (if f \<in> closed then 2 else 0)"
| "spin closed _ = 0"

definition rank :: "lifecycle \<times> threads \<Rightarrow> nat \<times> nat" where
  "rank = (\<lambda>(h, ts). (sum_list (map (\<lambda>t. phase (snd t)) ts), sum_list (map (\<lambda>t. spin (doneFlights h) (snd t)) ts)))"

lemma rank_phase:
  assumes "i < length ts" "phase pc < phase (snd (ts ! i))"
  shows "(rank (h', ts[i := (key, pc)]), rank (h, ts)) \<in> less_than <*lex*> less_than"
  using sum_update [OF assms(1), of "\<lambda>t. phase (snd t)" "(key, pc)"] assms(2) by (simp add: rank_def)

lemma rank_spin:
  assumes "i < length ts" "phase pc = phase (snd (ts ! i))" "spin (doneFlights h) pc < spin (doneFlights h) (snd (ts ! i))"
  shows "(rank (h, ts[i := (key, pc)]), rank (h, ts)) \<in> less_than <*lex*> less_than"
  using sum_update [OF assms(1), of "\<lambda>t. phase (snd t)" "(key, pc)"]
    sum_update [OF assms(1), of "\<lambda>t. spin (doneFlights h) (snd t)" "(key, pc)"] assms(2,3) by (simp add: rank_def)

lemma step_rank:
  assumes "miss_step coord s s'" "miss_ok s"
  shows "(rank s', rank s) \<in> less_than <*lex*> less_than"
  using assms(1)
proof cases
  case (follow i ts key h f h')
  then have "h' = h" "flights h key = Some f" by (auto simp: claimMiss_def split: option.splits)
  then have "f \<notin> doneFlights h" using assms(2) follow by (auto simp: miss_ok_def flights_ok_def)
  with follow \<open>h' = h\<close> show ?thesis by (auto intro!: rank_spin)
next
  case (woken_miss i ts key f h)
  then show ?thesis by (cases coord) (auto intro: rank_spin rank_phase)
next
  case (lead_stores i ts key f h ok h')
  then show ?thesis by (cases ok) (auto intro!: rank_phase)
next
  case (solo_stores i ts key h ok h')
  then show ?thesis by (cases ok) (auto intro!: rank_phase)
qed (auto intro!: rank_phase)

lemma unserved_moves:
  assumes ok: "miss_ok (h, ts)" and i: "i < length ts" "ts ! i = (key, pc)" "pc \<noteq> Served"
  shows "\<exists>s'. miss_step coord (h, ts) s'"
proof -
  have busy: "\<exists>s'. miss_step coord (h, ts) s'" if "j < length ts" "ts ! j = (k, p)" "duty p \<noteq> None" for j k p
    using that by (cases p) (auto intro: lead_ends store_completes)
  show ?thesis
  proof (cases pc)
    case Looking
    obtain f leads h' where "claimMiss key h = (f, leads, h')" by (metis surj_pair)
    then show ?thesis using Looking i lead [OF i(1), of key h f h'] follow [OF i(1), of key h f h'] by (cases leads) (metis | simp)+
  next
    case (Waiting f)
    then have "f \<in> doneFlights h \<or> flights h key = Some f" using ok i by (auto simp: miss_ok_def waiters_ok_def)
    then show ?thesis
    proof
      assume "f \<in> doneFlights h"
      then show ?thesis using woken_hit i Waiting by blast
    next
      assume "flights h key = Some f"
      with ok obtain j where "j < length ts" "duty (snd (ts ! j)) = Some f" by (auto simp: miss_ok_def elim: flight_owner)
      then show ?thesis using busy [of j "fst (ts ! j)" "snd (ts ! j)"] by simp
    qed
  next
    case Solo
    then show ?thesis using i by (auto intro: solo_ends)
  next
    case Ending
    then show ?thesis using i by (auto intro: write_ends)
  next
    case (Leading f)
    then show ?thesis using busy [OF i(1,2)] by simp
  next
    case (Storing f)
    then show ?thesis using busy [OF i(1,2)] by simp
  next
    case Served
    then show ?thesis using i(3) by simp
  qed
qed

lemma no_writers: "writers_of ts = 0 \<longleftrightarrow> (\<forall>t \<in> set ts. \<not> writing (snd t))"
proof -
  have "0 \<le> writers_of ts" for ts by (induction ts) (simp_all add: writers_of_def)
  then show ?thesis by (induction ts) (auto simp: writers_of_def add_nonneg_eq_0_iff)
qed

lemma all_served:
  assumes ok: "miss_ok (h, ts)" and served: "\<forall>t \<in> set ts. snd t = Served"
  shows "flights h = Map.empty \<and> writes h = 0"
proof
  have "duty (snd (ts ! i)) = None" if "i < length ts" for i using that served by simp
  then have "flights h k = None" for k
    using ok by (cases "flights h k") (auto simp: miss_ok_def elim!: flight_owner)
  then show "flights h = Map.empty" by blast
  have "\<forall>t \<in> set ts. \<not> writing (snd t)" using served by simp
  with no_writers ok show "writes h = 0" by (auto simp: miss_ok_def)
qed


interpretation mr: ending_system "miss_step coord" miss_ok rank "less_than <*lex*> less_than" for coord
  by unfold_locales (auto intro: miss_ok_step step_rank wf_lex_prod)

lemma stuck_is_served:
  assumes "miss_ok (h, ts)" "\<nexists>s'. miss_step coord (h, ts) s'"
  shows "\<forall>t \<in> set ts. snd t = Served"
proof (rule ballI, rule ccontr)
  fix t assume "t \<in> set ts" "snd t \<noteq> Served"
  then obtain i where "i < length ts" "ts ! i = (fst t, snd t)" by (auto simp: in_set_conv_nth)
  from unserved_moves [OF assms(1) this \<open>snd t \<noteq> Served\<close>] assms(2) show False by blast
qed

text \<open>
  C11: Every miss is resolved. When the origin, the background writes and the coordinator answer, no request runs
  or waits for ever: from every state that any requests, cancellations and shutdown can reach, each sequence of
  steps ends, and it ends only when every request has been served, no flight is left and no write is running.
\<close>

theorem every_miss_is_resolved:
  assumes reach: "miss_reachable coord s"
  shows "(\<nexists>run. run 0 = s \<and> (\<forall>n. miss_step coord (run n) (run (Suc n))))
    \<and> (\<exists>s'. (miss_step coord)\<^sup>*\<^sup>* s s' \<and> (\<nexists>s''. miss_step coord s' s''))
    \<and> (\<forall>h ts. (miss_step coord)\<^sup>*\<^sup>* s (h, ts) \<and> (\<nexists>s'. miss_step coord (h, ts) s') \<longrightarrow>
         (\<forall>t \<in> set ts. snd t = Served) \<and> flights h = Map.empty \<and> writes h = 0)"
proof (intro conjI allI impI)
  note ok = miss_ok_reachable [OF reach]
  show "\<nexists>run. run 0 = s \<and> (\<forall>n. miss_step coord (run n) (run (Suc n)))" by (rule mr.no_endless_run [OF ok])
  show "\<exists>s'. (miss_step coord)\<^sup>*\<^sup>* s s' \<and> (\<nexists>s''. miss_step coord s' s'')" by (rule mr.reaches_end [OF ok])
  fix h ts assume "(miss_step coord)\<^sup>*\<^sup>* s (h, ts) \<and> (\<nexists>s'. miss_step coord (h, ts) s')"
  then have "miss_ok (h, ts)" and served: "\<forall>t \<in> set ts. snd t = Served" using mr.ok_steps ok stuck_is_served by blast+
  then show "\<forall>t \<in> set ts. snd t = Served" "flights h = Map.empty" "writes h = 0" using all_served by blast+
qed

definition two_requests :: "lifecycle \<times> threads" where
  "two_requests = (new_lifecycle, [(''GET:/a'', Looking), (''GET:/a'', Looking)])"

lemma two_requests_reachable: "miss_reachable coord two_requests"
proof -
  have "miss_any coord (new_lifecycle, []) (new_lifecycle, [(''GET:/a'', Looking)])"
    "miss_any coord (new_lifecycle, [(''GET:/a'', Looking)]) two_requests"
    using arrive [of new_lifecycle "[]" "''GET:/a''"] arrive [of new_lifecycle "[(''GET:/a'', Looking)]" "''GET:/a''"]
    by (simp_all add: miss_any_def two_requests_def)
  then show ?thesis unfolding miss_reachable_def by (meson converse_rtranclp_into_rtranclp r_into_rtranclp)
qed

theorem every_miss_is_resolved_witness:
  "\<exists>s'. (miss_step False)\<^sup>*\<^sup>* two_requests s' \<and> (\<nexists>s''. miss_step False s' s'')"
  using every_miss_is_resolved [OF two_requests_reachable] by blast

definition leader_and_follower :: "lifecycle \<times> threads" where
  "leader_and_follower = (snd (snd (claimMiss ''GET:/a'' new_lifecycle)), [(''GET:/a'', Leading 0), (''GET:/a'', Waiting 0)])"

lemma leader_and_follower_reachable: "miss_reachable coord leader_and_follower"
proof -
  let ?h = "snd (snd (claimMiss ''GET:/a'' new_lifecycle))" and ?k = "''GET:/a''"
  have c: "claimMiss ?k new_lifecycle = (0, True, ?h)" "claimMiss ?k ?h = (0, False, ?h)"
    by (simp_all add: claimMiss_def new_lifecycle_def)
  have "miss_any coord two_requests (?h, [(?k, Leading 0), (?k, Looking)])"
    using lead [of 0 "[(?k, Looking), (?k, Looking)]" ?k, OF _ _ c(1)] by (simp add: miss_any_def two_requests_def)
  moreover have "miss_any coord (?h, [(?k, Leading 0), (?k, Looking)]) leader_and_follower"
    using follow [of 1 "[(?k, Leading 0), (?k, Looking)]" ?k, OF _ _ c(2)] by (simp add: miss_any_def leader_and_follower_def)
  ultimately show ?thesis using two_requests_reachable [of coord] unfolding miss_reachable_def by (meson rtranclp.rtrancl_into_rtrancl)
qed

theorem one_leader_per_key_witness:
  "0 \<in> doneFlights (fst leader_and_follower)
   \<or> (\<exists>j pc'. j < length (snd leader_and_follower) \<and> snd leader_and_follower ! j = (''GET:/a'', pc') \<and> duty pc' = Some 0)"
  using one_leader_per_key [of True "fst leader_and_follower" "snd leader_and_follower" 1 "''GET:/a''" "Waiting 0"] leader_and_follower_reachable [of True]
  by (simp add: leader_and_follower_def)

subsection \<open>Shutdown\<close>

lemma closed_step:
  assumes "miss_any coord (h, ts) (h', ts')" "miss_ok (h, ts)" "shutdown_returns h"
  shows "shutdown_returns h'"
proof -
  have none: "\<not> writing (snd (ts ! i))" if "i < length ts" for i
    using assms(2,3) no_writers [of ts] that by (auto simp: miss_ok_def shutdown_returns_def)
  from assms(1) consider "miss_step coord (h, ts) (h', ts')" | "miss_env (h, ts) (h', ts')" by (auto simp: miss_any_def)
  then show ?thesis
  proof cases
    case 1
    then show ?thesis
      by cases (use assms(3) none in \<open>force simp: shutdown_returns_def claimMiss_def finishMiss_def beginWrite_def split: option.splits if_splits\<close>)+
  next
    case 2
    then show ?thesis by cases (use assms(3) in \<open>auto simp: shutdown_returns_def shutdown_begin_def\<close>)
  qed
qed

text \<open>
  C24: \<^verbatim>\<open>Shutdown\<close> keeps its promise. When it returns without an error no background write is running, and none
  starts afterwards, whatever requests arrive; the caller may close the cache.
\<close>

theorem shutdown_is_final:
  assumes reach: "miss_reachable coord (h, ts)" and ret: "shutdown_returns h" and later: "(miss_any coord)\<^sup>*\<^sup>* (h, ts) (h', ts')"
  shows "shutdown_returns h' \<and> (\<forall>t \<in> set ts'. \<not> writing (snd t))"
proof -
  have "miss_ok (h', ts') \<and> shutdown_returns h'"
    using later
  proof (induction "(h', ts')" arbitrary: h' ts' rule: rtranclp_induct)
    case base
    then show ?case using miss_ok_reachable [OF reach] ret by simp
  next
    case (step s)
    obtain h1 ts1 where s: "s = (h1, ts1)" by (rule prod.exhaust)
    with step have "miss_ok (h1, ts1)" "shutdown_returns h1" "miss_any coord (h1, ts1) (h', ts')" by auto
    then show ?case using closed_step miss_ok_any by blast
  qed
  then show ?thesis using no_writers [of ts'] by (auto simp: miss_ok_def shutdown_returns_def)
qed

theorem shutdown_is_final_witness:
  "shutdown_returns (shutdown_begin new_lifecycle) \<and> list_all (\<lambda>t. \<not> writing (snd t)) [(''GET:/a'', Served)]"
proof -
  let ?h = "shutdown_begin new_lifecycle" and ?k = "''GET:/a''"
  have reach: "miss_reachable False (?h, [])"
    unfolding miss_reachable_def miss_any_def using shutdown [of new_lifecycle "[]"] by blast
  have ret: "shutdown_returns ?h" by (simp add: shutdown_returns_def shutdown_begin_def new_lifecycle_def)
  have "miss_any False (?h, []) (?h, [(?k, Solo)])" using refetch [of ?h "[]" ?k] by (simp add: miss_any_def)
  moreover have "beginWrite ?h = (False, ?h)" by (simp add: beginWrite_def shutdown_begin_def)
  then have "miss_any False (?h, [(?k, Solo)]) (?h, [(?k, Served)])"
    using solo_stores [of 0 "[(?k, Solo)]" ?k ?h False ?h] by (simp add: miss_any_def)
  ultimately have "(miss_any False)\<^sup>*\<^sup>* (?h, []) (?h, [(?k, Served)])" by (meson converse_rtranclp_into_rtranclp r_into_rtranclp)
  from shutdown_is_final [OF reach ret this] show ?thesis by simp
qed

end
