(* ===== verification/Serve.thy ===== *)
theory Serve
  imports Lookup Writers Staging Miss
begin

text \<open>
  A request from its arrival to its answer: \<^verbatim>\<open>ServeHTTP\<close> and everything below it in \<^verbatim>\<open>src/handler.go\<close>,
  \<^verbatim>\<open>src/conditional_response.go\<close> and \<^verbatim>\<open>src/miss_coordinator.go\<close>, composed from the components in the order of
  the code. The goroutine that runs the origin and the background write are run where the code waits for
  them, or at the end; the result \<open>None\<close> is a panic outside the recovery of \<^verbatim>\<open>net/http\<close>, which ends the process.

  Every reading of the clock and every answer of the operating system, the context and the other requests
  is a field of a record of events, and the requests that the origin gets are recorded.
\<close>

subsection \<open>The handler and its world\<close>

datatype ending = Returns | Panics | Aborts   \<comment> \<open>the last: the body breaks off\<close>

type_synonym answer = "writer_call list \<times> ending"

datatype metric = CacheHit string | CacheMiss string | CacheSkip | UpstreamDuration string int | StoreOperation bool

record ('c, 'b) handler =
  hShared :: bool
  hOps :: "'c cache_ops"
  hUpstream :: "request list \<Rightarrow> request \<Rightarrow> answer"   \<comment> \<open>knowing the requests before this one\<close>
  hBudget :: "'b budget_ops option"
  hRequestKey :: "(request \<Rightarrow> key option) option"
  hCoordinator :: bool

record ('c, 'b) world =
  wcache :: 'c
  wmarks :: handlerMarks
  wbudget :: 'b
  wlife :: lifecycle
  asked :: "request list"
  recorded :: "metric list"

record serve_env =
  ipLiteral :: ip_literal
  goEnv :: goenv
  CeilSeconds :: "duration \<Rightarrow> string"
  FloorSeconds :: "duration \<Rightarrow> string"
  DetectContentType :: "string \<Rightarrow> string"
  rangeAnswer :: "header \<Rightarrow> request \<Rightarrow> string \<Rightarrow> writer_call list"
  errorText :: "cache_error \<Rightarrow> string"

record pass_events =
  pStart :: time                \<comment> \<open>when the origin is asked\<close>
  pMax :: time
  pHeur :: time
  pCancelled :: bool
  pOs :: os_events
  pOsClose :: os_events
  pCopy :: "string \<Rightarrow> write_event list"
  pSeekFails :: bool
  pResp :: time
  pAge :: time
  pProxy :: time
  pPub :: "time \<times> time"

definition contact :: "('c, 'b) handler \<Rightarrow> request \<Rightarrow> ('c, 'b) world \<Rightarrow> answer \<times> ('c, 'b) world" where
  "contact h req w = (hUpstream h (asked w) req, w\<lparr>asked := asked w @ [req]\<rparr>)"

definition state_of :: "('c, 'b) world \<Rightarrow> 'c \<times> handlerMarks" where
  "state_of w = (wcache w, wmarks w)"

definition with_state :: "'c \<times> handlerMarks \<Rightarrow> ('c, 'b) world \<Rightarrow> ('c, 'b) world" where
  "with_state s w = w\<lparr>wcache := fst s, wmarks := snd s\<rparr>"

definition record_metric :: "metric \<Rightarrow> ('c, 'b) world \<Rightarrow> ('c, 'b) world" where
  "record_metric m w = w\<lparr>recorded := recorded w @ [m]\<rparr>"

definition http_Error :: "'w writer_ops \<Rightarrow> string \<Rightarrow> int \<Rightarrow> 'w \<Rightarrow> 'w" where
  "http_Error ops msg status w =
     run_calls ops
       [EditHeader (\<lambda>h. Set (Set (Del h ''Content-Length'') ''Content-Type'' ''text/plain; charset=utf-8'') ''X-Content-Type-Options'' ''nosniff''),
        WriteHeader status, Write (msg @ [CHR 0x0A])] w"

subsection \<open>Background storage\<close>

definition close_stage :: "('c, 'b) handler \<Rightarrow> os_events \<Rightarrow> handlerStage \<Rightarrow> ('c, 'b) world \<Rightarrow> ('c, 'b) world" where
  "close_stage h os stage w = (case stage_Close (hBudget h) os stage (wbudget w) of (_, _, b) \<Rightarrow> w\<lparr>wbudget := b\<rparr>)"

definition completed :: "(lifecycle \<Rightarrow> lifecycle) \<Rightarrow> ('c, 'b) world \<Rightarrow> ('c, 'b) world" where
  "completed complete w = w\<lparr>wlife := complete (wlife w)\<rparr>"

definition store_in_background ::
  "('c, 'b) handler \<Rightarrow> serve_env \<Rightarrow> pass_events \<Rightarrow> resource \<Rightarrow> cacheRequest \<Rightarrow> (lifecycle \<Rightarrow> lifecycle) \<Rightarrow> handlerStage
    \<Rightarrow> ('c, 'b) world \<Rightarrow> ('c, 'b) world option" where
  "store_in_background h en ev res r complete stage w =
     (case beginWrite (wlife w) of
        (False, _) \<Rightarrow> Some (completed complete (close_stage h (pOsClose ev) stage w))
      | (True, l) \<Rightarrow>
          (case storeResource (goEnv en) (hOps h) (hShared h) (fst (pPub ev)) (snd (pPub ev)) res r (state_of w) of
             None \<Rightarrow> None
           | Some (err, s) \<Rightarrow>
               let w = record_metric (StoreOperation (err = None)) (with_state s (w\<lparr>wlife := l\<rparr>));
                   w = completed complete (close_stage h (pOsClose ev) stage w)
               in Some (w\<lparr>wlife := endWrite (wlife w)\<rparr>)))"

subsection \<open>Passing a request to the origin\<close>

text \<open>The optional methods \<^verbatim>\<open>DeferStagingHeaders\<close> and \<^verbatim>\<open>FinishStagingHeaders\<close> of a writer.\<close>

record 'w hooks =
  hkDefer :: "'w \<Rightarrow> 'w"
  hkFinish :: "'w \<Rightarrow> 'w"

definition no_hooks :: "'w hooks" where
  "no_hooks = \<lparr>hkDefer = \<lambda>w. w, hkFinish = \<lambda>w. w\<rparr>"

definition set_live :: "'w writer_ops \<Rightarrow> string \<Rightarrow> string \<Rightarrow> 'w responseStreamer \<Rightarrow> 'w responseStreamer" where
  \<comment> \<open>\<^verbatim>\<open>rw.Header().Set(name, value)\<close>\<close>
  "set_live ops name value s = rs_Set ops (Set (rs_Header ops s) name value) s"

definition skip_staging :: "'w writer_ops \<Rightarrow> 'w responseStreamer \<Rightarrow> 'w responseStreamer" where
  "skip_staging ops s = finishStaging ops ''SKIP'' (set_live ops ''X-Cache'' ''SKIP'' s)"

definition finish_origin :: "'w writer_ops \<Rightarrow> writer_call list \<Rightarrow> 'w responseStreamer \<Rightarrow> 'w responseStreamer" where
  "finish_origin ops rest s = rs_Close ops (run_calls (streamer_ops ops) rest s)"

definition stamp_received ::
  "serve_env \<Rightarrow> pass_events \<Rightarrow> 'w writer_ops \<Rightarrow> time \<Rightarrow> resource \<times> 'w responseStreamer \<Rightarrow> resource \<times> 'w responseStreamer" where
  "stamp_received en ev ops t rs =
     (let (res, s) = rs;
          proxyDate = FormatTime (goEnv en) (pProxy ev);
          (res, s) = (case correctedAge (goEnv en) (pAge ev) (rheader res) t (pResp ev) of
                        Inr age \<Rightarrow> (res\<lparr>rheader := Set (rheader res) ''Age'' (CeilSeconds en age)\<rparr>, set_live ops ''Age'' (CeilSeconds en age) s)
                      | Inl _ \<Rightarrow> (res, s))
      in (res\<lparr>rheader := Set (rheader res) ''Proxy-Date'' proxyDate\<rparr>, set_live ops ''Proxy-Date'' proxyDate s))"

definition stage_and_store ::
  "('c, 'b) handler \<Rightarrow> serve_env \<Rightarrow> pass_events \<Rightarrow> 'w writer_ops \<Rightarrow> cacheRequest \<Rightarrow> (lifecycle \<Rightarrow> lifecycle) \<Rightarrow> ending \<Rightarrow> time \<Rightarrow> resource
    \<Rightarrow> writer_call list \<Rightarrow> 'w responseStreamer \<Rightarrow> ('c, 'b) world \<Rightarrow> ('w responseStreamer \<times> ('c, 'b) world) option" where
  "stage_and_store h en ev ops r complete fin t res rest s w =
     (case newHandlerStage (pCancelled ev) (hBudget h) (pOs ev) (wbudget w) of
        (Inl err, b) \<Rightarrow>
          let s = finish_origin ops rest (commitStagingHeaders ops (Request r) ''MISS'' False s)
          in Some (skip_staging ops s, completed complete (w\<lparr>wbudget := b\<rparr>))
      | (Inr stage, b) \<Rightarrow>
          let s = finish_origin ops rest (commitStagingHeaders ops (Request r) ''MISS'' True s);
              (err, stage, b) = fill_stage (hBudget h) (pCopy ev (pipe s)) stage b;
              w = w\<lparr>wbudget := b\<rparr>
          in if err \<noteq> None \<or> fin = Aborts \<or> pSeekFails ev
             then Some (skip_staging ops s, completed complete (close_stage h (pOsClose ev) stage w))
             else
               let s = finishStaging ops ''ADMITTED'' s;
                   w = record_metric (UpstreamDuration (Method (Request r)) (StatusCode s)) w;
                   (res, s) = stamp_received en ev ops t (res\<lparr>rbody := contents stage\<rparr>, s)
               in map_option (\<lambda>w. (s, w)) (store_in_background h en ev res r complete stage w))"

definition passUpstreamWithHandler ::
  "('c, 'b) handler \<Rightarrow> serve_env \<Rightarrow> pass_events \<Rightarrow> 'w writer_ops \<Rightarrow> 'w hooks \<Rightarrow> cacheRequest \<Rightarrow> (lifecycle \<Rightarrow> lifecycle) \<Rightarrow> answer \<Rightarrow> time
    \<Rightarrow> 'w \<Rightarrow> ('c, 'b) world \<Rightarrow> ('w \<times> ('c, 'b) world) option" where
  "passUpstreamWithHandler h en ev ops hk r complete origin t rw0 w =
     (let budgeted = (hBudget h \<noteq> None);
          finish = (\<lambda>(s, w). (if budgeted then hkFinish hk (rw s) else rw s, w));
          s = (newResponseStreamer (if budgeted then hkDefer hk rw0 else rw0))\<lparr>deferHeaders := budgeted, retainHeader := budgeted\<rparr>;
          s = set_live ops ''X-Cache'' ''MISS'' s;
          (s, rest) = WaitHeaders ops (fst origin) s;
          res = (NewResource (StatusCode s) [] (the (responseHeader s)))\<lparr>RequestTime := t\<rparr>
      in if snd origin = Panics then None
         else if \<not> canStageResponse (goEnv en) (pMax ev) (pHeur ev) (hShared h) budgeted res r
         then let s = finish_origin ops rest (commitStagingHeaders ops (Request r) ''SKIP'' False s)
              in Some (finish (skip_staging ops s, completed complete w))
         else map_option finish (stage_and_store h en ev ops r complete (snd origin) t res rest s w))"

definition passUpstream ::
  "('c, 'b) handler \<Rightarrow> serve_env \<Rightarrow> pass_events \<Rightarrow> cacheRequest \<Rightarrow> (lifecycle \<Rightarrow> lifecycle) \<Rightarrow> client \<Rightarrow> ('c, 'b) world
    \<Rightarrow> (client \<times> ('c, 'b) world) option" where
  "passUpstream h en ev r complete cl w =
     (let (origin, w) = contact h (Request r) w
      in passUpstreamWithHandler h en ev client_ops no_hooks r complete origin (pStart ev) cl w)"


subsection \<open>Requests that are not cached\<close>

definition pipeUpstream ::
  "('c, 'b) handler \<Rightarrow> serve_env \<Rightarrow> time \<Rightarrow> time \<times> time \<Rightarrow> cacheRequest \<Rightarrow> client \<Rightarrow> ('c, 'b) world \<Rightarrow> (client \<times> ('c, 'b) world) option" where
  "pipeUpstream h en now pub r cl w =
     (let s = (newResponseStreamer cl)\<lparr>deferHeaders := isStateChanging r\<rparr>;
          (origin, w) = contact h (Request r) w;
          (s, rest) = WaitHeaders client_ops (fst origin) s
      in if snd origin = Panics then None
         else if isStateChanging r then
           let res = NewResource (StatusCode s) [] (the (responseHeader s));
               w = (if IsNonErrorStatus res
                    then with_state (invalidateResource (ipLiteral en) (goEnv en) (hOps h) now (hRequestKey h) res r (state_of w)) w else w);
               s = finish_origin client_ops rest (CommitHeaders client_ops s)
           in Some (rw s, w)
         else
           let s = finish_origin client_ops rest s in
           if Method (Request r) \<noteq> ''HEAD'' then Some (rw s, w)
           else
             let res = (rs_Resource client_ops s)\<lparr>RequestTime := rTime r\<rparr> in
             (case freshenResource (hOps h) (fst pub) (snd pub) res [key_String (goEnv en) (ForMethod (rKey r) ''GET'')] (state_of w) of
                None \<Rightarrow> None
              | Some (_, _, st) \<Rightarrow> Some (rw s, with_state st w)))"

subsection \<open>Serving from the cache\<close>

definition ServeContent :: "serve_env \<Rightarrow> time \<Rightarrow> request \<Rightarrow> string \<Rightarrow> client \<Rightarrow> client" where
  \<comment> \<open>of the standard library, for a content without a name; the answer to a \<^verbatim>\<open>Range\<close> is a parameter\<close>
  "ServeContent en modtime req body cl =
     (let e = goEnv en; hd0 = setLastModified e modtime (live cl) in
      case checkPreconditions e hd0 modtime req of
        Some s \<Rightarrow> client_WriteHeader s (cl\<lparr>live := if s = 304 then writeNotModified hd0 else hd0\<rparr>)
      | None \<Rightarrow>
          let hd1 = (if map_of hd0 ''Content-Type'' = None then Set hd0 ''Content-Type'' (DetectContentType en body) else hd0) in
          if Get (reqHeader req) ''Range'' \<noteq> [] then run_calls client_ops (rangeAnswer en hd1 req body) (cl\<lparr>live := hd1\<rparr>)
          else
            let hd2 = Set hd1 ''Accept-Ranges'' ''bytes'';
                hd2 = (if Get hd2 ''Content-Encoding'' = [] then Set hd2 ''Content-Length'' (Itoa (int (length body))) else hd2);
                cl = client_WriteHeader 200 (cl\<lparr>live := hd2\<rparr>)
            in if Method req \<noteq> ''HEAD'' \<and> body \<noteq> [] then client_Write body cl else cl)"

record serve_clocks =
  sAge :: time
  sHeur :: time
  sFresh :: clocks

definition serve_header :: "serve_env \<Rightarrow> serve_clocks \<Rightarrow> bool \<Rightarrow> resource \<Rightarrow> cacheRequest \<Rightarrow> duration \<Rightarrow> header \<Rightarrow> header" where
  "serve_header en ck shared res r age h0 =
     (let e = goEnv en; day = 24 * 60 * 60 * second;
          h1 = (if day < age \<and> day < heuristicFreshness e (sHeur ck) shared res then Add h0 ''Warning'' ''113 - \"Heuristic Expiration\"'' else h0);
          h2 = (case freshness e (sFresh ck) shared res r of
                  Some d \<Rightarrow> if d \<le> 0 then Add h1 ''Warning'' ''110 - \"Response is Stale\"'' else h1
                | None \<Rightarrow> Add h1 ''Warning'' ''110 - \"Response is Stale\"'')
      in Set (Set h2 ''Age'' (FloorSeconds en age)) ''Via'' (Via res))"

definition serveResource :: "serve_env \<Rightarrow> serve_clocks \<Rightarrow> bool \<Rightarrow> resource \<Rightarrow> cacheRequest \<Rightarrow> client \<Rightarrow> client" where
  "serveResource en ck shared res r cl =
     (let h0 = foldl (\<lambda>d (name, values). foldl (\<lambda>d v. Add d name v) d values) (live cl) (rheader res)
      in case Age (goEnv en) (sAge ck) res of
           None \<Rightarrow> http_Error client_ops ''Error calculating age'' 500 (cl\<lparr>live := h0\<rparr>)
         | Some age \<Rightarrow>
             let cl = cl\<lparr>live := serve_header en ck shared res r age h0\<rparr> in
             if statusCode res \<noteq> 200 then
               let p = newClientPreconditionWriter client_ops cl (Request r);
                   p = run_calls (precondition_ops (goEnv en) client_ops)
                         (WriteHeader (statusCode res) # (if rbody res = [] then [] else [Write (rbody res)])) p
               in case_sum (\<lambda>cl. cl) pcw p
             else ServeContent en (LastModified (goEnv en) res) (Request r) (rbody res) cl)"

subsection \<open>Validation\<close>

record validate_events =
  vGone1 :: bool     \<comment> \<open>the context is done before the fence, after it, while the origin works, and at the end\<close>
  vGone2 :: bool
  vGone3 :: bool
  vGone4 :: bool
  vFence :: time
  vStart :: time
  vApply :: "time \<times> time \<times> time \<times> time"
  vRetry :: time
  vMax :: time
  vHeur :: time
  vMax304 :: time
  vHeur304 :: time
  vFresh :: "time \<times> time"
  vRefence :: time
  vRefetch :: time
  vRebuild :: time
  vGoneRebuild :: bool
  vGoneTrailers :: bool

definition fenced :: "('c, 'b) handler \<Rightarrow> time \<Rightarrow> string list \<Rightarrow> ('c, 'b) world \<Rightarrow> ('c, 'b) world" where
  "fenced h now keys w = with_state (fence (hOps h) now keys (state_of w)) w"

definition refetchOriginalResponse ::
  "('c, 'b) handler \<Rightarrow> serve_env \<Rightarrow> pass_events \<Rightarrow> validate_events \<Rightarrow> cacheRequest \<Rightarrow> client \<Rightarrow> ('c, 'b) world \<Rightarrow> (client \<times> ('c, 'b) world) option" where
  "refetchOriginalResponse h en ev ve r cl w =
     passUpstream h en ev (r\<lparr>rTime := vRefetch ve\<rparr>) (\<lambda>l. l) cl (fenced h (vRefence ve) (validationKeys (goEnv en) r) w)"

definition exchange_hooks :: "(client + client clientPreconditionWriter) hooks" where
  "exchange_hooks = \<lparr>hkDefer = map_sum (\<lambda>w. w) DeferStagingHeaders, hkFinish = map_sum (\<lambda>w. w) (FinishStagingHeaders client_ops)\<rparr>"

definition exchange_calls :: "validationExchange \<Rightarrow> writer_call list" where
  "exchange_calls x =
     EditHeader (\<lambda>h. foldl (\<lambda>d (name, values). AList.update name values d) h (the (xsnapshot x)))
     # WriteHeader (xstatus x) # (if xbody x = [] then [] else [Write (xbody x)])"

definition finishValidationTrailers ::
  "serve_env \<Rightarrow> bool \<Rightarrow> validationExchange \<times> bool \<Rightarrow> client + client clientPreconditionWriter \<Rightarrow> client + client clientPreconditionWriter" where
  "finishValidationTrailers en gone xc p =
     (if gone \<or> \<not> snd xc then p
      else let trailers = (\<lambda>h. copyValidationTrailers h (xheader (fst xc)) (the (xsnapshot (fst xc))))
           in map_sum (\<lambda>cl. cl\<lparr>live := trailers (live cl)\<rparr>) (\<lambda>p. finishTrailers client_ops (p\<lparr>pcheader := trailers (pcheader p)\<rparr>)) p)"

definition deliverValidationExchange ::
  "('c, 'b) handler \<Rightarrow> serve_env \<Rightarrow> pass_events \<Rightarrow> bool \<Rightarrow> cacheRequest \<Rightarrow> request \<Rightarrow> validationExchange \<times> bool \<Rightarrow> time \<Rightarrow> client \<Rightarrow> ('c, 'b) world
    \<Rightarrow> (client \<times> ('c, 'b) world) option" where
  "deliverValidationExchange h en ev gone storageReq original xc start cl w =
     map_option (\<lambda>(p, w). (case_sum (\<lambda>cl. cl) pcw (finishValidationTrailers en gone xc p), w))
       (passUpstreamWithHandler h en ev (precondition_ops (goEnv en) client_ops) exchange_hooks storageReq (\<lambda>l. l)
          (exchange_calls (fst xc), if snd xc then Returns else Aborts) start (newClientPreconditionWriter client_ops cl original) w)"

definition exchanged :: "answer \<Rightarrow> validationExchange \<times> bool" where
  "exchanged a = ve_serve (fst a, snd a = Panics) newValidationExchange"

definition streamVaryRebuild ::
  "('c, 'b) handler \<Rightarrow> serve_env \<Rightarrow> pass_events \<Rightarrow> validate_events \<Rightarrow> cacheRequest \<Rightarrow> request \<Rightarrow> client \<Rightarrow> ('c, 'b) world
    \<Rightarrow> (client \<times> ('c, 'b) world) option" where
  "streamVaryRebuild h en ev ve rebuilt original cl w =
     (let (answer, w) = contact h (Request rebuilt) w; xc = exchanged answer in
      if vGoneRebuild ve then Some (cl, w)
      else if varyChangedClientValidators (goEnv en) (combinedHeaderValues (the (xsnapshot (fst xc))) ''Vary'') original (Request rebuilt)
      then refetchOriginalResponse h en ev ve (rebuilt\<lparr>Request := original\<rparr>) cl w
      else deliverValidationExchange h en ev (vGoneTrailers ve) rebuilt original xc (rTime rebuilt) cl w)"

definition refetchVaryResponse ::
  "('c, 'b) handler \<Rightarrow> serve_env \<Rightarrow> pass_events \<Rightarrow> validate_events \<Rightarrow> cacheRequest \<Rightarrow> string \<Rightarrow> client \<Rightarrow> ('c, 'b) world
    \<Rightarrow> (client \<times> ('c, 'b) world) option" where
  "refetchVaryResponse h en ev ve r varyHeader cl w =
     (if varyUsesClientValidators varyHeader then refetchOriginalResponse h en ev ve r cl w
      else
        let w = fenced h (vRefence ve) (validationKeys (goEnv en) r) w;
            fetch = (Request r)\<lparr>reqHeader := Del (Del (reqHeader (Request r)) ''If-None-Match'') ''If-Modified-Since''\<rparr>
        in streamVaryRebuild h en ev ve (r\<lparr>Request := fetch, rTime := vRebuild ve\<rparr>) (Request r) cl w)"


definition validateUpstreamResponse ::
  "('c, 'b) handler \<Rightarrow> serve_env \<Rightarrow> pass_events \<Rightarrow> validate_events \<Rightarrow> cacheRequest \<Rightarrow> resource \<Rightarrow> client \<Rightarrow> ('c, 'b) world
    \<Rightarrow> ((bool \<times> bool) \<times> resource \<times> client \<times> ('c, 'b) world) option" where
  "validateUpstreamResponse h en ev ve r res cl w =
     (let e = goEnv en; failed = (\<lambda>w. Some ((False, False), res, cl, w)) in
      case conditionalRequest (Request r) res of None \<Rightarrow> failed w
      | Some outreq \<Rightarrow>
          if vGone1 ve then failed w
          else
            let w = fenced h (vFence ve) [validationResourceKey e r] w in
            if vGone2 ve then failed w
            else
              let validation = r\<lparr>Request := outreq, rTime := vStart ve\<rparr>;
                  (answer, w) = contact h outreq w;
                  (x, complete) = exchanged answer;
                  hdr = the (xsnapshot x)
              in if vGone3 ve then failed w
                 else if xstatus x = 304 then
                   (if \<not> complete then failed w
                    else let (valid, res) = applyValidationResponse e (vApply ve) (vGone4 ve) res (xstatus x) hdr (vStart ve)
                         in Some ((valid, False), res, cl, w))
                 else if retryOriginalPreconditions (xstatus x) (Request r) outreq
                 then failed (fenced h (vRetry ve) (validationKeys e r) w)
                 else if varyChangedClientValidators e (combinedHeaderValues hdr ''Vary'') (Request r) outreq then failed w
                 else map_option (\<lambda>(cl, w). ((False, True), res, cl, w))
                   (if fullResponseVaryChanged e (vMax ve) (vHeur ve) (hShared h) validation (xstatus x) (rheader res) hdr
                    then refetchVaryResponse h en ev ve r (combinedHeaderValues hdr ''Vary'') cl w
                    else deliverValidationExchange h en ev (vGoneTrailers ve) validation (Request r) (x, complete) (vStart ve) cl w))"

definition validateCachedResponse ::
  "('c, 'b) handler \<Rightarrow> serve_env \<Rightarrow> pass_events \<Rightarrow> validate_events \<Rightarrow> cacheRequest \<Rightarrow> resource \<Rightarrow> client \<Rightarrow> ('c, 'b) world
    \<Rightarrow> (resource option \<times> client \<times> ('c, 'b) world) option" where
  "validateCachedResponse h en ev ve r res0 cl w =
     (let e = goEnv en; previousVary = combinedHeaderValues (rheader res0) ''Vary''; answered = map_option (Pair None) in
      if Has (rCC r) ''only-if-cached''
      then Some (None, http_Error client_ops ''key was in cache, but required validation'' 504 cl, w)
      else case validateUpstreamResponse h en ev ve r res0 cl w of None \<Rightarrow> None
      | Some ((valid, served), res, cl, w) \<Rightarrow>
          let newVary = combinedHeaderValues (rheader res) ''Vary'';
              varyChanged = (\<not> sameVaryFields previousVary newVary)
          in if served then Some (None, cl, w)
             else if \<not> valid then answered (refetchOriginalResponse h en ev ve r cl w)
             else if \<not> isCacheable e (vMax304 ve) (vHeur304 ve) (hShared h) res r \<or> varyChanged then
               (if varyChanged then answered (refetchVaryResponse h en ev ve r newVary cl w)
                else answered (refetchOriginalResponse h en ev ve r cl w))
             else
               let res = (if hShared h then RemovePrivateHeaders res else res) in
               (case freshenValidatedResponse e (hOps h) (fst (vFresh ve)) (snd (vFresh ve)) res (validationKeys e r) (state_of w) of
                  None \<Rightarrow> None
                | Some (ok, res, s) \<Rightarrow>
                    let w = with_state s w in
                    if \<not> ok then answered (refetchOriginalResponse h en ev ve r cl w)
                    else Some (Some res, cl, w)))"

definition serveCachedResponse ::
  "('c, 'b) handler \<Rightarrow> serve_env \<Rightarrow> pass_events \<Rightarrow> validate_events \<Rightarrow> clocks \<Rightarrow> serve_clocks \<Rightarrow> cacheRequest \<Rightarrow> resource \<Rightarrow> client
    \<Rightarrow> ('c, 'b) world \<Rightarrow> (client \<times> ('c, 'b) world) option" where
  "serveCachedResponse h en ev ve need ck r res cl w =
     (let hit = (\<lambda>res cl w. (serveResource en ck (hShared h) (res\<lparr>rheader := Set (rheader res) ''X-Cache'' ''HIT''\<rparr>) r cl,
                             record_metric (CacheHit (Method (Request r))) w))
      in if needsValidation (goEnv en) need (hShared h) res r
         then (case validateCachedResponse h en ev ve r res cl w of None \<Rightarrow> None
               | Some (None, cl, w) \<Rightarrow> Some (cl, w)
               | Some (Some res, cl, w) \<Rightarrow> Some (hit res cl w))
         else Some (hit res cl w))"

subsection \<open>Misses\<close>

text \<open>
  What a request meets while it waits: its client goes away, or the flight it waits for is over, in the world
  that the other requests have made. A coordinator grants a lease in such a world, or it does not.
\<close>

datatype 'w wait = Gone | Woken 'w

datatype 'w acquisition = Refused bool | Granted 'w bool
  \<comment> \<open>whether the client is gone; whether the context of the lease is done\<close>

definition recheck :: "('c, 'b) handler \<Rightarrow> serve_env \<Rightarrow> cacheRequest \<Rightarrow> ('c, 'b) world \<Rightarrow> (cache_error + resource) \<times> cacheRequest \<times> ('c, 'b) world" where
  "recheck h en r w =
     (case recheckMiss (goEnv en) (hOps h) (hShared h) (wmarks w) r (wcache w) of (found, r, c) \<Rightarrow> (found, r, w\<lparr>wcache := c\<rparr>))"

definition unavailable :: "bool \<Rightarrow> client \<Rightarrow> client" where
  "unavailable gone cl = (if gone then cl else http_Error client_ops ''cache fill coordination unavailable'' 503 cl)"

definition leadMiss ::
  "('c, 'b) handler \<Rightarrow> serve_env \<Rightarrow> pass_events \<Rightarrow> ('c, 'b) world acquisition \<Rightarrow> bool \<Rightarrow> cacheRequest \<Rightarrow> (lifecycle \<Rightarrow> lifecycle) \<Rightarrow> client \<Rightarrow> ('c, 'b) world
    \<Rightarrow> (resource option \<times> cacheRequest \<times> client \<times> ('c, 'b) world) option" where
  "leadMiss h en ev acq gone r complete cl w =
     (if \<not> hCoordinator h then map_option (\<lambda>(cl, w). (None, r, cl, w)) (passUpstream h en ev r complete cl w)
      else case acq of
        Refused away \<Rightarrow> Some (None, r, unavailable away cl, completed complete w)
      | Granted w' expired \<Rightarrow>
          (case recheck h en r w' of
             (Inr res, r, w) \<Rightarrow> Some (Some res, r, cl, completed complete w)
           | (Inl err, r, w) \<Rightarrow>
               if err \<noteq> NotFoundInCache then Some (None, r, http_Error client_ops ''cache lookup failed'' 500 cl, completed complete w)
               else if expired then Some (None, r, unavailable gone cl, completed complete w)
               else map_option (\<lambda>(cl, w). (None, r, cl, w)) (passUpstream h en ev r complete cl w)))"

fun resolve_loop ::
  "('c, 'b) handler \<Rightarrow> serve_env \<Rightarrow> pass_events \<Rightarrow> ('c, 'b) world acquisition \<Rightarrow> bool \<Rightarrow> ('c, 'b) world wait list \<Rightarrow> cacheRequest \<Rightarrow> client
    \<Rightarrow> ('c, 'b) world \<Rightarrow> (resource option \<times> cacheRequest \<times> client \<times> ('c, 'b) world) option" where
  "resolve_loop h en ev acq gone waits r cl w =
     (let key = key_String (goEnv en) (rKey r) in
      if gone then Some (None, r, cl, w)
      else case claimMiss key (wlife w) of
        (flight, True, l) \<Rightarrow> leadMiss h en ev acq gone r (finishMiss key flight) cl (w\<lparr>wlife := l\<rparr>)
      | (flight, False, l) \<Rightarrow>
          (case waits of [] \<Rightarrow> Some (None, r, cl, w)
           | Gone # _ \<Rightarrow> Some (None, r, cl, w)
           | Woken w' # waits' \<Rightarrow>
               (case recheck h en r w' of
                  (Inr res, r, w) \<Rightarrow> Some (Some res, r, cl, w)
                | (Inl err, r, w) \<Rightarrow>
                    if hCoordinator h then resolve_loop h en ev acq gone waits' r cl w
                    else map_option (\<lambda>(cl, w). (None, r, cl, w)) (passUpstream h en ev r (\<lambda>l. l) cl w))))"

declare resolve_loop.simps [simp del]

definition resolveMiss ::
  "('c, 'b) handler \<Rightarrow> serve_env \<Rightarrow> pass_events \<Rightarrow> ('c, 'b) world acquisition \<Rightarrow> bool \<Rightarrow> ('c, 'b) world wait list \<Rightarrow> cacheRequest \<Rightarrow> client
    \<Rightarrow> ('c, 'b) world \<Rightarrow> (resource option \<times> cacheRequest \<times> client \<times> ('c, 'b) world) option" where
  "resolveMiss h en ev acq gone waits r cl w =
     (if Has (rCC r) ''only-if-cached'' then Some (None, r, http_Error client_ops ''key not in cache'' 504 cl, w)
      else resolve_loop h en ev acq gone waits r cl (record_metric (CacheMiss (Method (Request r))) w))"

subsection \<open>The entry point\<close>

record ('c, 'b) events =
  evTime :: time
  evPass :: pass_events
  evValidate :: validate_events
  evNeed :: clocks
  evServe :: serve_clocks
  evAcquire :: "('c, 'b) world acquisition"
  evGone :: bool
  evWaits :: "('c, 'b) world wait list"
  evMark :: time
  evPub :: "time \<times> time"

definition serveCacheable ::
  "('c, 'b) handler \<Rightarrow> serve_env \<Rightarrow> ('c, 'b) events \<Rightarrow> cacheRequest \<Rightarrow> client \<Rightarrow> ('c, 'b) world \<Rightarrow> (client \<times> ('c, 'b) world) option" where
  "serveCacheable h en ev r cl w =
     (let serve = (\<lambda>r res cl w. serveCachedResponse h en (evPass ev) (evValidate ev) (evNeed ev) (evServe ev) r res cl w)
      in case lookup (goEnv en) (hOps h) (hShared h) (wmarks w) r (wcache w) of
           (Inr res, r, c) \<Rightarrow> serve r res cl (w\<lparr>wcache := c\<rparr>)
         | (Inl err, r, c) \<Rightarrow>
             let w = w\<lparr>wcache := c\<rparr> in
             if err \<noteq> NotFoundInCache then Some (http_Error client_ops (''lookup error: '' @ errorText en err) 500 cl, w)
             else case resolveMiss h en (evPass ev) (evAcquire ev) (evGone ev) (evWaits ev) r cl w of
                 None \<Rightarrow> None
               | Some (None, r, cl, w) \<Rightarrow> Some (cl, w)
               | Some (Some res, r, cl, w) \<Rightarrow> serve r res cl w)"

definition ServeHTTP ::
  "('c, 'b) handler \<Rightarrow> serve_env \<Rightarrow> ('c, 'b) events \<Rightarrow> request \<Rightarrow> client \<Rightarrow> ('c, 'b) world \<Rightarrow> (client \<times> ('c, 'b) world) option" where
  "ServeHTTP h en ev req cl w =
     (case newCacheRequest (evTime ev) req of
        Inl _ \<Rightarrow> Some (http_Error client_ops ''invalid request: host header can't be empty'' 400 cl, w)
      | Inr r \<Rightarrow>
          (case (case hRequestKey h of None \<Rightarrow> Some (rKey r) | Some policy \<Rightarrow> policy req) of
             None \<Rightarrow> Some (http_Error client_ops ''invalid cache identity'' 400 cl, w)
           | Some key \<Rightarrow>
               let r = r\<lparr>rKey := key\<rparr> in
               if \<not> request_isCacheable r
               then pipeUpstream h en (evMark ev) (evPub ev) r (cl\<lparr>live := Set (live cl) ''X-Cache'' ''SKIP''\<rparr>) (record_metric CacheSkip w)
               else serveCacheable h en ev r cl w))"

end
