(* ===== verification/Delivery.thy ===== *)
theory Delivery
  imports Serve
begin

text \<open>
  What a client receives and when the origin is asked: properties of \<^verbatim>\<open>ServeHTTP\<close> and its parts, across
  the writers, the staging of bodies, the cache and the origin.
\<close>

subsection \<open>Publications of a single request return\<close>

lemma publication_returns:
  assumes "beginLocalPublication t0 at keys h = (fin, h')"
  shows "\<exists>h''. complete_publication t1 fin ok h' = Some h''"
proof (cases fin)
  case None
  then show ?thesis by (simp add: complete_publication_def)
next
  case (Some p)
  obtain at' ks where p: "p = (at', ks)" by (rule prod.exhaust)
  with Some assms have ks: "ks = compact (sort keys)" "h' = foldl begin_one h ks"
    by (auto simp: beginLocalPublication_def Let_def split: if_splits)
  have d: "distinct ks" using ks(1) compact_sorted_distinct [of "sort keys"] by simp
  have "\<forall>k \<in> set ks. map_of (localPublications h') k \<noteq> None" using begun_all(1) [OF d, of h] ks(2) by simp
  with finish_all_ok [OF d] have "\<exists>h''. finish_all at' ok ks (h'\<lparr>localFresh := f\<rparr>) = Some h''" for f
    by (metis (no_types, lifting) handlerMarks.select_convs(4) handlerMarks.surjective handlerMarks.update_convs(3))
  with Some p show ?thesis by (simp add: complete_publication_def finishLocalPublication_def Let_def)
qed

lemma publish_returns: "\<exists>r. publishResource ops t0 t1 res at keys s = Some r"
proof -
  obtain c h where s: "s = (c, h)" by (rule prod.exhaust)
  obtain fin h' where b: "beginLocalPublication t0 at keys h = (fin, h')" by (rule prod.exhaust)
  obtain err c' where "(case opStoreContext ops of Some store \<Rightarrow> store res keys c | None \<Rightarrow> opStore ops res keys c) = (err, c')" by (rule prod.exhaust)
  with publication_returns [OF b, of t1 "err = None"] s b show ?thesis by (auto simp: publishResource_def Let_def)
qed

lemma freshen_returns: "\<exists>r. freshenResource ops t0 t1 res keys s = Some r"
proof -
  obtain c h where s: "s = (c, h)" by (rule prod.exhaust)
  obtain fin h' where b: "beginLocalPublication t0 (RequestTime res) keys h = (fin, h')" by (rule prod.exhaust)
  obtain err res' c' where "opFreshen ops res keys c = (err, res', c')" by (metis surj_pair)
  with publication_returns [OF b, of t1 "err = None"] s b show ?thesis by (auto simp: freshenResource_def Let_def)
qed

lemma store_returns: "\<exists>r. storeResource e ops shared t0 t1 res r' s = Some r"
  unfolding storeResource_def Let_def by (rule publish_returns)

lemma background_returns:
  "\<exists>w'. store_in_background h en ev res r complete stage w = Some w' \<and> asked w' = asked w"
proof -
  obtain err s where "storeResource (goEnv en) (hOps h) (hShared h) (fst (pPub ev)) (snd (pPub ev)) res r (state_of w) = Some (err, s)"
    using store_returns by (metis surj_pair)
  then show ?thesis
    by (auto simp: store_in_background_def record_metric_def with_state_def completed_def close_stage_def Let_def split: prod.splits bool.splits)
qed

subsection \<open>What is on the wire\<close>

text \<open>Changes of the header map after the header was sent do not reach the client.\<close>

definition wire :: "client \<Rightarrow> (int \<times> header) option \<times> (int \<times> header) list \<times> string" where
  "wire cl = (sent cl, interim cl, out cl)"

lemma wire_live [simp]: "wire (cl\<lparr>live := x\<rparr>) = wire cl"
  by (simp add: wire_def)

definition body_of :: "int \<Rightarrow> string \<Rightarrow> string" where
  "body_of st b = (if bodyAllowed st then b else [])"

text \<open>The streamer has sent the header; the connection and the copy receive the same bytes from here on.\<close>

definition under_way :: "(int \<times> header) \<Rightarrow> client \<Rightarrow> client responseStreamer \<Rightarrow> bool" where
  "under_way sh cl s \<longleftrightarrow> headerOnce s \<and> committed s \<and> StatusCode s = fst sh \<and> sent (rw s) = Some sh \<and> interim (rw s) = interim cl
     \<and> out (rw s) = out cl @ body_of (fst sh) (pipe s)"

lemma under_way_call:
  assumes "under_way sh cl s"
  shows "under_way sh cl (writer_call (streamer_ops client_ops) s c)
    \<and> pipe (writer_call (streamer_ops client_ops) s c) = pipe s @ body_written [c]"
  using assms
  by (cases c) (auto simp: under_way_def streamer_ops_def rs_Set_def own_header_def rs_WriteHeader_def rs_Write_def client_ops_def client_Write_def
      body_written_def body_of_def Let_def)

lemma under_way_run:
  "under_way sh cl s \<Longrightarrow> under_way sh cl (run_calls (streamer_ops client_ops) cs s)
    \<and> pipe (run_calls (streamer_ops client_ops) cs s) = pipe s @ body_written cs"
proof (induction cs arbitrary: s)
  case Nil
  then show ?case by (simp add: run_calls_def body_written_def)
next
  case (Cons c cs)
  with under_way_call [of sh cl s c] show ?case by (simp add: run_calls_def body_written_def)
qed

lemma under_way_finish:
  assumes "under_way sh cl s"
  shows "under_way sh cl (finish_origin client_ops rest s) \<and> pipe (finish_origin client_ops rest s) = pipe s @ body_written rest"
  using under_way_run [OF assms, of rest] by (simp add: finish_origin_def rs_Close_def rs_WriteHeader_def under_way_def)

lemma under_way_live:
  assumes "under_way sh cl s" "rw s' = (rw s)\<lparr>live := x\<rparr>" "headerOnce s' = headerOnce s" "committed s' = committed s"
    "StatusCode s' = StatusCode s" "pipe s' = pipe s"
  shows "under_way sh cl s'"
  using assms by (simp add: under_way_def)

lemma under_way_set:
  assumes "under_way sh cl s"
  shows "under_way sh cl (set_live client_ops name v s)"
  using assms by (auto simp: under_way_def set_live_def rs_Set_def own_header_def client_ops_def)

lemma under_way_staging:
  assumes "under_way sh cl s" "deferHeaders s \<Longrightarrow> retainHeader s"
  shows "under_way sh cl (finishStaging client_ops status s)"
  using assms by (auto simp: under_way_def finishStaging_def rs_Set_def own_header_def client_ops_def Let_def)


subsection \<open>Until the header is known\<close>

definition final_status :: "writer_call list \<Rightarrow> int" where
  "final_status cs = (case first_status (\<lambda>_. True) False cs of None \<Rightarrow> 200 | Some s \<Rightarrow> s)"

definition not_begun :: "client \<Rightarrow> client responseStreamer \<Rightarrow> bool" where
  "not_begun cl s \<longleftrightarrow> \<not> headerOnce s \<and> \<not> committed s \<and> clientHeader s = None \<and> pipe s = [] \<and> (deferHeaders s \<longrightarrow> retainHeader s)
     \<and> sent (rw s) = None \<and> interim (rw s) = interim cl \<and> out (rw s) = out cl"

definition header_known :: "client \<Rightarrow> client responseStreamer \<Rightarrow> bool" where
  "header_known cl s \<longleftrightarrow> headerOnce s \<and> responseHeader s \<noteq> None \<and> \<not> informational (StatusCode s) \<and> pipe s = [] \<and> (deferHeaders s \<longrightarrow> retainHeader s)
     \<and> interim (rw s) = interim cl \<and> out (rw s) = out cl
     \<and> (if deferHeaders s then \<not> committed s \<and> sent (rw s) = None
        else committed s \<and> sent (rw s) = Some (StatusCode s, the (responseHeader s)))"

lemma not_begun_edit: "not_begun cl s \<Longrightarrow> not_begun cl (rs_Set client_ops x s)"
  by (auto simp: not_begun_def rs_Set_def own_header_def client_ops_def)

lemma deferHeaders_Set [simp]: "deferHeaders (rs_Set ops x s) = deferHeaders s"
  by (simp add: rs_Set_def)

lemma not_begun_status:
  assumes "not_begun cl s" "\<not> informational st"
  shows "header_known cl (rs_WriteHeader client_ops st s) \<and> StatusCode (rs_WriteHeader client_ops st s) = st
    \<and> deferHeaders (rs_WriteHeader client_ops st s) = deferHeaders s"
  using assms
  by (auto simp: not_begun_def header_known_def rs_WriteHeader_def CommitHeaders_def client_ops_def client_WriteHeader_def rs_Header_def own_header_def Let_def)

lemma wait_headers:
  "not_begun cl s \<Longrightarrow> list_all final_call cs \<Longrightarrow> WaitHeaders client_ops cs s = (s', rest) \<Longrightarrow>
    header_known cl s' \<and> StatusCode s' = final_status cs \<and> deferHeaders s' = deferHeaders s
    \<and> body_written rest = body_written cs \<and> list_all final_call rest"
proof (induction cs arbitrary: s)
  case Nil
  then show ?case using not_begun_status [of cl s 200]
    by (auto simp: rs_Close_def final_status_def informational_def)
next
  case (Cons c cs)
  show ?case
  proof (cases c)
    case (EditHeader f)
    with Cons.prems Cons.IH [OF not_begun_edit] show ?thesis by (auto simp: final_status_def body_written_def)
  next
    case (WriteHeader st)
    with Cons.prems not_begun_status [of cl s st] show ?thesis by (auto simp: final_status_def body_written_def final_call_def)
  next
    case (Write b)
    with Cons.prems not_begun_status [of cl s 200] show ?thesis by (auto simp: final_status_def informational_def)
  next
    case Flush
    with Cons show ?thesis by (auto simp: final_status_def body_written_def)
  qed
qed

lemma header_committed:
  assumes "header_known cl s"
  shows "\<exists>hdr. under_way (StatusCode s, hdr) cl (commitStagingHeaders client_ops req status adm s)
    \<and> pipe (commitStagingHeaders client_ops req status adm s) = []
    \<and> deferHeaders (commitStagingHeaders client_ops req status adm s) = deferHeaders s
    \<and> retainHeader (commitStagingHeaders client_ops req status adm s) = retainHeader s"
  using assms
  by (auto simp: header_known_def under_way_def commitStagingHeaders_def CommitHeaders_def client_ops_def client_WriteHeader_def body_of_def Let_def)

lemma staging_flags [simp]:
  "deferHeaders (run_calls (streamer_ops ops) cs s) = deferHeaders s" "retainHeader (run_calls (streamer_ops ops) cs s) = retainHeader s"
proof -
  have *: "deferHeaders (writer_call (streamer_ops ops) s c) = deferHeaders s" "retainHeader (writer_call (streamer_ops ops) s c) = retainHeader s" for s c
    by (cases c; simp add: streamer_ops_def rs_Set_def rs_WriteHeader_def rs_Write_def CommitHeaders_def Let_def)+
  show "deferHeaders (run_calls (streamer_ops ops) cs s) = deferHeaders s" "retainHeader (run_calls (streamer_ops ops) cs s) = retainHeader s"
    unfolding run_calls_def by (induction cs arbitrary: s) (simp_all add: *)
qed

lemma finish_flags [simp]:
  "deferHeaders (finish_origin ops cs s) = deferHeaders s" "retainHeader (finish_origin ops cs s) = retainHeader s"
  by (simp_all add: finish_origin_def rs_Close_def rs_WriteHeader_def CommitHeaders_def Let_def)

lemma set_live_flags [simp]:
  "deferHeaders (set_live ops n v s) = deferHeaders s" "retainHeader (set_live ops n v s) = retainHeader s"
  by (simp_all add: set_live_def rs_Set_def)

lemma committed_and_finished:
  assumes "header_known cl s"
  shows "\<exists>hdr. under_way (StatusCode s, hdr) cl (finish_origin client_ops rest (commitStagingHeaders client_ops req status adm s))
    \<and> pipe (finish_origin client_ops rest (commitStagingHeaders client_ops req status adm s)) = body_written rest
    \<and> (deferHeaders (finish_origin client_ops rest (commitStagingHeaders client_ops req status adm s))
        \<longrightarrow> retainHeader (finish_origin client_ops rest (commitStagingHeaders client_ops req status adm s)))"
proof -
  obtain hdr where c: "under_way (StatusCode s, hdr) cl (commitStagingHeaders client_ops req status adm s)"
      "pipe (commitStagingHeaders client_ops req status adm s) = []"
      "deferHeaders (commitStagingHeaders client_ops req status adm s) = deferHeaders s"
      "retainHeader (commitStagingHeaders client_ops req status adm s) = retainHeader s"
    using header_committed [OF assms] by blast
  with under_way_finish [OF c(1), of rest] assms show ?thesis by (auto simp: header_known_def)
qed

lemma skip_keeps:
  assumes "under_way sh cl s" "deferHeaders s \<longrightarrow> retainHeader s"
  shows "under_way sh cl (skip_staging client_ops s)"
  unfolding skip_staging_def using assms by (auto intro!: under_way_staging under_way_set)

lemma stamp_keeps:
  assumes "under_way sh cl s" "stamp_received en ev client_ops t (res, s) = (res', s')"
  shows "under_way sh cl s'"
  using assms by (auto simp: stamp_received_def Let_def intro!: under_way_set split: sum.splits)

lemma stage_and_store_delivers:
  assumes s: "header_known cl s" and out: "stage_and_store h en ev client_ops r complete fin t res rest s w = result"
  shows "\<exists>hdr s' w'. result = Some (s', w') \<and> under_way (StatusCode s, hdr) cl s' \<and> pipe s' = body_written rest \<and> asked w' = asked w"
proof -
  obtain made b where st: "newHandlerStage (pCancelled ev) (hBudget h) (pOs ev) (wbudget w) = (made, b)" by (rule prod.exhaust)
  let ?s = "\<lambda>adm. finish_origin client_ops rest (commitStagingHeaders client_ops (Request r) ''MISS'' adm s)"
  obtain hdr where hdr: "under_way (StatusCode s, hdr) cl (?s (\<exists>x. made = Inr x))" "pipe (?s (\<exists>x. made = Inr x)) = body_written rest"
      "deferHeaders (?s (\<exists>x. made = Inr x)) \<longrightarrow> retainHeader (?s (\<exists>x. made = Inr x))"
    using committed_and_finished [OF s] by blast
  have pipes: "pipe (set_live ops n v x) = pipe x" "pipe (finishStaging ops status x) = pipe x" for ops :: "client writer_ops" and n v x status
    by (simp_all add: set_live_def finishStaging_def rs_Set_def Let_def)
  show ?thesis
  proof (cases made)
    case (Inl err)
    then have "result = Some (skip_staging client_ops (?s False), completed complete (w\<lparr>wbudget := b\<rparr>))"
      using out st by (simp add: stage_and_store_def Let_def)
    with Inl hdr skip_keeps [OF hdr(1) hdr(3)] show ?thesis by (auto simp: completed_def skip_staging_def pipes)
  next
    case (Inr stage)
    obtain err stage' b' where f: "fill_stage (hBudget h) (pCopy ev (pipe (?s True))) stage b = (err, stage', b')" by (metis surj_pair)
    show ?thesis
    proof (cases "err \<noteq> None \<or> fin = Aborts \<or> pSeekFails ev")
      case True
      then have "result = Some (skip_staging client_ops (?s True), completed complete (close_stage h (pOsClose ev) stage' (w\<lparr>wbudget := b'\<rparr>)))"
        using out st Inr f by (simp add: stage_and_store_def Let_def)
      with Inr hdr skip_keeps [OF hdr(1) hdr(3)] show ?thesis
        by (auto simp: completed_def close_stage_def skip_staging_def pipes split: prod.split)
    next
      case False
      let ?f = "finishStaging client_ops ''ADMITTED'' (?s True)"
      have fin: "under_way (StatusCode s, hdr) cl ?f" "pipe ?f = body_written rest"
        using hdr Inr by (auto intro!: under_way_staging simp: pipes)
      obtain res' s' where stp: "stamp_received en ev client_ops t (res\<lparr>rbody := contents stage'\<rparr>, ?f) = (res', s')" by (rule prod.exhaust)
      then have "pipe s' = body_written rest" using fin(2) by (auto simp: stamp_received_def pipes Let_def split: sum.splits)
      moreover obtain w' where "store_in_background h en ev res' r complete stage'
            (record_metric (UpstreamDuration (Method (Request r)) (StatusCode ?f)) (w\<lparr>wbudget := b'\<rparr>)) = Some w'" "asked w' = asked w"
        using background_returns [of h en ev res' r complete stage' "record_metric (UpstreamDuration (Method (Request r)) (StatusCode ?f)) (w\<lparr>wbudget := b'\<rparr>)"]
        by (auto simp: record_metric_def)
      ultimately show ?thesis using out st Inr f False stp stamp_keeps [OF fin(1) stp] by (auto simp: stage_and_store_def Let_def)
    qed
  qed
qed


subsection \<open>A miss\<close>

text \<open>Waiting for the header and finishing the origin afterwards is running it.\<close>

lemma WriteHeader_again: "rs_WriteHeader ops st (rs_WriteHeader ops st' s) = rs_WriteHeader ops st' s"
  by (simp add: rs_WriteHeader_def Let_def)

lemma wait_then_finish:
  "WaitHeaders ops cs s = (s', rest) \<Longrightarrow> finish_origin ops rest s' = rs_Close ops (run_calls (streamer_ops ops) cs s)"
proof (induction cs arbitrary: s)
  case Nil
  then show ?case by (auto simp: finish_origin_def run_calls_def rs_Close_def WriteHeader_again)
next
  case (Cons c cs)
  show ?case
  proof (cases c)
    case (EditHeader f)
    with Cons show ?thesis by (simp add: run_calls_def streamer_ops_def)
  next
    case (WriteHeader st)
    with Cons.prems show ?thesis by (auto simp: finish_origin_def run_calls_def streamer_ops_def)
  next
    case (Write b)
    with Cons.prems have "s' = rs_WriteHeader ops 200 s" "rest = Write b # cs" by auto
    then show ?thesis by (simp add: Write finish_origin_def run_calls_def streamer_ops_def rs_Write_def WriteHeader_again Let_def)
  next
    case Flush
    with Cons show ?thesis by (simp add: run_calls_def streamer_ops_def)
  qed
qed

definition start_streamer :: "('c, 'b) handler \<Rightarrow> client \<Rightarrow> client responseStreamer" where
  "start_streamer h cl = set_live client_ops ''X-Cache'' ''MISS''
     ((newResponseStreamer cl)\<lparr>deferHeaders := (hBudget h \<noteq> None), retainHeader := (hBudget h \<noteq> None)\<rparr>)"

definition fetched :: "pass_events \<Rightarrow> 'w responseStreamer \<Rightarrow> resource" where
  "fetched ev s = (NewResource (StatusCode s) [] (the (responseHeader s)))\<lparr>RequestTime := pStart ev\<rparr>"

lemma passUpstream_steps:
  assumes "hUpstream h (asked w) (Request r) = (cs, fin)" "fin \<noteq> Panics" "WaitHeaders client_ops cs (start_streamer h cl) = (s, rest)"
  shows "passUpstream h en ev r complete cl w = map_option (\<lambda>(s, w). (rw s, w))
    (let w' = w\<lparr>asked := asked w @ [Request r]\<rparr> in
     if canStageResponse (goEnv en) (pMax ev) (pHeur ev) (hShared h) (hBudget h \<noteq> None) (fetched ev s) r
     then stage_and_store h en ev client_ops r complete fin (pStart ev) (fetched ev s) rest s w'
     else Some (skip_staging client_ops (finish_origin client_ops rest (commitStagingHeaders client_ops (Request r) ''SKIP'' False s)),
                completed complete w'))"
  using assms
  by (cases "hBudget h")
    (simp_all add: passUpstream_def passUpstreamWithHandler_def contact_def no_hooks_def start_streamer_def fetched_def Let_def)

lemma start_not_begun: "sent cl = None \<Longrightarrow> not_begun cl (start_streamer h cl)"
  unfolding start_streamer_def set_live_def by (rule not_begun_edit) (simp add: not_begun_def newResponseStreamer_def)

lemma pass_delivers:
  assumes fresh: "sent cl = None" and origin: "hUpstream h (asked w) (Request r) = (cs, fin)" "fin \<noteq> Panics" "list_all final_call cs"
  shows "\<exists>hdr cl' w'. passUpstream h en ev r complete cl w = Some (cl', w') \<and> asked w' = asked w @ [Request r]
    \<and> sent cl' = Some (final_status cs, hdr) \<and> interim cl' = interim cl \<and> out cl' = out cl @ body_of (final_status cs) (body_written cs)"
proof -
  obtain s rest where wait: "WaitHeaders client_ops cs (start_streamer h cl) = (s, rest)" by (rule prod.exhaust)
  note steps = passUpstream_steps [OF origin(1,2) wait, of en ev complete]
  have s: "header_known cl s" "StatusCode s = final_status cs" "body_written rest = body_written cs"
    using wait_headers [OF start_not_begun [OF fresh] origin(3) wait] by blast+
  let ?w = "w\<lparr>asked := asked w @ [Request r]\<rparr>"
  obtain hdr s' w' where d: "under_way (final_status cs, hdr) cl s'" "pipe s' = body_written cs" "asked w' = asked w @ [Request r]"
    and p: "passUpstream h en ev r complete cl w = Some (rw s', w')"
  proof (cases "canStageResponse (goEnv en) (pMax ev) (pHeur ev) (hShared h) (hBudget h \<noteq> None) (fetched ev s) r")
    case True
    obtain hdr s' w' where "stage_and_store h en ev client_ops r complete fin (pStart ev) (fetched ev s) rest s ?w = Some (s', w')"
        "under_way (StatusCode s, hdr) cl s'" "pipe s' = body_written rest" "asked w' = asked ?w"
      using stage_and_store_delivers [OF s(1) refl] by blast
    with True s steps show ?thesis by (intro that [of hdr s' w']) simp_all
  next
    case False
    let ?f = "finish_origin client_ops rest (commitStagingHeaders client_ops (Request r) ''SKIP'' False s)"
    obtain hdr where hdr: "under_way (StatusCode s, hdr) cl ?f" "pipe ?f = body_written rest" "deferHeaders ?f \<longrightarrow> retainHeader ?f"
      using committed_and_finished [OF s(1)] by blast
    have "pipe (skip_staging client_ops ?f) = pipe ?f" by (simp add: skip_staging_def set_live_def finishStaging_def rs_Set_def Let_def)
    with False s steps hdr skip_keeps [OF hdr(1) hdr(3)] show ?thesis
      by (intro that [of hdr "skip_staging client_ops ?f" "completed complete ?w"]) (simp_all add: completed_def)
  qed
  then show ?thesis by (auto simp: under_way_def)
qed



subsection \<open>Every path finishes the flight\<close>

lemma finish_around_write:
  "beginWrite l = (True, l') \<Longrightarrow> endWrite (finishMiss key f l') = finishMiss key f l"
  by (auto simp: beginWrite_def endWrite_def finishMiss_def split: if_splits)

lemma stored_life:
  assumes "store_in_background h en ev res r (finishMiss key f) stage w = Some w'"
  shows "wlife w' = finishMiss key f (wlife w)"
  using assms finish_around_write [of "wlife w"]
  by (auto simp: store_in_background_def record_metric_def with_state_def completed_def close_stage_def Let_def
      split: prod.splits bool.splits option.splits)

lemma staged_life:
  assumes "stage_and_store h en ev ops r (finishMiss key f) fin t res rest s w = Some (s', w')"
  shows "wlife w' = finishMiss key f (wlife w)"
proof -
  obtain made b where st: "newHandlerStage (pCancelled ev) (hBudget h) (pOs ev) (wbudget w) = (made, b)" by (rule prod.exhaust)
  show ?thesis
  proof (cases made)
    case (Inl err)
    with assms st show ?thesis by (auto simp: stage_and_store_def completed_def Let_def)
  next
    case (Inr stage)
    let ?p = "pipe (finish_origin ops rest (commitStagingHeaders ops (Request r) ''MISS'' True s))"
    obtain err stage' b' where f: "fill_stage (hBudget h) (pCopy ev ?p) stage b = (err, stage', b')" by (metis surj_pair)
    show ?thesis
    proof (cases "err \<noteq> None \<or> fin = Aborts \<or> pSeekFails ev")
      case True
      with assms st Inr f show ?thesis by (auto simp: stage_and_store_def completed_def close_stage_def Let_def split: prod.splits)
    next
      case False
      with assms st Inr f show ?thesis
        by (auto simp: stage_and_store_def Let_def record_metric_def split: prod.splits dest!: stored_life)
    qed
  qed
qed



subsection \<open>Unsafe requests\<close>

text \<open>
  \<^verbatim>\<open>pipeUpstream\<close> for a request that changes state, as two goroutines: the origin makes its calls and blocks in
  the one that publishes the status until the header is committed; the handler waits for the status, invalidates, and
  commits.
\<close>

datatype pipe_phase = Awaiting | Invalidated | Draining

type_synonym 'c pipe_state = "writer_call list \<times> client responseStreamer \<times> pipe_phase \<times> 'c \<times> handlerMarks"

definition origin_blocked :: "'w responseStreamer \<Rightarrow> bool" where
  "origin_blocked s \<longleftrightarrow> headerOnce s \<and> deferHeaders s \<and> \<not> committed s"

definition pipe_invalidate ::
  "('c, 'b) handler \<Rightarrow> serve_env \<Rightarrow> time \<Rightarrow> cacheRequest \<Rightarrow> client responseStreamer \<Rightarrow> 'c \<times> handlerMarks \<Rightarrow> 'c \<times> handlerMarks" where
  "pipe_invalidate h en now r s st =
     (let res = NewResource (StatusCode s) [] (the (responseHeader s))
      in if IsNonErrorStatus res then invalidateResource (ipLiteral en) (goEnv en) (hOps h) now (hRequestKey h) res r st else st)"

inductive pipe_step :: "('c, 'b) handler \<Rightarrow> serve_env \<Rightarrow> time \<Rightarrow> cacheRequest \<Rightarrow> 'c pipe_state \<Rightarrow> 'c pipe_state \<Rightarrow> bool" for h en now r where
  call: "pipe_step h en now r (c # cs, s, ph, st) (cs, writer_call (streamer_ops client_ops) s c, ph, st)"
    if "\<not> origin_blocked s" "headerOnce s \<or> (\<forall>b. c \<noteq> Write b)"
| implicit: "pipe_step h en now r (Write b # cs, s, ph, st) (Write b # cs, rs_WriteHeader client_ops 200 s, ph, st)"
    if "\<not> headerOnce s"
| returns: "pipe_step h en now r ([], s, ph, st) ([], rs_Close client_ops s, ph, st)"
    if "\<not> origin_blocked s"
| invalidate: "pipe_step h en now r (cs, s, Awaiting, st) (cs, s, Invalidated, pipe_invalidate h en now r s st)"
    if "headerOnce s"
| commit: "pipe_step h en now r (cs, s, Invalidated, st) (cs, CommitHeaders client_ops s, Draining, st)"

definition pipe_streamer :: "client \<Rightarrow> client responseStreamer" where
  "pipe_streamer cl = (newResponseStreamer cl)\<lparr>deferHeaders := True\<rparr>"

definition pipe_ok :: "('c, 'b) handler \<Rightarrow> serve_env \<Rightarrow> time \<Rightarrow> cacheRequest \<Rightarrow> client \<Rightarrow> 'c \<times> handlerMarks \<Rightarrow> 'c pipe_state \<Rightarrow> bool" where
  "pipe_ok h en now r cl st0 p \<longleftrightarrow> (case p of (cs, s, ph, st) \<Rightarrow>
     deferHeaders s \<and> \<not> retainHeader s \<and> clientHeader s = None
     \<and> (ph \<noteq> Awaiting \<longrightarrow> headerOnce s) \<and> (committed s \<longleftrightarrow> ph = Draining) \<and> (\<not> committed s \<longrightarrow> rw s = cl)
     \<and> (ph = Awaiting \<longrightarrow> st = st0) \<and> (ph \<noteq> Awaiting \<longrightarrow> st = pipe_invalidate h en now r s st0)
     \<and> (headerOnce s \<longrightarrow> responseHeader s \<noteq> None \<and> \<not> informational (StatusCode s)) \<and> list_all final_call cs
     \<and> (committed s \<longrightarrow> map_option fst (sent (rw s)) = Some (StatusCode s)))"

lemma rs_call_blocked:
  assumes "headerOnce s"
  shows "headerOnce (writer_call (streamer_ops client_ops) s c)" "StatusCode (writer_call (streamer_ops client_ops) s c) = StatusCode s"
    "responseHeader (writer_call (streamer_ops client_ops) s c) = responseHeader s" "committed (writer_call (streamer_ops client_ops) s c) = committed s"
    "deferHeaders (writer_call (streamer_ops client_ops) s c) = deferHeaders s" "retainHeader (writer_call (streamer_ops client_ops) s c) = retainHeader s"
    "clientHeader (writer_call (streamer_ops client_ops) s c) = clientHeader s"
    "sent (rw s) \<noteq> None \<Longrightarrow> sent (rw (writer_call (streamer_ops client_ops) s c)) = sent (rw s)"
  using assms
  by (cases c; auto simp: streamer_ops_def rs_Set_def rs_WriteHeader_def rs_Write_def client_ops_def client_Write_def client_WriteHeader_def Let_def)+

lemma pipe_ok_step:
  assumes step: "pipe_step h en now r p p'" and ok: "pipe_ok h en now r cl st0 p" and fresh: "sent cl = None"
  shows "pipe_ok h en now r cl st0 p'"
  using step
proof cases
  case (call s c cs ph st)
  show ?thesis
  proof (cases "headerOnce s")
    case True
    then have "committed s" using call ok by (auto simp: origin_blocked_def pipe_ok_def)
    with True call ok rs_call_blocked [OF True, of c] show ?thesis
      by (auto simp: pipe_ok_def pipe_invalidate_def)
  next
    case False
    with call ok show ?thesis
      by (cases c) (auto simp: pipe_ok_def streamer_ops_def rs_Set_def rs_WriteHeader_def own_header_def final_call_def Let_def)
  qed
next
  case (implicit s b cs ph st)
  with ok show ?thesis by (auto simp: pipe_ok_def rs_WriteHeader_def informational_def Let_def)
next
  case (returns s ph st)
  with ok show ?thesis by (auto simp: pipe_ok_def rs_Close_def rs_WriteHeader_def informational_def Let_def)
next
  case (invalidate s cs st)
  with ok show ?thesis by (auto simp: pipe_ok_def)
next
  case (commit cs s st)
  with ok fresh show ?thesis
    by (auto simp: pipe_ok_def CommitHeaders_def client_ops_def client_WriteHeader_def pipe_invalidate_def Let_def)
qed


lemma pipe_ok_start: "list_all final_call cs \<Longrightarrow> pipe_ok h en now r cl st0 (cs, pipe_streamer cl, Awaiting, st0)"
  by (simp add: pipe_ok_def pipe_streamer_def newResponseStreamer_def)

lemma pipe_ok_steps:
  assumes "(pipe_step h en now r)\<^sup>*\<^sup>* (cs, pipe_streamer cl, Awaiting, st0) p" "sent cl = None" "list_all final_call cs"
  shows "pipe_ok h en now r cl st0 p"
  using assms(1)
proof (induction rule: rtranclp_induct)
  case base
  show ?case by (rule pipe_ok_start [OF assms(3)])
next
  case (step p p')
  then show ?case using pipe_ok_step assms(2) by blast
qed


subsection \<open>The sequential run is one of them\<close>

lemma pipe_wait:
  "deferHeaders s \<Longrightarrow> \<not> headerOnce s \<Longrightarrow> WaitHeaders client_ops cs s = (s', rest) \<Longrightarrow>
    (pipe_step h en now r)\<^sup>*\<^sup>* (cs, s, Awaiting, st) (rest, s', Awaiting, st) \<and> headerOnce s' \<and> deferHeaders s'"
proof (induction cs arbitrary: s)
  case Nil
  then have "pipe_step h en now r ([], s, Awaiting, st) (rest, s', Awaiting, st)"
    using returns [of s h en now r] by (auto simp: origin_blocked_def)
  with Nil show ?case by (auto simp: rs_Close_def rs_WriteHeader_def Let_def)
next
  case (Cons c cs)
  let ?s = "writer_call (streamer_ops client_ops) s c"
  have step: "pipe_step h en now r (c # cs, s, Awaiting, st) (cs, ?s, Awaiting, st)" if "\<forall>b. c \<noteq> Write b"
    using Cons.prems that by (auto intro: call simp: origin_blocked_def)
  show ?case
  proof (cases c)
    case (EditHeader f)
    then have "deferHeaders ?s" "\<not> headerOnce ?s" "WaitHeaders client_ops cs ?s = (s', rest)"
      using Cons.prems by (auto simp: streamer_ops_def rs_Set_def)
    from Cons.IH [OF this] step EditHeader show ?thesis by (auto intro: converse_rtranclp_into_rtranclp)
  next
    case (WriteHeader status)
    with Cons.prems step show ?thesis by (auto simp: streamer_ops_def rs_WriteHeader_def Let_def)
  next
    case (Write b)
    then have eq: "s' = rs_WriteHeader client_ops 200 s" "rest = c # cs" using Cons.prems by auto
    have "pipe_step h en now r (c # cs, s, Awaiting, st) (rest, s', Awaiting, st)"
      unfolding eq Write using Cons.prems(2) by (rule implicit)
    then show ?thesis using Cons.prems eq by (auto simp: rs_WriteHeader_def Let_def)
  next
    case Flush
    then have "deferHeaders ?s" "\<not> headerOnce ?s" "WaitHeaders client_ops cs ?s = (s', rest)"
      using Cons.prems by (auto simp: streamer_ops_def)
    from Cons.IH [OF this] step Flush show ?thesis by (auto intro: converse_rtranclp_into_rtranclp)
  qed
qed

lemma pipe_drain:
  "headerOnce s \<Longrightarrow> committed s \<Longrightarrow>
    (pipe_step h en now r)\<^sup>*\<^sup>* (cs, s, Draining, st) ([], finish_origin client_ops cs s, Draining, st)"
proof (induction cs arbitrary: s)
  case Nil
  then have "pipe_step h en now r ([], s, Draining, st) ([], rs_Close client_ops s, Draining, st)"
    by (intro returns) (simp add: origin_blocked_def)
  then show ?case by (simp add: finish_origin_def run_calls_def r_into_rtranclp)
next
  case (Cons c cs)
  let ?s = "writer_call (streamer_ops client_ops) s c"
  have "pipe_step h en now r (c # cs, s, Draining, st) (cs, ?s, Draining, st)" using Cons.prems by (auto intro: call simp: origin_blocked_def)
  moreover have "(pipe_step h en now r)\<^sup>*\<^sup>* (cs, ?s, Draining, st) ([], finish_origin client_ops cs ?s, Draining, st)"
    using Cons.IH rs_call_blocked [OF Cons.prems(1), of c] Cons.prems(2) by simp
  ultimately show ?case by (simp add: finish_origin_def run_calls_def converse_rtranclp_into_rtranclp)
qed

lemma pipe_is_interleaving:
  assumes "isStateChanging r" "hUpstream h (asked w) (Request r) = (cs, fin)" "fin \<noteq> Panics"
    and p: "pipeUpstream h en now pub r cl w = Some (cl', w')"
  shows "\<exists>s. (pipe_step h en now r)\<^sup>*\<^sup>* (cs, pipe_streamer cl, Awaiting, state_of w) ([], s, Draining, state_of w') \<and> rw s = cl'"
proof -
  obtain s rest where wait: "WaitHeaders client_ops cs (pipe_streamer cl) = (s, rest)" by (rule prod.exhaust)
  have ws: "(pipe_step h en now r)\<^sup>*\<^sup>* (cs, pipe_streamer cl, Awaiting, state_of w) (rest, s, Awaiting, state_of w)" "headerOnce s"
    using pipe_wait [OF _ _ wait, of h en now r "state_of w"] by (simp_all add: pipe_streamer_def newResponseStreamer_def)
  let ?st = "pipe_invalidate h en now r s (state_of w)" and ?c = "CommitHeaders client_ops s"
  have "headerOnce ?c" using ws(2) by simp
  from pipe_drain [OF this, of h en now r rest ?st] have
    drain: "(pipe_step h en now r)\<^sup>*\<^sup>* (rest, ?c, Draining, ?st) ([], finish_origin client_ops rest ?c, Draining, ?st)" by simp
  have "pipe_step h en now r (rest, s, Awaiting, state_of w) (rest, s, Invalidated, ?st)" by (rule invalidate [OF ws(2)])
  moreover have "pipe_step h en now r (rest, s, Invalidated, ?st) (rest, ?c, Draining, ?st)" by (rule commit)
  ultimately have "(pipe_step h en now r)\<^sup>*\<^sup>* (cs, pipe_streamer cl, Awaiting, state_of w) ([], finish_origin client_ops rest ?c, Draining, ?st)"
    using ws(1) drain by (meson converse_rtranclp_into_rtranclp rtranclp_trans)
  moreover have "cl' = rw (finish_origin client_ops rest ?c)" "state_of w' = ?st"
    using p assms(1-3) wait
    by (auto simp: pipeUpstream_def contact_def pipe_streamer_def pipe_invalidate_def with_state_def state_of_def Let_def split: if_splits)
  ultimately show ?thesis by auto
qed


subsection \<open>Answers without the origin\<close>

lemma lookup_request:
  assumes "lookupUsing e ops shared h req get c = (res, req', c')"
  shows "Request req' = Request req \<and> rKey req' = rKey req \<and> rCC req' = rCC req \<and> rTime req' = rTime req"
proof -
  obtain r lk req1 c1 where b: "lookupBaseUsing e shared req (with_evidence h get) c = (r, lk, req1, c1)" by (metis prod_cases4)
  then have "Request req1 = Request req \<and> rKey req1 = rKey req \<and> rCC req1 = rCC req \<and> rTime req1 = rTime req"
    by (auto simp: lookupBaseUsing_def Let_def split: prod.splits if_splits sum.splits)
  then show ?thesis
    using assms by (auto simp: lookupUsing_def lookupVaryResource_def b Let_def split: sum.splits if_splits prod.splits)
qed

lemma error_sent:
  assumes "sent cl = None" "\<not> informational st"
  shows "map_option fst (sent (http_Error client_ops msg st cl)) = Some st"
  using assms by (simp add: http_Error_def run_calls_def client_ops_def client_WriteHeader_def client_Write_def Let_def)

lemma cacheable_only_if_cached:
  assumes fresh: "sent cl = None" and only: "Has (rCC r) ''only-if-cached''"
  shows "\<exists>cl' w'. serveCacheable h en ev r cl w = Some (cl', w') \<and> asked w' = asked w
    \<and> (recorded w' = recorded w @ [CacheHit (Method (Request r))]
       \<or> recorded w' = recorded w \<and> map_option fst (sent cl') \<in> {Some 504, Some 500})"
proof -
  have err: "\<not> informational 504" "\<not> informational 500" by (simp_all add: informational_def)
  obtain found r' c where l: "lookup (goEnv en) (hOps h) (hShared h) (wmarks w) r (wcache w) = (found, r', c)" by (metis prod_cases3)
  then have r': "Request r' = Request r" "rCC r' = rCC r" using lookup_request [OF l [unfolded lookup_def]] by simp_all
  show ?thesis
  proof (cases found)
    case (Inl e)
    with l r' only err error_sent [OF fresh] show ?thesis
      by (auto simp: serveCacheable_def resolveMiss_def Let_def)
  next
    case (Inr res)
    with l r' only err error_sent [OF fresh] show ?thesis
      by (cases "needsValidation (goEnv en) (evNeed ev) (hShared h) res r'")
        (auto simp: serveCacheable_def serveCachedResponse_def validateCachedResponse_def record_metric_def Let_def)
  qed
qed

text \<open>
  C20: A request with only-if-cached that the cache considers is answered without the origin: it is served from the cache and counted as
  a hit, or it is answered 504 (or 500 when the lookup fails); the origin is not asked, whatever the cache holds.
\<close>

theorem only_if_cached_stays_local:
  assumes fresh: "sent cl = None" and req: "newCacheRequest (evTime ev) req = Inr r" "hRequestKey h = None" "request_isCacheable r"
    and only: "Has (ParseCacheControlHeaders (reqHeader req)) ''only-if-cached''"
  shows "\<exists>cl' w'. ServeHTTP h en ev req cl w = Some (cl', w') \<and> asked w' = asked w
    \<and> (recorded w' = recorded w @ [CacheHit (Method req)] \<or> recorded w' = recorded w \<and> map_option fst (sent cl') \<in> {Some 504, Some 500})"
proof -
  have r: "rCC r = ParseCacheControlHeaders (reqHeader req)" "Request r = req"
    using req(1) by (auto simp: newCacheRequest_def split: if_splits)
  from cacheable_only_if_cached [OF fresh, of r h en ev w] only r req show ?thesis by (simp add: ServeHTTP_def Let_def)
qed

text \<open>A request that is not cacheable for another reason is passed to the origin even so.\<close>

lemma only_if_cached_may_ask:
  assumes "newCacheRequest (evTime ev) req = Inr r" "hRequestKey h = None" "\<not> request_isCacheable r" "Method req = ''GET''"
    and "hUpstream h (asked w) req = (cs, Returns)"
  shows "\<exists>cl' w'. ServeHTTP h en ev req cl w = Some (cl', w') \<and> asked w' = asked w @ [req]"
proof -
  have r: "Request r = req" using assms(1) by (auto simp: newCacheRequest_def split: if_splits)
  then have "\<not> isStateChanging (r\<lparr>rKey := rKey r\<rparr>)" using assms(4) by (simp add: isStateChanging_def)
  with r assms show ?thesis
    by (auto simp: ServeHTTP_def pipeUpstream_def contact_def record_metric_def Let_def split: prod.split)
qed

subsection \<open>Hits\<close>

definition plain_request :: "request \<Rightarrow> bool" where
  "plain_request req \<longleftrightarrow> Method req = ''GET''
     \<and> (\<forall>name \<in> {''If-Match'', ''If-Unmodified-Since'', ''If-None-Match'', ''If-Modified-Since'', ''Range''}. Get (reqHeader req) name = [])"

lemma no_conditions: "plain_request req \<Longrightarrow> checkPreconditions e h t req = None"
  by (simp add: plain_request_def checkPreconditions_def checkIfMatch_def checkIfUnmodifiedSince_def checkIfNoneMatch_def checkIfModifiedSince_def
      since_def Let_def)

lemma age_name:
  "CanonicalHeaderKey ''Age'' \<noteq> CanonicalHeaderKey ''Content-Type''" "CanonicalHeaderKey ''Age'' \<noteq> CanonicalHeaderKey ''Accept-Ranges''"
  "CanonicalHeaderKey ''Age'' \<noteq> CanonicalHeaderKey ''Content-Length''" "CanonicalHeaderKey ''Age'' \<noteq> CanonicalHeaderKey ''Last-Modified''"
  "CanonicalHeaderKey ''Age'' \<noteq> CanonicalHeaderKey ''Via''"
  by code_simp+

lemma Get_age:
  "Get (Set h ''Content-Type'' v) ''Age'' = Get h ''Age''" "Get (Set h ''Accept-Ranges'' v) ''Age'' = Get h ''Age''"
  "Get (Set h ''Content-Length'' v) ''Age'' = Get h ''Age''" "Get (Set h ''Last-Modified'' v) ''Age'' = Get h ''Age''"
  "Get (Set h ''Via'' v) ''Age'' = Get h ''Age''" "Get (Set h ''Age'' v) ''Age'' = v"
  using age_name by (simp_all add: Get_Set)

lemma ServeContent_plain:
  assumes "plain_request req" "sent cl = None"
  shows "\<exists>hdr. sent (ServeContent en t req body cl) = Some (200, hdr) \<and> out (ServeContent en t req body cl) = out cl @ body
    \<and> Get hdr ''Age'' = Get (live cl) ''Age''"
  using assms no_conditions [OF assms(1)]
  by (simp add: ServeContent_def plain_request_def client_WriteHeader_def client_Write_def informational_def bodyAllowed_def setLastModified_def
      Get_age Let_def del: Get_Set)

lemma served_age: "Get (serve_header en ck shared res r age h) ''Age'' = FloorSeconds en age"
  by (simp add: serve_header_def Get_age Let_def del: Get_Set)

text \<open>
  A stored response that needs no validation is served as it was stored, without asking the origin: a plain \<^verbatim>\<open>GET\<close> is answered with its
  status and its whole body, and one hit is counted.
\<close>

lemma hit_is_served:
  assumes fresh: "sent cl = None" and plain: "plain_request (Request r)" and ok: "\<not> needsValidation (goEnv en) need (hShared h) res r"
    and age: "Age (goEnv en) (sAge ck) (res\<lparr>rheader := Set (rheader res) ''X-Cache'' ''HIT''\<rparr>) = Some d"
    and status: "statusCode res = 200 \<or> 300 \<le> statusCode res"
  shows "\<exists>hdr cl'. serveCachedResponse h en ev ve need ck r res cl w = Some (cl', record_metric (CacheHit ''GET'') w)
    \<and> sent cl' = Some (statusCode res, hdr) \<and> Get hdr ''Age'' = FloorSeconds en d
    \<and> out cl' = out cl @ body_of (statusCode res) (rbody res)"
proof -
  let ?res = "res\<lparr>rheader := Set (rheader res) ''X-Cache'' ''HIT''\<rparr>"
  let ?h = "serve_header en ck (hShared h) ?res r d (foldl (\<lambda>d (name, values). foldl (\<lambda>d v. Add d name v) d values) (live cl) (rheader ?res))"
  let ?cl = "serveResource en ck (hShared h) ?res r cl"
  have m: "Method (Request r) = ''GET''" using plain by (simp add: plain_request_def)
  have nc: "newClientPreconditionWriter client_ops x (Request r) = Inl x" for x
    using plain by (simp add: newClientPreconditionWriter_def plain_request_def)
  have "\<exists>hdr. sent ?cl = Some (statusCode res, hdr) \<and> Get hdr ''Age'' = FloorSeconds en d \<and> out ?cl = out cl @ body_of (statusCode res) (rbody res)"
  proof (cases "statusCode res = 200")
    case True
    then have "?cl = ServeContent en (LastModified (goEnv en) ?res) (Request r) (rbody res) (cl\<lparr>live := ?h\<rparr>)"
      using age by (simp add: serveResource_def Let_def)
    with ServeContent_plain [OF plain, of "cl\<lparr>live := ?h\<rparr>" en "LastModified (goEnv en) ?res" "rbody res"] fresh True show ?thesis
      by (auto simp: body_of_def bodyAllowed_def served_age)
  next
    case False
    with status have "\<not> informational (statusCode res)" by (simp add: informational_def)
    with False fresh age nc served_age show ?thesis
      by (auto simp: serveResource_def run_calls_def precondition_ops_def client_ops_def client_WriteHeader_def client_Write_def body_of_def Let_def)
  qed
  with ok m show ?thesis by (auto simp: serveCachedResponse_def Let_def)
qed

subsection \<open>Origins that panic or send hints\<close>

text \<open>
  The goroutine that runs an origin for the streamer does not recover: a panic in the origin, which \<^verbatim>\<open>net/http\<close> would
  contain to the connection, ends the process. The exchange of a validation recovers.
\<close>

lemma origin_panic_ends_process:
  assumes "hUpstream h (asked w) (Request r) = (cs, Panics)"
  shows "passUpstream h en ev r complete cl w = None" "pipeUpstream h en now pub r cl w = None"
  using assms
  by (auto simp: passUpstream_def passUpstreamWithHandler_def pipeUpstream_def contact_def Let_def split: prod.split)

lemma validation_recovers_panic: "exchanged (cs, Panics) = (fst (exchanged (cs, Panics)), False)"
  by (simp add: exchanged_def ve_serve_def Let_def)

text \<open>
  An unsafe request whose origin sends an informational status before it succeeds is answered with success, and nothing is
  invalidated.
\<close>

lemma early_hints_skip_invalidation:
  assumes "isStateChanging r" "sent cl = None" "hUpstream h (asked w) (Request r) = ([WriteHeader 103, WriteHeader 200, Write b], Returns)"
  shows "\<exists>cl' w'. pipeUpstream h en now pub r cl w = Some (cl', w') \<and> map_option fst (sent cl') = Some 200 \<and> state_of w' = state_of w"
  using assms
  by (simp add: pipeUpstream_def contact_def newResponseStreamer_def rs_WriteHeader_def CommitHeaders_def finish_origin_def run_calls_def
      streamer_ops_def rs_Write_def rs_Close_def client_ops_def client_WriteHeader_def client_Write_def informational_def
      NewResource_def IsNonErrorStatus_def state_of_def Let_def)

subsection \<open>Examples\<close>

definition example_env :: serve_env where
  "example_env = \<lparr>ipLiteral = no_literal, goEnv = seconds_env, CeilSeconds = \<lambda>d. Itoa (- (- d div 1000000000)), FloorSeconds = \<lambda>d. Itoa (d div 1000000000),
     DetectContentType = \<lambda>_. ''text/plain; charset=utf-8'', rangeAnswer = \<lambda>_ _ _. [WriteHeader 416], errorText = \<lambda>_. []\<rparr>"

definition example_pass :: pass_events where
  "example_pass = \<lparr>pStart = 1, pMax = 2, pHeur = 2, pCancelled = False, pOs = unix_events, pOsClose = unix_events,
     pCopy = \<lambda>b. [\<lparr>chunk = b, wcancelled = False, taken = length b, werr = False\<rparr>], pSeekFails = False, pResp = 3, pAge = 3, pProxy = 3, pPub = (4, 5)\<rparr>"

definition example_validate :: validate_events where
  "example_validate = \<lparr>vGone1 = False, vGone2 = False, vGone3 = False, vGone4 = False, vFence = 2, vStart = 3, vApply = (4, 4, 4, 4), vRetry = 4, vMax = 4, vHeur = 4,
     vMax304 = 4, vHeur304 = 4, vFresh = (4, 5), vRefence = 5, vRefetch = 6, vRebuild = 6, vGoneRebuild = False, vGoneTrailers = False\<rparr>"

definition example_handler :: "counted budget_ops option \<Rightarrow> writer_call list \<Rightarrow> ((string, string) gomap cache, counted) handler" where
  "example_handler budget calls = \<lparr>hShared = True, hOps = mem_ops 20, hUpstream = \<lambda>_ _. (calls, Returns), hBudget = budget, hRequestKey = None, hCoordinator = False\<rparr>"

definition example_start :: "((string, string) gomap cache, counted) world" where
  "example_start = \<lparr>wcache = empty_cache [] False DefaultCacheConfig, wmarks = no_marks True, wbudget = empty_budget 3,
     wlife = snd (snd (claimMiss ''GET:/o'' new_lifecycle)), asked = [], recorded = []\<rparr>"

definition example_calls :: "writer_call list" where
  "example_calls = [EditHeader (\<lambda>h. Set h ''Cache-Control'' ''max-age=60''), WriteHeader 200, Write ''hello'']"

lemma example_calls_final: "list_all final_call example_calls" "final_status example_calls = 200" "body_written example_calls = ''hello''"
  by (simp_all add: example_calls_def final_call_def final_status_def informational_def body_written_def)



lemma example_post_answered:
  "\<exists>hdr cl' w'. pipeUpstream (example_handler None example_calls) example_env 5 (6, 7) example_post fresh_client example_start = Some (cl', w')
    \<and> sent cl' = Some (200, hdr)"
proof -
  have "isStateChanging example_post" by code_simp
  then show ?thesis
    by (simp add: pipeUpstream_def contact_def newResponseStreamer_def rs_WriteHeader_def rs_Set_def own_header_def CommitHeaders_def finish_origin_def run_calls_def
        streamer_ops_def rs_Write_def rs_Close_def client_ops_def client_WriteHeader_def client_Write_def informational_def
        example_handler_def example_calls_def fresh_client_def Let_def)
qed


definition local_request :: request where
  "local_request = (example_request [(''Cache-Control'', [''only-if-cached''])])"

definition example_events :: "((string, string) gomap cache, counted) events" where
  "example_events = \<lparr>evTime = 1, evPass = example_pass, evValidate = example_validate, evNeed = (2, 2, 2), evServe = \<lparr>sAge = 3, sHeur = 3, sFresh = (3, 3, 3)\<rparr>,
     evAcquire = Refused True, evGone = False, evWaits = [], evMark = 5, evPub = (6, 7)\<rparr>"

theorem only_if_cached_stays_local_witness:
  "\<exists>cl' w'. ServeHTTP (example_handler None example_calls) example_env example_events local_request fresh_client example_start = Some (cl', w') \<and> asked w' = []"
proof -
  obtain r where r: "newCacheRequest (evTime example_events) local_request = Inr r" "Request r = local_request" "rCC r = ParseCacheControlHeaders (reqHeader local_request)"
    by (auto simp: newCacheRequest_def local_request_def example_request_def)
  have "request_isCacheable (projr (newCacheRequest (evTime example_events) local_request))" by code_simp
  then have "request_isCacheable r" using r by simp
  moreover have "Has (ParseCacheControlHeaders (reqHeader local_request)) ''only-if-cached''" by code_simp
  ultimately show ?thesis
    using only_if_cached_stays_local [of fresh_client example_events local_request r "example_handler None example_calls" example_env example_start] r
    by (auto simp: fresh_client_def example_handler_def example_start_def)
qed

end
