(* ===== verification/Round_Trip.thy ===== *)
theory Round_Trip
  imports Delivery
begin

text \<open>
  Two requests through the whole program: what one request fetched and the handler reported as stored is what the next
  request for the same key is served, without the origin.
\<close>

text \<open>The resource that a miss hands to the cache, from the streamer at the time its header is known.\<close>

definition stored_copy :: "serve_env \<Rightarrow> pass_events \<Rightarrow> bool \<Rightarrow> client responseStreamer \<Rightarrow> string \<Rightarrow> resource" where
  "stored_copy en ev shared s body =
     (let res = fst (stamp_received en ev client_ops (pStart ev) ((fetched ev s)\<lparr>rbody := body\<rparr>, s))
      in if shared then RemovePrivateHeaders res else res)"

lemma RemovePrivate_fields [simp]:
  "statusCode (RemovePrivateHeaders res) = statusCode res" "rbody (RemovePrivateHeaders res) = rbody res"
  "RequestTime (RemovePrivateHeaders res) = RequestTime res"
  by (simp_all add: RemovePrivateHeaders_def Let_def split: option.split)

lemma stamped_resource:
  "stamp_received en ev ops t (res, s) = (res', s') \<Longrightarrow> fst (stamp_received en ev ops' t (res, s2)) = res'
    \<and> statusCode res' = statusCode res \<and> rbody res' = rbody res \<and> RequestTime res' = RequestTime res"
  by (auto simp: stamp_received_def Let_def split: sum.splits)

lemma stored_copy_fields [simp]:
  "statusCode (stored_copy en ev shared s body) = StatusCode s" "rbody (stored_copy en ev shared s body) = body"
  "RequestTime (stored_copy en ev shared s body) = pStart ev"
proof -
  obtain res s' where "stamp_received en ev client_ops (pStart ev) ((fetched ev s)\<lparr>rbody := body\<rparr>, s) = (res, s')" by (rule prod.exhaust)
  with stamped_resource [OF this, of client_ops s] show "statusCode (stored_copy en ev shared s body) = StatusCode s"
    "rbody (stored_copy en ev shared s body) = body" "RequestTime (stored_copy en ev shared s body) = pStart ev"
    by (simp_all add: stored_copy_def fetched_def NewResource_def)
qed

text \<open>A copy that meets no error is complete, whatever it was charged to.\<close>

lemma copy_complete: "copy_stage budget lease ws (f, b) = (None, f', b') \<Longrightarrow> f' = f @ concat (map chunk ws)"
proof (induction ws arbitrary: f b)
  case Nil
  then show ?case by simp
next
  case (Cons w ws)
  obtain n err f1 b1 where w: "stagingWriter_Write budget lease w (f, b) = ((n, err), f1, b1)" by (metis surj_pair)
  with Cons.prems have "err = None" "length (chunk w) \<le> n" "copy_stage budget lease ws (f1, b1) = (None, f', b')"
    by (auto split: option.splits if_splits)
  moreover from this w have "f1 = f @ chunk w"
    by (auto simp: stagingWriter_Write_def Let_def split: if_splits prod.splits bool.splits)
  ultimately show ?case using Cons.IH [of f1 b1] by simp
qed

lemma background_stores:
  assumes "store_in_background h en ev res r complete stage w = Some w'" "recorded w' = recorded w @ [StoreOperation True]"
  shows "\<exists>st. storeResource (goEnv en) (hOps h) (hShared h) (fst (pPub ev)) (snd (pPub ev)) res r (state_of w) = Some (None, st) \<and> state_of w' = st"
  using assms
  by (auto simp: store_in_background_def close_stage_def completed_def record_metric_def with_state_def state_of_def Let_def
      split: prod.splits bool.splits option.splits)

lemma background_recorded:
  assumes "store_in_background h en ev res r complete stage w = Some w'"
  shows "\<exists>ms. recorded w' = recorded w @ ms"
  using assms
  by (auto simp: store_in_background_def close_stage_def completed_def record_metric_def with_state_def Let_def
      split: prod.splits bool.splits option.splits)

lemma staged_stores:
  assumes s: "header_known cl s" and copy: "\<And>b. concat (map chunk (pCopy ev b)) = b"
    and out: "stage_and_store h en ev client_ops r complete fin (pStart ev) (fetched ev s) rest s w = Some (s', w')"
    and rec: "recorded w' = recorded w @ [UpstreamDuration m n, StoreOperation True]"
  shows "\<exists>st. publishResource (hOps h) (fst (pPub ev)) (snd (pPub ev)) (stored_copy en ev (hShared h) s (body_written rest)) (rTime r)
    (store_keys (goEnv en) (stored_copy en ev (hShared h) s (body_written rest)) r) (state_of w) = Some (None, st) \<and> state_of w' = st"
proof -
  obtain made b where st: "newHandlerStage (pCancelled ev) (hBudget h) (pOs ev) (wbudget w) = (made, b)" by (rule prod.exhaust)
  let ?s = "finish_origin client_ops rest (commitStagingHeaders client_ops (Request r) ''MISS'' True s)"
  have pipe: "pipe ?s = body_written rest" using committed_and_finished [OF s] by blast
  obtain stage where made: "made = Inr stage"
    using out st rec by (cases made) (auto simp: stage_and_store_def completed_def Let_def)
  obtain err stage' b' where f: "fill_stage (hBudget h) (pCopy ev (pipe ?s)) stage b = (err, stage', b')" by (metis surj_pair)
  have ok: "\<not> (err \<noteq> None \<or> fin = Aborts \<or> pSeekFails ev)"
  proof
    assume "err \<noteq> None \<or> fin = Aborts \<or> pSeekFails ev"
    with out st made f rec show False by (auto simp: stage_and_store_def completed_def close_stage_def Let_def split: prod.splits)
  qed
  have empty: "contents stage = []" using st made by (auto simp: newHandlerStage_def Let_def split: prod.splits sum.splits option.splits if_splits)
  have full: "contents stage' = body_written rest"
    using f ok empty copy pipe by (auto simp: fill_stage_def split: prod.splits dest!: copy_complete)
  obtain res s1 where stp: "stamp_received en ev client_ops (pStart ev) ((fetched ev s)\<lparr>rbody := contents stage'\<rparr>, finishStaging client_ops ''ADMITTED'' ?s) = (res, s1)"
    by (rule prod.exhaust)
  have res: "(if hShared h then RemovePrivateHeaders res else res) = stored_copy en ev (hShared h) s (body_written rest)"
    using stamped_resource [OF stp, of client_ops s] by (simp add: stored_copy_def full)
  let ?w = "record_metric (UpstreamDuration (Method (Request r)) (StatusCode (finishStaging client_ops ''ADMITTED'' ?s))) (w\<lparr>wbudget := b'\<rparr>)"
  have bg: "store_in_background h en ev res r complete stage' ?w = Some w'"
    using out st made f ok stp by (auto simp: stage_and_store_def Let_def)
  with background_recorded [OF bg] rec have "recorded w' = recorded ?w @ [StoreOperation True]" by (auto simp: record_metric_def)
  from background_stores [OF bg this] res show ?thesis
    by (auto simp: storeResource_def state_of_def record_metric_def Let_def)
qed


lemma published_by_cache:
  assumes "publishResource (builtin_ops v x cd e sen held now) t0 t1 res at keys s = Some (None, st)" "keepsMarkers (snd s)"
  shows "StoreContext v x cd e sen res keys (fst s) = (None, fst st) \<and> snd st = snd s"
  using assms
  by (cases s) (auto simp: publishResource_def builtin_ops_def beginLocalPublication_def complete_publication_def Let_def split: prod.splits)

lemma copied_body:
  assumes "\<forall>n. expectedBodySize (rheader res) = Some n \<longrightarrow> n = int (length (rbody res))"
  shows "stored_body res = rbody res"
  using assms by (auto simp: stored_body_def split: option.split)

lemma lookup_stored:
  assumes got: "cache_Retrieve v x e now (key_String e (rKey r)) c = (Inr got, c')" "delivers res key at m got" and keeps: "keepsMarkers h"
    and plain: "\<forall>k. EqualFold k ''Vary'' \<longrightarrow> header_at (rheader res) k = []"
  shows "\<exists>found r'. lookup e (builtin_ops v x cd e sen held now) shared h r c = (Inr found, r', c') \<and> Request r' = Request r \<and> statusCode found = statusCode res
    \<and> rbody found = stored_body res
    \<and> (\<forall>name. header_at (rheader found) name = (if valid_name name then map clean_value (header_at (rheader res) name) else []))"
  using lookup_plain_hit [of "builtin_ops v x cd e sen held now" e r c got c' h got shared] no_vary_delivered [OF got(2) plain] got keeps
  by (simp add: builtin_ops_def generationRetriever_def delivers_def)

lemma no_vary_keys: "\<forall>k. EqualFold k ''Vary'' \<longrightarrow> header_at (rheader res) k = [] \<Longrightarrow> store_keys e res r = [key_String e (rKey r)]"
proof -
  assume "\<forall>k. EqualFold k ''Vary'' \<longrightarrow> header_at (rheader res) k = []"
  then have "field_lines (rheader res) ''Vary'' = []" by (simp add: field_lines_def fold_keys_def)
  then show ?thesis by (simp add: store_keys_def combinedHeaderValues_def Let_def)
qed

lemma reported_store:
  assumes ops: "hOps h = builtin_ops v x cd (goEnv en) sen held now" and start: "keepsMarkers (wmarks w)" "sent cl = None"
    and origin: "hUpstream h (asked w) (Request r) = (cs, fin)" "fin \<noteq> Panics" "list_all final_call cs"
    and copying: "\<And>b. concat (map chunk (pCopy ev b)) = b"
    and passed: "passUpstream h en ev r complete cl w = Some (cl', w')" "recorded w' = recorded w @ [UpstreamDuration m n, StoreOperation True]"
    and copy: "WaitHeaders client_ops cs (start_streamer h cl) = (s, rest)" "res = stored_copy en ev (hShared h) s (body_written cs)"
      "\<forall>k. EqualFold k ''Vary'' \<longrightarrow> header_at (rheader res) k = []"
  shows "StoreContext v x cd (goEnv en) sen res [key_String (goEnv en) (rKey r)] (wcache w) = (None, wcache w') \<and> wmarks w' = wmarks w
    \<and> statusCode res = final_status cs \<and> rbody res = body_written cs \<and> RequestTime res = pStart ev"
proof -
  let ?w = "w\<lparr>asked := asked w @ [Request r]\<rparr>"
  have known: "header_known cl s" "StatusCode s = final_status cs" "body_written rest = body_written cs"
    using wait_headers [OF start_not_begun [OF start(2)] origin(3) copy(1)] by blast+
  obtain s' where staged: "stage_and_store h en ev client_ops r complete fin (pStart ev) (fetched ev s) rest s ?w = Some (s', w')"
    using passed(1) [unfolded passUpstream_steps [OF origin(1,2) copy(1), of en ev complete]] passed(2)
    by (auto simp: completed_def Let_def split: if_splits)
  obtain st where "publishResource (hOps h) (fst (pPub ev)) (snd (pPub ev)) res (rTime r) [key_String (goEnv en) (rKey r)] (state_of ?w) = Some (None, st)"
      "state_of w' = st"
    using staged_stores [OF known(1) copying staged] passed(2) known(3) copy(2) no_vary_keys [OF copy(3)] by auto
  with published_by_cache [of v x cd "goEnv en" sen held now] start(1) ops known copy(2) show ?thesis by (fastforce simp: state_of_def)
qed

text \<open>
  C8: What a request fetched is served to the next. Let a request be passed to the origin by a handler with the cache of
  \<^verbatim>\<open>src/cache.go\<close>, on any file system, and let the handler report that the response was stored; no invalidation of the key was made since the
  origin was asked, and the response has a consistent length and no \<^verbatim>\<open>Vary\<close>. Then its client receives the status and the body of the origin; a later lookup of the same key finds the
  same status, body and fields; and when what it finds needs no validation, the second client is sent that status and body, and
  the origin is not asked again.
\<close>

theorem fetched_response_is_reused:
  assumes ops: "hOps h = builtin_ops v x cd (goEnv en) sen held now" "vfs_laws v" "stat_law v" "\<And>key. 0 < clockDiscard sen key"
    and start: "keepsMarkers (wmarks w)" "ledger_ok (wcache w)" "sent cl = None" "\<not> isZero (pStart ev)"
    and origin: "hUpstream h (asked w) (Request r) = (cs, fin)" "fin \<noteq> Panics" "list_all final_call cs"
    and copying: "\<And>b. concat (map chunk (pCopy ev b)) = b"
    and key: "key = key_String (goEnv en) (rKey r)" "\<not> active (wcache w) (hashKey key)"
      "\<And>t. StaleAt (wcache w) key = Some t \<Longrightarrow> t < pStart ev"
    and passed: "passUpstream h en ev r complete cl w = Some (cl', w')" "recorded w' = recorded w @ [UpstreamDuration m n, StoreOperation True]"
    and copy: "WaitHeaders client_ops cs (start_streamer h cl) = (s, rest)" "res = stored_copy en ev (hShared h) s (body_written cs)"
      "readable_record x res key (clockAt sen key)" "\<forall>k. EqualFold k ''Vary'' \<longrightarrow> header_at (rheader res) k = []"
      "\<forall>n. expectedBodySize (rheader res) = Some n \<longrightarrow> n = int (length (body_written cs))"
    and second: "key_String (goEnv en) (rKey r2) = key" "plain_request (Request r2)" "sent cl2 = None" "final_status cs = 200 \<or> 300 \<le> final_status cs"
  shows "(\<exists>hdr. sent cl' = Some (final_status cs, hdr)) \<and> out cl' = out cl @ body_of (final_status cs) (body_written cs)
    \<and> (\<exists>got r' c'. lookup (goEnv en) (builtin_ops v x cd (goEnv en) sen2 held2 now2) (hShared h) (wmarks w') r2 (wcache w') = (Inr got, r', c')
        \<and> statusCode got = final_status cs \<and> rbody got = body_written cs
        \<and> (\<forall>name. header_at (rheader got) name = (if valid_name name then map clean_value (header_at (rheader res) name) else []))
        \<and> (\<not> needsValidation (goEnv en) (evNeed ev2) (hShared h) got r'
            \<and> Age (goEnv en) (sAge (evServe ev2)) (got\<lparr>rheader := Set (rheader got) ''X-Cache'' ''HIT''\<rparr>) = Some d \<longrightarrow>
            (\<exists>hdr cl2' w2. serveCacheable (h\<lparr>hOps := builtin_ops v x cd (goEnv en) sen2 held2 now2\<rparr>) en ev2 r2 cl2 w' = Some (cl2', w2)
              \<and> asked w2 = asked w' \<and> sent cl2' = Some (final_status cs, hdr) \<and> Get hdr ''Age'' = FloorSeconds en d
              \<and> out cl2' = out cl2 @ body_of (final_status cs) (body_written cs))))"
proof -
  let ?ops = "builtin_ops v x cd (goEnv en) sen2 held2 now2"
  have first: "\<exists>hdr. sent cl' = Some (final_status cs, hdr)" "out cl' = out cl @ body_of (final_status cs) (body_written cs)"
    using pass_delivers [OF start(3) origin, of en ev complete] passed(1) by auto
  have store: "StoreContext v x cd (goEnv en) sen res [key] (wcache w) = (None, wcache w')" and marks: "wmarks w' = wmarks w"
    and res: "statusCode res = final_status cs" "rbody res = body_written cs" "RequestTime res = pStart ev"
    using reported_store [OF ops(1) start(1,3) origin copying passed copy(1,2,4)] key(1) by blast+
  have fresh: "\<not> responseSuperseded (goEnv en) res [key] (wcache w)"
    using key(3) start(4) res(3) by (auto simp: responseSuperseded_def ReceivedAfter_def split: option.split)
  have pub: "published_all v x (Integrity (cfg (wcache w))) sen res [key] (wcache w')" "cfg (wcache w') = cfg (wcache w)"
    using store_outcome [OF ops(2) start(2) _ ops(4) store] key(2) fresh by (auto simp: example_keys same_setup_def)
  then have files: "entry_files v key (wcache w') = (Inr (stored_body res), Inr (stored_record x (Integrity (cfg (wcache w'))) res key (clockAt sen key)))"
    by (simp add: published_all_def)
  obtain got c' where got: "cache_Retrieve v x (goEnv en) now2 key (wcache w') = (Inr got, c')"
      "delivers res key (clockAt sen key) (StaleAt (wcache w') key) got"
    using retrieve_hit [OF ops(3) copy(3) files] by blast
  have whole: "stored_body res = body_written cs" using copied_body [of res] res(2) copy(5) by simp
  obtain found r' where found: "lookup (goEnv en) ?ops (hShared h) (wmarks w') r2 (wcache w') = (Inr found, r', c')" "Request r' = Request r2"
      "statusCode found = final_status cs" "rbody found = body_written cs"
      "\<forall>name. header_at (rheader found) name = (if valid_name name then map clean_value (header_at (rheader res) name) else [])"
    using lookup_stored [OF got(1) [folded second(1)] got(2) _ copy(4), of "wmarks w'" cd sen2 held2 "hShared h"] marks start(1) res(1) whole by auto
  have served: "\<exists>hdr cl2' w2. serveCacheable (h\<lparr>hOps := ?ops\<rparr>) en ev2 r2 cl2 w' = Some (cl2', w2) \<and> asked w2 = asked w'
      \<and> sent cl2' = Some (final_status cs, hdr) \<and> Get hdr ''Age'' = FloorSeconds en d \<and> out cl2' = out cl2 @ body_of (final_status cs) (body_written cs)"
    if "\<not> needsValidation (goEnv en) (evNeed ev2) (hShared h) found r'"
      "Age (goEnv en) (sAge (evServe ev2)) (found\<lparr>rheader := Set (rheader found) ''X-Cache'' ''HIT''\<rparr>) = Some d"
    using hit_is_served [of cl2 r' en "evNeed ev2" "h\<lparr>hOps := ?ops\<rparr>" found "evServe ev2" d "evPass ev2" "evValidate ev2" "w'\<lparr>wcache := c'\<rparr>"]
      that second found by (auto simp: serveCacheable_def record_metric_def)
  with first found show ?thesis by blast
qed


subsection \<open>Example\<close>

definition example_passed :: "client \<times> ((string, string) gomap cache, counted) world" where
  "example_passed = the (passUpstream (example_handler None example_calls) example_env example_pass example_get (\<lambda>l. l) fresh_client example_start)"

definition example_streamer :: "client responseStreamer" where
  "example_streamer = fst (WaitHeaders client_ops example_calls (start_streamer (example_handler None example_calls) fresh_client))"

abbreviation (input) example_copy :: resource where
  "example_copy \<equiv> stored_copy example_env example_pass True example_streamer ''hello''"

definition later_events :: "((string, string) gomap cache, counted) events" where
  "later_events = example_events\<lparr>evNeed := (2000000000, 2000000000, 2000000000),
     evServe := \<lparr>sAge = 3000000000, sHeur = 3000000000, sFresh = (3000000000, 3000000000, 3000000000)\<rparr>\<rparr>"

lemma example_reported:
  "passUpstream (example_handler None example_calls) example_env example_pass example_get (\<lambda>l. l) fresh_client example_start
    = Some (fst example_passed, snd example_passed)"
  "recorded (snd example_passed) = recorded example_start @ [UpstreamDuration ''GET'' 200, StoreOperation True]"
proof -
  let ?p = "passUpstream (example_handler None example_calls) example_env example_pass example_get (\<lambda>l. l) fresh_client example_start"
  have "map_option (recorded \<circ> snd) ?p = Some [UpstreamDuration ''GET'' 200, StoreOperation True]" by code_simp
  then show "?p = Some (fst example_passed, snd example_passed)"
    "recorded (snd example_passed) = recorded example_start @ [UpstreamDuration ''GET'' 200, StoreOperation True]"
    by (auto simp: example_passed_def example_start_def)
qed

lemma example_copy_header:
  "rheader example_copy = [(''X-Cache'', [''MISS'']), (''Cache-Control'', [''max-age=60'']), (''Proxy-Date'', [''0''])]"
  by code_simp

lemma example_copy_readable: "readable_record plain_recenv example_copy key 7"
proof -
  have "\<not> isZero 7" "int64 7" "int64 (statusCode example_copy)" "storable (rheader example_copy)" "canonical (rheader example_copy)"
    "int64 (int (length (stored_body example_copy)))" by code_simp+
  then show ?thesis
    by (simp add: readable_record_def plain_text_laws Itoa_plain plain_sealed_law)
qed

lemma example_found_again:
  "case lookup seconds_env (mem_ops 20) True (wmarks (snd example_passed)) example_get (wcache (snd example_passed)) of
     (Inr got, r', c') \<Rightarrow> \<not> needsValidation seconds_env (2000000000, 2000000000, 2000000000) True got r'
       \<and> Age seconds_env 3000000000 (got\<lparr>rheader := Set (rheader got) ''X-Cache'' ''HIT''\<rparr>) = Some 3000000000
   | _ \<Rightarrow> False"
  by code_simp


lemma example_copy_plain: "EqualFold k ''Vary'' \<Longrightarrow> header_at (rheader example_copy) k = []"
  by (auto simp: example_copy_header header_at_def EqualFold_def ToLower_def lower_char_def)

lemma example_copy_length: "expectedBodySize (rheader example_copy) = None"
  by code_simp

theorem fetched_response_is_reused_witness:
  "\<exists>hdr cl2 w2. serveCacheable ((example_handler None example_calls)\<lparr>hOps := mem_ops 20\<rparr>) example_env later_events example_get fresh_client (snd example_passed)
      = Some (cl2, w2) \<and> asked w2 = asked (snd example_passed) \<and> sent cl2 = Some (200, hdr) \<and> Get hdr ''Age'' = ''3'' \<and> out cl2 = ''hello''"
proof -
  let ?h = "example_handler None example_calls"
  have plain: "plain_request (Request example_get)" unfolding plain_request_def by code_simp
  have three: "Itoa (3::int) = ''3''" by code_simp
  have start: "keepsMarkers (wmarks example_start)" "ledger_ok (wcache example_start)" "sent fresh_client = None" "\<not> isZero (pStart example_pass)"
    "\<not> active (wcache example_start) k" "StaleAt (wcache example_start) k = None" "0 < clockDiscard quiet key" "clockAt quiet key = 7" for k key
    using empty_ledger_ok example_free
    by (simp_all add: example_start_def no_marks_def fresh_client_def example_pass_def isZero_def StaleAt_def empty_cache_def)
  have wait: "WaitHeaders client_ops example_calls (start_streamer ?h fresh_client)
      = (example_streamer, snd (WaitHeaders client_ops example_calls (start_streamer ?h fresh_client)))"
    by (simp add: example_streamer_def)
  obtain got r' c' where got: "lookup seconds_env (mem_ops 20) True (wmarks (snd example_passed)) example_get (wcache (snd example_passed)) = (Inr got, r', c')"
    and fit: "\<not> needsValidation seconds_env (2000000000, 2000000000, 2000000000) True got r'"
      "Age seconds_env 3000000000 (got\<lparr>rheader := Set (rheader got) ''X-Cache'' ''HIT''\<rparr>) = Some 3000000000"
    using example_found_again
    by (cases "fst (lookup seconds_env (mem_ops 20) True (wmarks (snd example_passed)) example_get (wcache (snd example_passed)))") (auto split: prod.splits)
  show ?thesis
    using fetched_response_is_reused [of ?h mem_vfs plain_recenv line_codec example_env quiet True 20 example_start fresh_client example_pass example_get example_calls Returns
        "key_String seconds_env (rKey example_get)" "\<lambda>l. l" "fst example_passed" "snd example_passed" "''GET''" 200 example_streamer
        "snd (WaitHeaders client_ops example_calls (start_streamer ?h fresh_client))" example_copy example_get fresh_client quiet True 20 later_events 3000000000]
      mem_vfs_laws mem_stat_law start example_calls_final example_reported wait example_copy_readable example_copy_plain example_copy_length plain got fit three
    by (simp add: example_handler_def example_env_def example_pass_def later_events_def fresh_client_def body_of_def bodyAllowed_def)
qed

end
