(* ===== verification/Key_Locks.thy ===== *)
theory Key_Locks
  imports Store "HOL-Library.Multiset"
begin

text \<open>
  The locks of single keys in \<^verbatim>\<open>src/cache.go\<close>: \<^verbatim>\<open>lockKey\<close> finds or makes a lock under a mutex, counts its users
  and drops it with the last one; \<^verbatim>\<open>lockStoreKeys\<close> takes several in the order of their names. Callers are the threads of a
  step relation. A \<^verbatim>\<open>sync.RWMutex\<close> is granted to one writer, or to readers while no writer holds it or waits for it.
\<close>

record lock_table =
  writers :: "string \<rightharpoonup> nat"
  users :: "nat \<Rightarrow> int"
  nextLock :: nat

definition lock_register :: "string \<Rightarrow> lock_table \<Rightarrow> nat \<times> lock_table" where
  "lock_register key tb =
     (case writers tb key of
        Some i \<Rightarrow> (i, tb\<lparr>users := (users tb)(i := users tb i + 1)\<rparr>)
      | None \<Rightarrow> (nextLock tb, tb\<lparr>writers := (writers tb)(key \<mapsto> nextLock tb), users := (users tb)(nextLock tb := 1), nextLock := nextLock tb + 1\<rparr>))"

definition lock_unregister :: "string \<Rightarrow> nat \<Rightarrow> lock_table \<Rightarrow> lock_table" where
  "lock_unregister key i tb =
     (let n = users tb i - 1; tb = tb\<lparr>users := (users tb)(i := n)\<rparr>
      in if n = 0 then tb\<lparr>writers := (writers tb)(key := None)\<rparr> else tb)"

text \<open>A caller with the keys it has still to lock, the lock it waits for, those it holds and the one it is leaving.\<close>

record locker =
  reads :: bool
  todo :: "string list"
  want :: "(string \<times> nat) option"
  held :: "(string \<times> nat) list"
  leaving :: "(string \<times> nat) option"

definition new_locker :: "bool \<Rightarrow> string list \<Rightarrow> locker" where
  "new_locker rd keys = \<lparr>reads = rd, todo = keys, want = None, held = [], leaving = None\<rparr>"

definition finished :: "locker \<Rightarrow> bool" where
  "finished t \<longleftrightarrow> todo t = [] \<and> want t = None \<and> held t = [] \<and> leaving t = None"

definition granted :: "locker list \<Rightarrow> bool \<Rightarrow> nat \<Rightarrow> bool" where
  "granted ts rd i \<longleftrightarrow>
     (\<forall>t \<in> set ts. \<forall>k. (k, i) \<in> set (held t) \<longrightarrow> rd \<and> reads t) \<and> (rd \<longrightarrow> (\<forall>t \<in> set ts. \<forall>k. want t = Some (k, i) \<longrightarrow> reads t))"

inductive lock_step :: "lock_table \<times> locker list \<Rightarrow> lock_table \<times> locker list \<Rightarrow> bool" where
  register: "lock_step (tb, ts) (tb', ts[n := (ts ! n)\<lparr>want := Some (key, i)\<rparr>])"
    if "n < length ts" "todo (ts ! n) = key # keys" "want (ts ! n) = None" "lock_register key tb = (i, tb')"
| acquire: "lock_step (tb, ts) (tb, ts[n := (ts ! n)\<lparr>want := None, held := (key, i) # held (ts ! n), todo := tl (todo (ts ! n))\<rparr>])"
    if "n < length ts" "want (ts ! n) = Some (key, i)" "granted ts (reads (ts ! n)) i"
| unlock: "lock_step (tb, ts) (tb, ts[n := (ts ! n)\<lparr>held := locks, leaving := Some (key, i)\<rparr>])"
    if "n < length ts" "todo (ts ! n) = []" "leaving (ts ! n) = None" "held (ts ! n) = (key, i) # locks"
| unregister: "lock_step (tb, ts) (lock_unregister key i tb, ts[n := (ts ! n)\<lparr>leaving := None\<rparr>])"
    if "n < length ts" "leaving (ts ! n) = Some (key, i)"

text \<open>Callers arrive with one key to read or write, or with the keys of a store.\<close>

inductive lock_env :: "lock_table \<times> locker list \<Rightarrow> lock_table \<times> locker list \<Rightarrow> bool" where
  one_key: "lock_env (tb, ts) (tb, ts @ [new_locker rd [key]])"
| store_keys: "lock_env (tb, ts) (tb, ts @ [new_locker False (snd (lockStoreKeys keys))])"

definition no_locks :: lock_table where
  "no_locks = \<lparr>writers = Map.empty, users = \<lambda>_. 0, nextLock = 0\<rparr>"

definition lock_reachable :: "lock_table \<times> locker list \<Rightarrow> bool" where
  "lock_reachable s \<longleftrightarrow> (\<lambda>s s'. lock_step s s' \<or> lock_env s s')\<^sup>*\<^sup>* (no_locks, []) s"

subsection \<open>The invariant\<close>

definition refs :: "locker \<Rightarrow> (string \<times> nat) list" where
  "refs t = (case want t of None \<Rightarrow> [] | Some r \<Rightarrow> [r]) @ held t @ (case leaving t of None \<Rightarrow> [] | Some r \<Rightarrow> [r])"

definition uses :: "nat \<Rightarrow> locker \<Rightarrow> int" where
  "uses i t = int (length (filter (\<lambda>r. snd r = i) (refs t)))"

definition all_uses :: "nat \<Rightarrow> locker list \<Rightarrow> int" where
  "all_uses i ts = sum_list (map (uses i) ts)"

definition table_ok :: "lock_table \<Rightarrow> locker list \<Rightarrow> bool" where
  "table_ok tb ts \<longleftrightarrow>
     (\<forall>t \<in> set ts. \<forall>k i. (k, i) \<in> set (refs t) \<longrightarrow> writers tb k = Some i)
   \<and> (\<forall>k i. writers tb k = Some i \<longrightarrow> i < nextLock tb \<and> users tb i = all_uses i ts \<and> 0 < users tb i)
   \<and> (\<forall>k k' i. writers tb k = Some i \<longrightarrow> writers tb k' = Some i \<longrightarrow> k = k')"

definition excluded :: "locker list \<Rightarrow> bool" where
  "excluded ts \<longleftrightarrow> (\<forall>m < length ts. \<forall>n < length ts. \<forall>k k' i. m \<noteq> n \<longrightarrow> (k, i) \<in> set (held (ts ! m)) \<longrightarrow> (k', i) \<in> set (held (ts ! n)) \<longrightarrow>
     reads (ts ! m) \<and> reads (ts ! n))"

definition ordered :: "locker \<Rightarrow> bool" where
  "ordered t \<longleftrightarrow> sorted_wrt (<) (rev (map fst (held t)) @ todo t) \<and> (\<forall>k i. want t = Some (k, i) \<longrightarrow> todo t \<noteq> [] \<and> hd (todo t) = k)
     \<and> (leaving t \<noteq> None \<longrightarrow> todo t = [])"

definition lock_ok :: "lock_table \<times> locker list \<Rightarrow> bool" where
  "lock_ok = (\<lambda>(tb, ts). table_ok tb ts \<and> excluded ts \<and> (\<forall>t \<in> set ts. ordered t))"

lemma table_ref: "table_ok tb ts \<Longrightarrow> t \<in> set ts \<Longrightarrow> (k, i) \<in> set (refs t) \<Longrightarrow> writers tb k = Some i"
  unfolding table_ok_def by blast

lemma in_update: "t' \<in> set (ts[n := t]) \<Longrightarrow> t' \<in> set ts \<or> t' = t"
  by (metis insert_iff set_update_subset_insert subsetD)

lemma all_uses_update: "n < length ts \<Longrightarrow> all_uses i (ts[n := t]) + uses i (ts ! n) = all_uses i ts + uses i t"
  unfolding all_uses_def by (rule sum_update)

lemma uses_nonneg: "0 \<le> uses i t" by (simp add: uses_def)

lemma all_uses_nonneg: "0 \<le> all_uses i ts"
  by (induction ts) (simp_all add: all_uses_def uses_nonneg)

lemma all_unused: "(\<And>t. t \<in> set ts \<Longrightarrow> uses i t = 0) \<Longrightarrow> all_uses i ts = 0"
  by (induction ts) (simp_all add: all_uses_def)

lemma used_pos:
  assumes "t \<in> set ts" "(k, i) \<in> set (refs t)"
  shows "0 < all_uses i ts"
proof -
  have "filter (\<lambda>r. snd r = i) (refs t) \<noteq> []" using assms(2) by (force simp: filter_empty_conv)
  then have "0 < uses i t" by (simp add: uses_def)
  moreover have "all_uses i ts = uses i t + all_uses i (remove1 t ts)"
    using assms(1) by (simp add: all_uses_def sum_list_map_remove1)
  ultimately show ?thesis using all_uses_nonneg [of i "remove1 t ts"] by linarith
qed

text \<open>Taking a lock and letting it go do not change who uses it.\<close>

lemma same_refs:
  assumes ok: "table_ok tb ts" and n: "n < length ts" "mset (refs t) = mset (refs (ts ! n))"
  shows "table_ok tb (ts[n := t])"
proof -
  have "uses i t = uses i (ts ! n)" for i
    unfolding uses_def by (metis n(2) mset_filter size_mset)
  then have same: "all_uses i (ts[n := t]) = all_uses i ts" for i using all_uses_update [OF n(1), of i t] by simp
  have "\<forall>t' \<in> set (ts[n := t]). \<forall>k i. (k, i) \<in> set (refs t') \<longrightarrow> writers tb k = Some i"
    using table_ref [OF ok] nth_mem [OF n(1)] mset_eq_setD [OF n(2)] in_update by metis
  with ok show ?thesis unfolding table_ok_def same by blast
qed

lemma table_register:
  assumes ok: "table_ok tb ts" and n: "n < length ts" "want (ts ! n) = None" and r: "lock_register key tb = (i, tb')"
  shows "table_ok tb' (ts[n := (ts ! n)\<lparr>want := Some (key, i)\<rparr>])"
proof -
  let ?t = "(ts ! n)\<lparr>want := Some (key, i)\<rparr>" and ?ts = "ts[n := (ts ! n)\<lparr>want := Some (key, i)\<rparr>]"
  have refs: "refs ?t = (key, i) # refs (ts ! n)" using n(2) by (simp add: refs_def)
  then have uses: "all_uses j ?ts = all_uses j ts + (if j = i then 1 else 0)" for j
    using all_uses_update [OF n(1), of j ?t] by (auto simp: uses_def)
  have fresh: "all_uses (nextLock tb) ts = 0"
  proof (rule ccontr)
    assume "all_uses (nextLock tb) ts \<noteq> 0"
    then obtain t where "t \<in> set ts" "uses (nextLock tb) t \<noteq> 0" using all_unused by blast
    then obtain k where "(k, nextLock tb) \<in> set (refs t)" by (auto simp: uses_def filter_empty_conv)
    from table_ref [OF ok \<open>t \<in> set ts\<close> this] ok show False by (auto simp: table_ok_def)
  qed
  have w: "writers tb' k = (if k = key then Some i else writers tb k)" for k
    using r by (auto simp: lock_register_def split: option.splits)
  have others: "writers tb k \<noteq> Some i" if "k \<noteq> key" for k
    using r ok that by (fastforce simp: lock_register_def table_ok_def split: option.splits)
  have u: "users tb' j = (if j = i then all_uses i ts + 1 else users tb j)" for j
    using r ok fresh by (auto simp: lock_register_def table_ok_def split: option.splits)
  have nx: "i < nextLock tb'" "nextLock tb \<le> nextLock tb'"
    using r ok by (auto simp: lock_register_def table_ok_def split: option.splits)
  have "\<forall>t \<in> set ?ts. \<forall>k j. (k, j) \<in> set (refs t) \<longrightarrow> writers tb' k = Some j"
  proof (intro ballI allI impI)
    fix t k j assume t: "t \<in> set ?ts" "(k, j) \<in> set (refs t)"
    have keeps: "writers tb' k = Some j" if "writers tb k = Some j"
      using that w [of k] r by (auto simp: lock_register_def split: option.splits)
    from in_update [OF t(1)] show "writers tb' k = Some j"
    proof
      assume "t \<in> set ts"
      then show ?thesis using table_ref [OF ok] t(2) keeps by blast
    next
      assume "t = ?t"
      then have "(k, j) = (key, i) \<or> (k, j) \<in> set (refs (ts ! n))" using t(2) refs by simp
      then show ?thesis using w table_ref [OF ok nth_mem [OF n(1)]] keeps by auto
    qed
  qed
  moreover have "\<forall>k j. writers tb' k = Some j \<longrightarrow> j < nextLock tb' \<and> users tb' j = all_uses j ?ts \<and> 0 < users tb' j"
  proof (intro allI impI)
    fix k j assume k: "writers tb' k = Some j"
    show "j < nextLock tb' \<and> users tb' j = all_uses j ?ts \<and> 0 < users tb' j"
    proof (cases "k = key")
      case True
      then show ?thesis using k w u uses nx all_uses_nonneg [of i ts] by simp
    next
      case False
      with k w others have "writers tb k = Some j" "j \<noteq> i" by auto
      with ok u uses nx show ?thesis by (fastforce simp: table_ok_def)
    qed
  qed
  moreover have "\<forall>k k' j. writers tb' k = Some j \<longrightarrow> writers tb' k' = Some j \<longrightarrow> k = k'"
    using ok w others by (simp add: table_ok_def) blast
  ultimately show ?thesis unfolding table_ok_def by blast
qed

lemma table_unregister:
  assumes ok: "table_ok tb ts" and n: "n < length ts" "leaving (ts ! n) = Some (key, i)"
  shows "table_ok (lock_unregister key i tb) (ts[n := (ts ! n)\<lparr>leaving := None\<rparr>])"
proof -
  let ?t = "(ts ! n)\<lparr>leaving := None\<rparr>" and ?tb = "lock_unregister key i tb"
  let ?ts = "ts[n := ?t]"
  have refs: "mset (refs (ts ! n)) = add_mset (key, i) (mset (refs ?t))" using n(2) by (simp add: refs_def)
  have len: "uses j (ts ! n) = uses j ?t + (if j = i then 1 else 0)" for j
    unfolding uses_def using arg_cong [OF refs, of "\<lambda>m. size (filter_mset (\<lambda>r. snd r = j) m)"] by (simp flip: mset_filter)
  then have uses: "all_uses j ?ts = all_uses j ts - (if j = i then 1 else 0)" for j
    using all_uses_update [OF n(1), of j ?t] by simp
  have key: "writers tb key = Some i" using n table_ref [OF ok nth_mem [OF n(1)], of key i] by (simp add: refs_def)
  have u: "users ?tb j = (if j = i then all_uses i ts - 1 else users tb j)" for j
    using ok key by (auto simp: lock_unregister_def table_ok_def Let_def)
  have w: "writers ?tb k = (if k = key \<and> all_uses i ts = 1 then None else writers tb k)" for k
    using ok key by (auto simp: lock_unregister_def table_ok_def Let_def)
  have nx: "nextLock ?tb = nextLock tb" by (simp add: lock_unregister_def Let_def)
  have "\<forall>t \<in> set ?ts. \<forall>k j. (k, j) \<in> set (refs t) \<longrightarrow> writers ?tb k = Some j"
  proof (intro ballI allI impI)
    fix t k j assume t: "t \<in> set ?ts" "(k, j) \<in> set (refs t)"
    have "set (refs ?t) \<subseteq> set (refs (ts ! n))" by (auto simp: refs_def)
    with in_update [OF t(1)] t(2) have old: "writers tb k = Some j" using table_ref [OF ok] nth_mem [OF n(1)] by blast
    have "k \<noteq> key \<or> all_uses i ts \<noteq> 1"
    proof (rule ccontr)
      assume "\<not> ?thesis"
      with old key have "j = i" "all_uses i ?ts = 0" using uses by auto
      with used_pos [OF t] show False by simp
    qed
    with old w show "writers ?tb k = Some j" by simp
  qed
  moreover have "\<forall>k j. writers ?tb k = Some j \<longrightarrow> j < nextLock ?tb \<and> users ?tb j = all_uses j ?ts \<and> 0 < users ?tb j"
  proof (intro allI impI)
    fix k j assume k: "writers ?tb k = Some j"
    then have old: "writers tb k = Some j" using w by (simp split: if_splits)
    with ok have j: "j < nextLock tb" "users tb j = all_uses j ts" "0 < users tb j" unfolding table_ok_def by blast+
    show "j < nextLock ?tb \<and> users ?tb j = all_uses j ?ts \<and> 0 < users ?tb j"
    proof (cases "j = i")
      case True
      then have "k = key" using old key ok by (auto simp: table_ok_def)
      with k w have "all_uses i ts \<noteq> 1" by (auto split: if_splits)
      with True j u uses nx show ?thesis by auto
    next
      case False
      with j u uses nx show ?thesis by simp
    qed
  qed
  moreover have "\<forall>k k' j. writers ?tb k = Some j \<longrightarrow> writers ?tb k' = Some j \<longrightarrow> k = k'"
    using ok w by (auto simp: table_ok_def split: if_splits)
  ultimately show ?thesis unfolding table_ok_def by blast
qed

lemma excluded_update:
  assumes "excluded ts" "n < length ts" "reads t = reads (ts ! n)"
    and "\<And>k i m k'. (k, i) \<in> set (held t) \<Longrightarrow> m < length ts \<Longrightarrow> m \<noteq> n \<Longrightarrow> (k', i) \<in> set (held (ts ! m)) \<Longrightarrow> reads t \<and> reads (ts ! m)"
  shows "excluded (ts[n := t])"
  unfolding excluded_def
proof (intro allI impI)
  fix m m' k k' i
  assume m: "m < length (ts[n := t])" "m' < length (ts[n := t])" "m \<noteq> m'" "(k, i) \<in> set (held (ts[n := t] ! m))" "(k', i) \<in> set (held (ts[n := t] ! m'))"
  consider "m = n" | "m' = n" | "m \<noteq> n" "m' \<noteq> n" by blast
  then show "reads (ts[n := t] ! m) \<and> reads (ts[n := t] ! m')"
  proof cases
    case 1
    with m assms(2) assms(4) [of k i m' k'] show ?thesis by simp
  next
    case 2
    with m assms(2) assms(4) [of k' i m k] show ?thesis by simp
  next
    case 3
    with m assms(1) show ?thesis unfolding excluded_def by (metis length_list_update nth_list_update_neq)
  qed
qed

lemma excluded_less:
  assumes "excluded ts" "n < length ts" "reads t = reads (ts ! n)" "set (held t) \<subseteq> set (held (ts ! n))"
  shows "excluded (ts[n := t])"
proof (rule excluded_update [OF assms(1-3)])
  fix k i m k' assume "(k, i) \<in> set (held t)" "m < length ts" "m \<noteq> n" "(k', i) \<in> set (held (ts ! m))"
  with assms show "reads t \<and> reads (ts ! m)" unfolding excluded_def by (metis subsetD)
qed

lemma lock_ok_update:
  assumes "lock_ok (tb, ts)" "table_ok tb' (ts[n := t])" "excluded (ts[n := t])" "ordered t"
  shows "lock_ok (tb', ts[n := t])"
  using assms in_update by (fastforce simp: lock_ok_def)

lemma lock_ok_step:
  assumes step: "lock_step s s'" and ok: "lock_ok s"
  shows "lock_ok s'"
  using step
proof cases
  case (register n ts key keys tb i tb')
  with ok have o: "table_ok tb ts" "excluded ts" "ordered (ts ! n)" by (auto simp: lock_ok_def)
  show ?thesis unfolding register(2)
    using ok register o by (intro lock_ok_update [of tb] table_register excluded_less) (auto simp: ordered_def)
next
  case (acquire n ts key i tb)
  with ok have o: "table_ok tb ts" "excluded ts" "ordered (ts ! n)" by (auto simp: lock_ok_def)
  let ?t = "(ts ! n)\<lparr>want := None, held := (key, i) # held (ts ! n), todo := tl (todo (ts ! n))\<rparr>"
  have "mset (refs ?t) = mset (refs (ts ! n))" using acquire(4) by (simp add: refs_def)
  moreover have "todo (ts ! n) = key # tl (todo (ts ! n))" using o(3) acquire(4) by (cases "todo (ts ! n)") (auto simp: ordered_def)
  then have "ordered ?t" using o(3) acquire(4) by (auto simp: ordered_def)
  moreover have "excluded (ts[n := ?t])"
  proof (rule excluded_update [OF o(2) acquire(3)])
    fix k j m k' assume m: "(k, j) \<in> set (held ?t)" "m < length ts" "m \<noteq> n" "(k', j) \<in> set (held (ts ! m))"
    show "reads ?t \<and> reads (ts ! m)"
    proof (cases "j = i")
      case True
      with m acquire(5) show ?thesis by (auto simp: granted_def)
    next
      case False
      with m have "(k, j) \<in> set (held (ts ! n))" by auto
      with m o(2) acquire(3) show ?thesis unfolding excluded_def by fastforce
    qed
  qed simp
  ultimately show ?thesis unfolding acquire(2)
    using ok acquire(1,3) o(1) by (intro lock_ok_update [of tb] same_refs) auto
next
  case (unlock n ts key i locks tb)
  with ok have o: "table_ok tb ts" "excluded ts" "ordered (ts ! n)" by (auto simp: lock_ok_def)
  have "mset (refs ((ts ! n)\<lparr>held := locks, leaving := Some (key, i)\<rparr>)) = mset (refs (ts ! n))" using unlock by (simp add: refs_def)
  then show ?thesis unfolding unlock(2)
    using ok unlock o by (intro lock_ok_update [of tb] same_refs excluded_less) (auto simp: ordered_def sorted_wrt_append)
next
  case (unregister n ts key i tb)
  with ok have o: "table_ok tb ts" "excluded ts" "ordered (ts ! n)" by (auto simp: lock_ok_def)
  show ?thesis unfolding unregister(2)
    using ok unregister o by (intro lock_ok_update [of tb] table_unregister excluded_less) (auto simp: ordered_def)
qed

lemma store_order: "sorted_wrt (<) (snd (lockStoreKeys keys))"
  using uniqueKeys_spec [of "[]" keys] by (simp add: lockStoreKeys_def strict_sorted_iff Let_def)

lemma lock_ok_arrive:
  assumes "lock_ok (tb, ts)" "sorted_wrt (<) keys"
  shows "lock_ok (tb, ts @ [new_locker rd keys])"
proof -
  have u: "all_uses i (ts @ [new_locker rd keys]) = all_uses i ts" for i by (simp add: all_uses_def uses_def refs_def new_locker_def)
  have ok: "table_ok tb ts" using assms(1) by (simp add: lock_ok_def)
  have "refs (new_locker rd keys) = []" by (simp add: refs_def new_locker_def)
  then have "\<forall>t \<in> set (ts @ [new_locker rd keys]). \<forall>k i. (k, i) \<in> set (refs t) \<longrightarrow> writers tb k = Some i"
    using table_ref [OF ok] by auto
  with ok have "table_ok tb (ts @ [new_locker rd keys])" unfolding table_ok_def u by blast
  moreover have "excluded (ts @ [new_locker rd keys])"
    using assms(1) by (auto simp: lock_ok_def excluded_def new_locker_def nth_append less_Suc_eq)
  ultimately show ?thesis using assms by (auto simp: lock_ok_def ordered_def new_locker_def)
qed

lemma lock_ok_env: "lock_env s s' \<Longrightarrow> lock_ok s \<Longrightarrow> lock_ok s'"
  by (erule lock_env.cases) (auto intro!: lock_ok_arrive store_order)

lemma lock_ok_reachable: "lock_reachable s \<Longrightarrow> lock_ok s"
  unfolding lock_reachable_def
proof (induction rule: rtranclp_induct)
  case base
  show ?case by (simp add: lock_ok_def table_ok_def excluded_def no_locks_def)
next
  case (step s s')
  then show ?case using lock_ok_step lock_ok_env by blast
qed

text \<open>
  C13: A key is never used by a writer and anyone else at a time. Although the lock of a key is dropped with its last user and made anew
  for the next, two different callers hold the same key together only when both read it.
\<close>

theorem key_lock_excludes:
  assumes reach: "lock_reachable (tb, ts)" and mn: "m < length ts" "n < length ts" "m \<noteq> n"
    and held: "(key, i) \<in> set (held (ts ! m))" "(key, j) \<in> set (held (ts ! n))"
  shows "reads (ts ! m) \<and> reads (ts ! n)"
proof -
  have ok: "table_ok tb ts" "excluded ts" using lock_ok_reachable [OF reach] by (simp_all add: lock_ok_def)
  have "(key, i) \<in> set (refs (ts ! m))" "(key, j) \<in> set (refs (ts ! n))" using held by (simp_all add: refs_def)
  then have "i = j" using table_ref [OF ok(1)] mn by (metis nth_mem option.inject)
  with ok(2) mn held show ?thesis unfolding excluded_def by blast
qed

subsection \<open>No deadlock\<close>

definition weight :: "locker \<Rightarrow> nat" where
  "weight t = 4 * length (todo t) + 2 * length (held t) + of_bool (leaving t \<noteq> None) + of_bool (want t = None)"

lemma lock_step_weight:
  assumes step: "lock_step s s'" and ok: "lock_ok s"
  shows "sum_list (map weight (snd s')) < sum_list (map weight (snd s))"
  using step
proof cases
  case (register n ts key keys tb i tb')
  then have "weight ((ts ! n)\<lparr>want := Some (key, i)\<rparr>) < weight (ts ! n)" by (simp add: weight_def)
  with register sum_update [OF register(3), of weight "(ts ! n)\<lparr>want := Some (key, i)\<rparr>"] show ?thesis by simp
next
  case (acquire n ts key i tb)
  let ?t = "(ts ! n)\<lparr>want := None, held := (key, i) # held (ts ! n), todo := tl (todo (ts ! n))\<rparr>"
  have "ordered (ts ! n)" using ok acquire by (auto simp: lock_ok_def)
  then have "todo (ts ! n) \<noteq> []" using acquire by (auto simp: ordered_def)
  then have "weight ?t < weight (ts ! n)" using acquire by (cases "todo (ts ! n)") (auto simp: weight_def)
  with acquire sum_update [OF acquire(3), of weight ?t] show ?thesis by simp
next
  case (unlock n ts key i locks tb)
  let ?t = "(ts ! n)\<lparr>held := locks, leaving := Some (key, i)\<rparr>"
  have "weight ?t < weight (ts ! n)" using unlock by (simp add: weight_def)
  with unlock sum_update [OF unlock(3), of weight ?t] show ?thesis by simp
next
  case (unregister n ts key i tb)
  let ?t = "(ts ! n)\<lparr>leaving := None\<rparr>"
  have "weight ?t < weight (ts ! n)" using unregister by (simp add: weight_def)
  with unregister sum_update [OF unregister(3), of weight ?t] show ?thesis by simp
qed

text \<open>A caller that cannot move waits for a lock, and a lock that is not granted is held by someone.\<close>

lemma stuck_waits:
  assumes ok: "lock_ok (tb, ts)" and stuck: "\<nexists>s'. lock_step (tb, ts) s'" and n: "n < length ts" "\<not> finished (ts ! n)"
  shows "\<exists>key i keys. want (ts ! n) = Some (key, i) \<and> todo (ts ! n) = key # keys \<and> \<not> granted ts (reads (ts ! n)) i"
proof -
  have o: "ordered (ts ! n)" using ok n by (auto simp: lock_ok_def)
  have l: "leaving (ts ! n) = None"
  proof (cases "leaving (ts ! n)")
    case (Some r)
    obtain key i where "r = (key, i)" by (rule prod.exhaust)
    with Some lock_step.unregister [OF n(1), of key i tb] stuck show ?thesis by simp
  qed
  have "held (ts ! n) = []" if e: "todo (ts ! n) = []"
  proof (cases "held (ts ! n)")
    case (Cons r locks)
    obtain key i where "r = (key, i)" by (rule prod.exhaust)
    with Cons lock_step.unlock [OF n(1) e l, of key i locks tb] stuck show ?thesis by simp
  qed
  with l have "todo (ts ! n) \<noteq> []" using n(2) o by (auto simp: finished_def ordered_def)
  then obtain key keys where t: "todo (ts ! n) = key # keys" by (cases "todo (ts ! n)") auto
  obtain i tb' where "lock_register key tb = (i, tb')" by (rule prod.exhaust)
  then have "want (ts ! n) \<noteq> None" using stuck lock_step.register [OF n(1) t] by blast
  then obtain k i where w: "want (ts ! n) = Some (k, i)" by auto
  with o t have "k = key" by (simp add: ordered_def)
  with w t stuck lock_step.acquire [OF n(1) w] show ?thesis by blast
qed

lemma wanted_held:
  assumes ok: "lock_ok (tb, ts)" and t: "t \<in> set ts" "want t = Some (key, i)" and h: "t' \<in> set ts" "(k, i) \<in> set (held t')"
  shows "k = key"
proof -
  have tb: "table_ok tb ts" using ok by (simp add: lock_ok_def)
  have "(key, i) \<in> set (refs t)" "(k, i) \<in> set (refs t')" using t h by (simp_all add: refs_def)
  then show ?thesis using tb t h unfolding table_ok_def by blast
qed

lemma stuck_is_finished:
  assumes ok: "lock_ok (tb, ts)" and stuck: "\<nexists>s'. lock_step (tb, ts) s'"
  shows "\<forall>t \<in> set ts. finished t"
proof (rule ccontr)
  assume "\<not> ?thesis"
  then obtain t0 where t0: "t0 \<in> set ts" "\<not> finished t0" by blast
  have waits: "\<exists>key i keys. want t = Some (key, i) \<and> todo t = key # keys \<and> \<not> granted ts (reads t) i" if "t \<in> set ts" "\<not> finished t" for t
    using stuck_waits [OF ok stuck] that by (metis in_set_conv_nth)
  let ?W = "{hd (todo t) |t. t \<in> set ts \<and> \<not> finished t}"
  have fin: "finite ?W" by simp
  have "Max ?W \<in> ?W" using t0 by (intro Max_in) auto
  then obtain t where t: "t \<in> set ts" "\<not> finished t" "hd (todo t) = Max ?W" by auto
  obtain key i keys where w: "want t = Some (key, i)" "todo t = key # keys" "\<not> granted ts (reads t) i" using waits [OF t(1,2)] by blast
  have nobody: "False" if h: "t' \<in> set ts" "(k, i) \<in> set (held t')" for t' k
  proof -
    have "\<not> finished t'" using h by (auto simp: finished_def)
    then obtain key' i' keys' where w': "todo t' = key' # keys'" using waits h(1) by blast
    have "ordered t'" using ok h by (auto simp: lock_ok_def)
    moreover have "key \<in> fst ` set (held t')" using wanted_held [OF ok t(1) w(1) h] h(2) by force
    ultimately have "key < key'" using w' by (auto simp: ordered_def sorted_wrt_append)
    moreover have "key' \<le> Max ?W" using fin h(1) \<open>\<not> finished t'\<close> w' by (intro Max_ge) force+
    ultimately show False using t(3) w(2) by simp
  qed
  from w(3) nobody obtain t' k where r: "reads t" "t' \<in> set ts" "want t' = Some (k, i)" "\<not> reads t'" by (auto simp: granted_def)
  then have "\<not> finished t'" by (auto simp: finished_def)
  with waits r have "\<not> granted ts False i" by fastforce
  with nobody show False by (auto simp: granted_def)
qed

interpretation lr: ending_system lock_step lock_ok "\<lambda>s. sum_list (map weight (snd s))" less_than
  by unfold_locales (auto intro: lock_ok_step lock_step_weight)

lemma all_finished_empty:
  assumes "lock_ok (tb, ts)" "\<forall>t \<in> set ts. finished t"
  shows "writers tb = Map.empty"
proof -
  have "all_uses i ts = 0" for i using assms(2) by (intro all_unused) (auto simp: uses_def refs_def finished_def)
  then have "writers tb k = None" for k
    using assms(1) by (cases "writers tb k") (fastforce simp: lock_ok_def table_ok_def)+
  then show ?thesis by blast
qed

text \<open>
  C14: The locks of keys cannot deadlock. Stores that lock several keys at once, readers and single writers, in any number and interleaving,
  take finitely many steps, stop only when every caller has had and returned all its locks, and leave no lock behind in the table.
\<close>

theorem key_locks_never_deadlock:
  assumes reach: "lock_reachable s"
  shows "(\<nexists>run. run 0 = s \<and> (\<forall>n. lock_step (run n) (run (Suc n)))) \<and> (\<exists>s'. lock_step\<^sup>*\<^sup>* s s' \<and> (\<nexists>s''. lock_step s' s''))
    \<and> (\<forall>tb ts. lock_step\<^sup>*\<^sup>* s (tb, ts) \<and> (\<nexists>s'. lock_step (tb, ts) s') \<longrightarrow> (\<forall>t \<in> set ts. finished t) \<and> writers tb = Map.empty)"
proof (intro conjI allI impI)
  note ok = lock_ok_reachable [OF reach]
  show "\<nexists>run. run 0 = s \<and> (\<forall>n. lock_step (run n) (run (Suc n)))" by (rule lr.no_endless_run [OF ok])
  show "\<exists>s'. lock_step\<^sup>*\<^sup>* s s' \<and> (\<nexists>s''. lock_step s' s'')" by (rule lr.reaches_end [OF ok])
  fix tb ts assume "lock_step\<^sup>*\<^sup>* s (tb, ts) \<and> (\<nexists>s'. lock_step (tb, ts) s')"
  then have "lock_ok (tb, ts)" "\<forall>t \<in> set ts. finished t" using lr.ok_steps ok stuck_is_finished by blast+
  then show "\<forall>t \<in> set ts. finished t" "writers tb = Map.empty" using all_finished_empty by blast+
qed

lemma reachable_start: "lock_reachable (no_locks, [])"
  by (simp add: lock_reachable_def)

lemma reachable_step: "lock_reachable s \<Longrightarrow> lock_step s s' \<Longrightarrow> lock_reachable s'"
  unfolding lock_reachable_def by (erule rtranclp.rtrancl_into_rtrancl) simp

lemma reachable_env: "lock_reachable s \<Longrightarrow> lock_env s s' \<Longrightarrow> lock_reachable s'"
  unfolding lock_reachable_def by (erule rtranclp.rtrancl_into_rtrancl) simp

definition two_stores :: "lock_table \<times> locker list" where
  "two_stores = (no_locks, [new_locker False (snd (lockStoreKeys [''a'', ''b''])), new_locker False (snd (lockStoreKeys [''b'', ''a'']))])"

lemma two_stores_reachable: "lock_reachable two_stores"
proof -
  let ?t = "\<lambda>keys. new_locker False (snd (lockStoreKeys keys))"
  have "lock_env (no_locks, []) (no_locks, [?t [''a'', ''b'']])" using store_keys [of no_locks "[]" "[''a'', ''b'']"] by simp
  moreover have "lock_env (no_locks, [?t [''a'', ''b'']]) two_stores"
    using store_keys [of no_locks "[?t [''a'', ''b'']]" "[''b'', ''a'']"] by (simp add: two_stores_def)
  ultimately show ?thesis using reachable_start by (blast intro: reachable_env)
qed

theorem key_locks_never_deadlock_witness:
  "\<nexists>run. run 0 = two_stores \<and> (\<forall>n. lock_step (run n) (run (Suc n)))"
  using key_locks_never_deadlock [OF two_stores_reachable] by blast

definition two_readers :: "lock_table \<times> locker list" where
  "two_readers = (snd (lock_register ''k'' (snd (lock_register ''k'' no_locks))),
     replicate 2 \<lparr>reads = True, todo = [], want = None, held = [(''k'', 0)], leaving = None\<rparr>)"

lemma two_readers_reachable: "lock_reachable two_readers"
proof -
  let ?N = "new_locker True [''k'']" and ?H = "\<lparr>reads = True, todo = [], want = None, held = [(''k'', 0::nat)], leaving = None\<rparr>"
  let ?W = "\<lparr>reads = True, todo = [''k''], want = Some (''k'', 0::nat), held = [], leaving = None\<rparr>"
  let ?t1 = "snd (lock_register ''k'' no_locks)" and ?t2 = "snd (lock_register ''k'' (snd (lock_register ''k'' no_locks)))"
  have reg: "lock_register ''k'' no_locks = (0, ?t1)" "lock_register ''k'' ?t1 = (0, ?t2)"
    by (simp_all add: lock_register_def no_locks_def)
  have "lock_reachable (no_locks, [?N])" using reachable_env [OF reachable_start one_key] by simp
  then have "lock_reachable (no_locks, [?N, ?N])" using reachable_env [OF _ one_key] by fastforce
  moreover have "lock_step (no_locks, [?N, ?N]) (?t1, [?W, ?N])"
    using register [of 0 "[?N, ?N]" "''k''" "[]" no_locks 0 ?t1] reg by (simp add: new_locker_def)
  ultimately have "lock_reachable (?t1, [?W, ?N])" by (rule reachable_step)
  moreover have "lock_step (?t1, [?W, ?N]) (?t1, [?H, ?N])"
    using acquire [of 0 "[?W, ?N]" "''k''" 0 ?t1] by (simp add: new_locker_def granted_def)
  ultimately have "lock_reachable (?t1, [?H, ?N])" by (rule reachable_step)
  moreover have "lock_step (?t1, [?H, ?N]) (?t2, [?H, ?W])"
    using register [of 1 "[?H, ?N]" "''k''" "[]" ?t1 0 ?t2] reg by (simp add: new_locker_def)
  ultimately have "lock_reachable (?t2, [?H, ?W])" by (rule reachable_step)
  moreover have "lock_step (?t2, [?H, ?W]) (?t2, [?H, ?H])"
    using acquire [of 1 "[?H, ?W]" "''k''" 0 ?t2] by (simp add: granted_def)
  ultimately have "lock_reachable (?t2, [?H, ?H])" by (rule reachable_step)
  then show ?thesis by (simp add: two_readers_def numeral_2_eq_2)
qed

theorem key_lock_excludes_witness: "reads (snd two_readers ! 0) \<and> reads (snd two_readers ! 1)"
  using key_lock_excludes [of "fst two_readers" "snd two_readers" 0 1 "''k''" 0 0] two_readers_reachable
  by (simp add: two_readers_def numeral_2_eq_2)

end
