(* ===== verification/Recorder.thy ===== *)
theory Recorder
  imports Serve
begin

text \<open>
  Recorders of metrics (\<^verbatim>\<open>src/metrics.go\<close>, \<^verbatim>\<open>src/prometheusmetrics\<close>) and the construction of a handler (\<^verbatim>\<open>src/handler.go\<close>). The
  Prometheus library is a parameter: \<open>'k\<close> are its collectors, \<open>'p\<close> its state and \<open>'f\<close> its floating-point numbers.
\<close>

subsection \<open>The interface and the default recorder\<close>

datatype 'f metric_call =
    RecordCacheHit string | RecordCacheMiss string | RecordCacheSkip
  | RecordUpstreamDuration string int 'f | RecordUpstreamError string
  | RecordStoreOperation bool | RecordRetrieveOperation bool
  | SetCacheSize int | SetCacheItemCount int | SetCacheStaleCount int
  | RecordCacheEviction string | RecordCleanupDuration 'f | UpdateCacheStats CacheStats

type_synonym ('f, 'p) recorder = "'f metric_call \<Rightarrow> 'p \<Rightarrow> 'p"

definition NopMetrics :: "('f, 'p) recorder" where
  "NopMetrics call p = p"

text \<open>The holder in \<^verbatim>\<open>defaultMetrics\<close>: \<open>None\<close> before the first store, inside it a recorder or nil.\<close>

type_synonym ('f, 'p) holder = "('f, 'p) recorder option option"

definition getDefaultMetrics :: "('f, 'p) holder \<Rightarrow> ('f, 'p) recorder" where
  "getDefaultMetrics d = (case d of Some (Some m) \<Rightarrow> m | _ \<Rightarrow> NopMetrics)"

definition SetDefaultMetrics :: "('f, 'p) recorder option \<Rightarrow> ('f, 'p) holder" where
  "SetDefaultMetrics m = Some (Some (case m of None \<Rightarrow> NopMetrics | Some m \<Rightarrow> m))"

subsection \<open>The Prometheus recorder\<close>

record ('k, 'f, 'p) prometheus =
  Inc :: "'k \<Rightarrow> string list \<Rightarrow> 'p \<Rightarrow> 'p"
  Observe :: "'k \<Rightarrow> string list \<Rightarrow> 'f \<Rightarrow> 'p \<Rightarrow> 'p"
  SetGauge :: "'k \<Rightarrow> 'f \<Rightarrow> 'p \<Rightarrow> 'p"
  Count :: "'p \<Rightarrow> 'k \<Rightarrow> string list \<Rightarrow> nat"
  Reading :: "'p \<Rightarrow> 'k \<Rightarrow> 'f option"
  float64 :: "int \<Rightarrow> 'f"

definition prometheus_laws :: "('k, 'f, 'p) prometheus \<Rightarrow> bool" where
  "prometheus_laws P \<longleftrightarrow>
     (\<forall>k ls p k' ls'. Count P (Inc P k ls p) k' ls' = Count P p k' ls' + of_bool (k' = k \<and> ls' = ls) \<and> Reading P (Inc P k ls p) k' = Reading P p k')
   \<and> (\<forall>k ls f p k' ls'. Count P (Observe P k ls f p) k' ls' = Count P p k' ls' + of_bool (k' = k \<and> ls' = ls) \<and> Reading P (Observe P k ls f p) k' = Reading P p k')
   \<and> (\<forall>k f p k' ls'. Count P (SetGauge P k f p) k' ls' = Count P p k' ls' \<and> Reading P (SetGauge P k f p) k' = (if k' = k then Some f else Reading P p k'))"

record 'k Metrics =
  CacheHits :: "'k option"
  CacheMisses :: "'k option"
  CacheSkips :: "'k option"
  UpstreamDurations :: "'k option"
  CacheSizeBytes :: "'k option"
  CacheItemCount :: "'k option"
  CacheStaleCount :: "'k option"
  UpstreamErrors :: "'k option"
  CacheStoreOperations :: "'k option"
  CacheRetrieveOperations :: "'k option"
  CacheEvictions :: "'k option"
  CacheCleanupDuration :: "'k option"

text \<open>The registry makes a collector from its kind, name, help text, labels and buckets.\<close>

datatype collector = Counter | Gauge | Histogram

type_synonym 'k registry = "collector \<Rightarrow> string \<Rightarrow> string \<Rightarrow> string list \<Rightarrow> string list \<Rightarrow> 'k"

definition New :: "'k registry \<Rightarrow> string list \<Rightarrow> 'k Metrics" where
  "New cacheRegistry HTTPDurationBuckets = \<lparr>
     CacheHits = Some (cacheRegistry Counter ''hits_total'' ''Total number of cache hits'' [''method''] []),
     CacheMisses = Some (cacheRegistry Counter ''misses_total'' ''Total number of cache misses'' [''method''] []),
     CacheSkips = Some (cacheRegistry Counter ''skips_total'' ''Total number of cache skips (non-cacheable requests)'' [] []),
     UpstreamDurations = Some (cacheRegistry Histogram ''upstream_request_duration_seconds'' ''Duration of upstream requests in seconds''
       [''method'', ''status''] HTTPDurationBuckets),
     CacheSizeBytes = Some (cacheRegistry Gauge ''size_bytes'' ''Current cache size in bytes'' [] []),
     CacheItemCount = Some (cacheRegistry Gauge ''item_count'' ''Current number of cached items'' [] []),
     CacheStaleCount = Some (cacheRegistry Gauge ''stale_count'' ''Current number of stale map entries'' [] []),
     UpstreamErrors = Some (cacheRegistry Counter ''upstream_errors_total'' ''Total number of upstream errors'' [''error_type''] []),
     CacheStoreOperations = Some (cacheRegistry Counter ''store_operations_total'' ''Total number of cache store operations'' [''result''] []),
     CacheRetrieveOperations = Some (cacheRegistry Counter ''retrieve_operations_total'' ''Total number of cache retrieve operations'' [''result''] []),
     CacheEvictions = Some (cacheRegistry Counter ''evictions_total'' ''Total number of cache evictions'' [''reason''] []),
     CacheCleanupDuration = Some (cacheRegistry Histogram ''cleanup_duration_seconds'' ''Duration of cache cleanup operations in seconds'' []
       [''0.001'', ''0.005'', ''0.01'', ''0.05'', ''0.1'', ''0.5'', ''1'', ''5'', ''10''])\<rparr>"

text \<open>\<^verbatim>\<open>if m != nil && m.C != nil\<close>\<close>

definition unless_nil :: "'k Metrics option \<Rightarrow> ('k Metrics \<Rightarrow> 'k option) \<Rightarrow> ('k \<Rightarrow> 'p \<Rightarrow> 'p) \<Rightarrow> 'p \<Rightarrow> 'p" where
  "unless_nil m field act p = (case Option.bind m field of None \<Rightarrow> p | Some k \<Rightarrow> act k p)"

fun prom_record :: "('k, 'f, 'p) prometheus \<Rightarrow> 'k Metrics option \<Rightarrow> ('f, 'p) recorder" where
  "prom_record P m (RecordCacheHit method) = unless_nil m CacheHits (\<lambda>k. Inc P k [method])"
| "prom_record P m (RecordCacheMiss method) = unless_nil m CacheMisses (\<lambda>k. Inc P k [method])"
| "prom_record P m RecordCacheSkip = unless_nil m CacheSkips (\<lambda>k. Inc P k [])"
| "prom_record P m (RecordUpstreamDuration method status d) =
     unless_nil m UpstreamDurations (\<lambda>k. Observe P k [method, if status \<ge> 400 then ''error'' else ''success''] d)"
| "prom_record P m (RecordUpstreamError errorType) = unless_nil m UpstreamErrors (\<lambda>k. Inc P k [errorType])"
| "prom_record P m (RecordStoreOperation success) =
     unless_nil m CacheStoreOperations (\<lambda>k. Inc P k [if \<not> success then ''failure'' else ''success''])"
| "prom_record P m (RecordRetrieveOperation found) =
     unless_nil m CacheRetrieveOperations (\<lambda>k. Inc P k [if \<not> found then ''miss'' else ''hit''])"
| "prom_record P m (SetCacheSize n) = unless_nil m CacheSizeBytes (\<lambda>k. SetGauge P k (float64 P n))"
| "prom_record P m (SetCacheItemCount n) = unless_nil m CacheItemCount (\<lambda>k. SetGauge P k (float64 P n))"
| "prom_record P m (SetCacheStaleCount n) = unless_nil m CacheStaleCount (\<lambda>k. SetGauge P k (float64 P n))"
| "prom_record P m (RecordCacheEviction reason) = unless_nil m CacheEvictions (\<lambda>k. Inc P k [reason])"
| "prom_record P m (RecordCleanupDuration d) = unless_nil m CacheCleanupDuration (\<lambda>k. Observe P k [] d)"
| "prom_record P m (UpdateCacheStats stats) = (\<lambda>p.
     if m = None then p
     else let p = unless_nil m CacheSizeBytes (\<lambda>k. SetGauge P k (float64 P (TotalSize stats))) p;
              p = unless_nil m CacheItemCount (\<lambda>k. SetGauge P k (float64 P (ItemCount stats))) p
          in unless_nil m CacheStaleCount (\<lambda>k. SetGauge P k (float64 P (StaleCount stats))) p)"

subsection \<open>Construction of a handler\<close>

record 'b HandlerOptions =
  StagingBudget :: "'b budget_ops option"
  RequestKey :: "(request \<Rightarrow> key option) option"
  MissCoordinator :: bool
  StaleMarkerTTL :: duration

record ('c, 'b, 'f, 'p) new_handler =
  nHandler :: "('c, 'b) handler"
  nMarks :: handlerMarks
  nLife :: lifecycle
  nMetrics :: "('f, 'p) recorder option"

definition NewHandlerWithOptions ::
  "('f, 'p) holder \<Rightarrow> 'c cache_ops \<Rightarrow> (request list \<Rightarrow> request \<Rightarrow> answer) \<Rightarrow> 'b HandlerOptions option \<Rightarrow> ('c, 'b, 'f, 'p) new_handler" where
  "NewHandlerWithOptions d cache upstream opts =
     \<lparr>nHandler = \<lparr>hShared = False, hOps = cache, hUpstream = upstream, hBudget = Option.bind opts StagingBudget,
        hRequestKey = Option.bind opts RequestKey, hCoordinator = (case opts of None \<Rightarrow> False | Some opts \<Rightarrow> MissCoordinator opts)\<rparr>,
      nMarks = \<lparr>keepsMarkers = (opStaleAt cache \<noteq> None), localStale = [], localFresh = [], localPublications = [],
        localStaleTTL = (case opts of Some opts \<Rightarrow> if StaleMarkerTTL opts > 0 then StaleMarkerTTL opts else 0 | None \<Rightarrow> 0), nextProof = 0\<rparr>,
      nLife = new_lifecycle, nMetrics = Some (getDefaultMetrics d)\<rparr>"

definition NewHandler :: "('f, 'p) holder \<Rightarrow> 'c cache_ops \<Rightarrow> (request list \<Rightarrow> request \<Rightarrow> answer) \<Rightarrow> ('c, 'b, 'f, 'p) new_handler" where
  "NewHandler d cache upstream = NewHandlerWithOptions d cache upstream None"

definition NewSharedHandler :: "('f, 'p) holder \<Rightarrow> 'c cache_ops \<Rightarrow> (request list \<Rightarrow> request \<Rightarrow> answer) \<Rightarrow> ('c, 'b, 'f, 'p) new_handler" where
  "NewSharedHandler d cache upstream =
     (let h = NewHandlerWithOptions d cache upstream None in h\<lparr>nHandler := (nHandler h)\<lparr>hShared := True\<rparr>\<rparr>)"

definition SetMetrics :: "('f, 'p) recorder option \<Rightarrow> ('c, 'b, 'f, 'p) new_handler \<Rightarrow> ('c, 'b, 'f, 'p) new_handler" where
  "SetMetrics m h = h\<lparr>nMetrics := Some (case m of None \<Rightarrow> NopMetrics | Some m \<Rightarrow> m)\<rparr>"

definition metricsRef :: "('c, 'b, 'f, 'p) new_handler \<Rightarrow> ('f, 'p) recorder" where
  "metricsRef h = (case nMetrics h of Some m \<Rightarrow> m | None \<Rightarrow> NopMetrics)"


subsection \<open>What a recorder shows\<close>

definition one_per_name :: "'k registry \<Rightarrow> bool" where
  \<comment> \<open>a registry refuses a second collector of a name, so that collectors of different names differ\<close>
  "one_per_name reg \<longleftrightarrow> (\<forall>kind name help ls bs kind' name' help' ls' bs'. reg kind name help ls bs = reg kind' name' help' ls' bs' \<longrightarrow> name = name')"

definition record_all :: "('k, 'f, 'p) prometheus \<Rightarrow> 'k Metrics option \<Rightarrow> 'f metric_call list \<Rightarrow> 'p \<Rightarrow> 'p" where
  "record_all P m calls p = foldl (\<lambda>p call. prom_record P m call p) p calls"

fun series :: "'k Metrics \<Rightarrow> 'f metric_call \<Rightarrow> ('k option \<times> string list) option" where
  "series m (RecordCacheHit method) = Some (CacheHits m, [method])"
| "series m (RecordCacheMiss method) = Some (CacheMisses m, [method])"
| "series m RecordCacheSkip = Some (CacheSkips m, [])"
| "series m (RecordUpstreamDuration method status d) = Some (UpstreamDurations m, [method, if status \<ge> 400 then ''error'' else ''success''])"
| "series m (RecordUpstreamError errorType) = Some (UpstreamErrors m, [errorType])"
| "series m (RecordStoreOperation success) = Some (CacheStoreOperations m, [if \<not> success then ''failure'' else ''success''])"
| "series m (RecordRetrieveOperation found) = Some (CacheRetrieveOperations m, [if \<not> found then ''miss'' else ''hit''])"
| "series m (RecordCacheEviction reason) = Some (CacheEvictions m, [reason])"
| "series m (RecordCleanupDuration d) = Some (CacheCleanupDuration m, [])"
| "series m _ = None"

lemma Count_laws:
  assumes "prometheus_laws P"
  shows "Count P (Inc P k ls p) k' ls' = Count P p k' ls' + of_bool (k' = k \<and> ls' = ls)"
    "Count P (Observe P k ls f p) k' ls' = Count P p k' ls' + of_bool (k' = k \<and> ls' = ls)" "Count P (SetGauge P k f p) k' ls' = Count P p k' ls'"
  using assms unfolding prometheus_laws_def by blast+

lemma record_counts:
  "prometheus_laws P \<Longrightarrow> Count P (prom_record P (Some m) call p) k ls = Count P p k ls + of_bool (series m call = Some (Some k, ls))"
  by (cases call) (auto simp: unless_nil_def Count_laws Let_def split: option.split bind_split)

lemma record_all_counts:
  assumes "prometheus_laws P"
  shows "Count P (record_all P (Some m) calls p) k ls = Count P p k ls + length (filter (\<lambda>call. series m call = Some (Some k, ls)) calls)"
  by (induction calls arbitrary: p) (simp_all add: record_all_def record_counts [OF assms])

lemma collectors_differ: "one_per_name reg \<Longrightarrow> name \<noteq> name' \<Longrightarrow> reg kind name help ls bs \<noteq> reg kind' name' help' ls' bs'"
  unfolding one_per_name_def by blast

text \<open>
  Every series of the Prometheus recorder is the number of calls it stands for: hits and misses by method, skips, finished and failed stores,
  upstream requests by method and class of status, evictions by reason.
\<close>

lemma series_New:
  assumes "one_per_name reg"
  shows "series (New reg bs) call = Some (CacheHits (New reg bs), [method]) \<longleftrightarrow> call = RecordCacheHit method"
    "series (New reg bs) call = Some (CacheMisses (New reg bs), [method]) \<longleftrightarrow> call = RecordCacheMiss method"
    "series (New reg bs) call = Some (CacheSkips (New reg bs), []) \<longleftrightarrow> call = RecordCacheSkip"
    "series (New reg bs) call = Some (CacheStoreOperations (New reg bs), [if success then ''success'' else ''failure'']) \<longleftrightarrow> call = RecordStoreOperation success"
    "series (New reg bs) call = Some (CacheEvictions (New reg bs), [reason]) \<longleftrightarrow> call = RecordCacheEviction reason"
    "series (New reg bs) call = Some (UpstreamDurations (New reg bs), [method, if error then ''error'' else ''success'']) \<longleftrightarrow>
       (\<exists>status d. call = RecordUpstreamDuration method status d \<and> (400 \<le> status \<longleftrightarrow> error))"
proof -
  note names = collectors_differ [OF assms]
  show "series (New reg bs) call = Some (CacheHits (New reg bs), [method]) \<longleftrightarrow> call = RecordCacheHit method"
    by (cases call) (simp_all add: New_def names)
  show "series (New reg bs) call = Some (CacheMisses (New reg bs), [method]) \<longleftrightarrow> call = RecordCacheMiss method"
    by (cases call) (simp_all add: New_def names)
  show "series (New reg bs) call = Some (CacheSkips (New reg bs), []) \<longleftrightarrow> call = RecordCacheSkip"
    by (cases call) (simp_all add: New_def names)
  show "series (New reg bs) call = Some (CacheStoreOperations (New reg bs), [if success then ''success'' else ''failure'']) \<longleftrightarrow> call = RecordStoreOperation success"
    by (cases call) (auto simp: New_def names)
  show "series (New reg bs) call = Some (CacheEvictions (New reg bs), [reason]) \<longleftrightarrow> call = RecordCacheEviction reason"
    by (cases call) (simp_all add: New_def names)
  show "series (New reg bs) call = Some (UpstreamDurations (New reg bs), [method, if error then ''error'' else ''success'']) \<longleftrightarrow>
       (\<exists>status d. call = RecordUpstreamDuration method status d \<and> (400 \<le> status \<longleftrightarrow> error))"
    by (cases call) (auto simp: New_def names)
qed

text \<open>The handler's log of a request as calls of its recorder, with the measured durations.\<close>

fun metric_of :: "(string \<Rightarrow> int \<Rightarrow> 'f) \<Rightarrow> metric \<Rightarrow> 'f metric_call" where
  "metric_of seconds (CacheHit method) = RecordCacheHit method"
| "metric_of seconds (CacheMiss method) = RecordCacheMiss method"
| "metric_of seconds CacheSkip = RecordCacheSkip"
| "metric_of seconds (UpstreamDuration method status) = RecordUpstreamDuration method status (seconds method status)"
| "metric_of seconds (StoreOperation success) = RecordStoreOperation success"

lemma metric_of_inv:
  "metric_of seconds x = RecordCacheHit method \<longleftrightarrow> x = CacheHit method" "metric_of seconds x = RecordCacheMiss method \<longleftrightarrow> x = CacheMiss method"
  "metric_of seconds x = RecordCacheSkip \<longleftrightarrow> x = CacheSkip" "metric_of seconds x = RecordStoreOperation success \<longleftrightarrow> x = StoreOperation success"
  by (cases x; simp)+

lemma recorder_shows_log:
  assumes laws: "prometheus_laws P" "one_per_name reg" and m: "m = New reg bs"
    and k: "CacheHits m = Some hits" "CacheMisses m = Some misses" "CacheSkips m = Some skips" "CacheStoreOperations m = Some stores"
    and p': "p' = record_all P (Some m) (map (metric_of seconds) ms) p"
  shows "Count P p' hits [method] = Count P p hits [method] + count_list ms (CacheHit method)"
    "Count P p' misses [method] = Count P p misses [method] + count_list ms (CacheMiss method)"
    "Count P p' skips [] = Count P p skips [] + count_list ms CacheSkip"
    "Count P p' stores [if success then ''success'' else ''failure'']
       = Count P p stores [if success then ''success'' else ''failure''] + count_list ms (StoreOperation success)"
proof -
  have cnt: "Count P p' c ls = Count P p c ls + count_list ms x"
    if "\<And>y. series m (metric_of seconds y) = Some (Some c, ls) \<longleftrightarrow> y = x" for c ls x
  proof -
    have "length (filter (\<lambda>call. series m call = Some (Some c, ls)) (map (metric_of seconds) ms)) = count_list ms x" using that by (induction ms) auto
    then show ?thesis by (simp only: p' record_all_counts [OF laws(1)])
  qed
  note eqs = series_New [OF laws(2), of bs, folded m, unfolded k]
  show "Count P p' hits [method] = Count P p hits [method] + count_list ms (CacheHit method)" by (rule cnt) (simp only: eqs metric_of_inv)
  show "Count P p' misses [method] = Count P p misses [method] + count_list ms (CacheMiss method)" by (rule cnt) (simp only: eqs metric_of_inv)
  show "Count P p' skips [] = Count P p skips [] + count_list ms CacheSkip" by (rule cnt) (simp only: eqs metric_of_inv)
  show "Count P p' stores [if success then ''success'' else ''failure'']
       = Count P p stores [if success then ''success'' else ''failure''] + count_list ms (StoreOperation success)"
    by (rule cnt) (simp only: eqs metric_of_inv)
qed

text \<open>A recorder that is nil, or has nil collectors, records nothing, and neither the process nor a handler is ever left without one.\<close>

lemma nil_recorder: "prom_record P None call p = p"
  by (cases call) (simp_all add: unless_nil_def)

lemma recorder_is_set:
  "getDefaultMetrics (SetDefaultMetrics None) = NopMetrics" "getDefaultMetrics (SetDefaultMetrics (Some m)) = m" "getDefaultMetrics None = NopMetrics"
  "metricsRef (SetMetrics None h) = NopMetrics" "metricsRef (SetMetrics (Some m) h) = m" "metricsRef (NewHandlerWithOptions d cache upstream opts) = getDefaultMetrics d"
  by (simp_all add: getDefaultMetrics_def SetDefaultMetrics_def metricsRef_def SetMetrics_def NewHandlerWithOptions_def)

text \<open>
  A new handler satisfies what the other components assume of its state: no flight, no write and no publication is running, it
  leaves the markers to a cache that keeps them, and only the constructor for shared caches makes a shared one.
\<close>

lemma new_handler_state:
  "miss_ok (nLife (NewHandlerWithOptions d cache upstream opts), [])"
  "keepsMarkers (nMarks (NewHandlerWithOptions d (builtin_ops v x cd e en held now) upstream opts))"
  "opStaleAt cache = None \<Longrightarrow> pub_ok \<lparr>marks = nMarks (NewHandlerWithOptions d cache upstream opts), runs = [], backend = Map.empty, startedAt = started, nextPub = 0\<rparr>"
  "staleMarkerTTL (nMarks (NewHandlerWithOptions d cache upstream (Some o'))) = (if 0 < StaleMarkerTTL o' then StaleMarkerTTL o' else TTL DefaultCacheConfig)"
  "\<not> hShared (nHandler (NewHandler d cache upstream))" "hShared (nHandler (NewSharedHandler d cache upstream))"
  using miss_ok_start
  by (simp_all add: NewHandlerWithOptions_def NewHandler_def NewSharedHandler_def builtin_ops_def staleMarkerTTL_def pub_ok_def key_ok_def Let_def)

end
