(* ===== verification/Cleanup_Loop.thy ===== *)
theory Cleanup_Loop
  imports Markers
begin

text \<open>
  The background cleanup of a cache and its end: \<^verbatim>\<open>cleanupLoop\<close> and \<^verbatim>\<open>Close\<close> of \<^verbatim>\<open>src/cache.go\<close>. The loop and the callers of
  \<^verbatim>\<open>Close\<close> are threads; a channel is the question whether it was closed, and closing it twice is a panic. \<^verbatim>\<open>sync.Once\<close> lets one
  caller run the shutdown and keeps the others until it is over.
\<close>

datatype loop_pc = Selecting | Cleaning | Ended
datatype once = Unused | Running | Finished
datatype close_pc = Calling | Joining | Returned

record 'fs closing =
  kept :: "'fs cache"
  loop :: loop_pc
  stopChan :: bool
  cleanupDone :: bool
  closeOnce :: once
  callers :: "close_pc list"
  panicked :: bool

definition opened :: "'fs cache \<Rightarrow> 'fs closing" where
  "opened c = (let started = CleanupInterval (cfg c) > 0 in
     \<lparr>kept = c, loop = (if started then Selecting else Ended), stopChan = False, cleanupDone = (\<not> started), closeOnce = Unused, callers = [], panicked = False\<rparr>)"

inductive close_step :: "'fs vfs \<Rightarrow> codec \<Rightarrow> 'fs closing \<Rightarrow> 'fs closing \<Rightarrow> bool" for v cd where
  swept: "close_step v cd s (s\<lparr>loop := Selecting, kept := snd (Cleanup v cd t0 t1 (kept s))\<rparr>)"
    if "loop s = Cleaning"
| halt: "close_step v cd s (s\<lparr>loop := Ended, panicked := panicked s \<or> cleanupDone s, cleanupDone := True\<rparr>)"
    if "loop s = Selecting" "stopChan s"
| close_first: "close_step v cd s (s\<lparr>closeOnce := Running, panicked := panicked s \<or> stopChan s, stopChan := True, callers := (callers s)[i := Joining]\<rparr>)"
    if "i < length (callers s)" "callers s ! i = Calling" "closeOnce s = Unused"
| joined: "close_step v cd s (s\<lparr>closeOnce := Finished, callers := (callers s)[i := Returned]\<rparr>)"
    if "i < length (callers s)" "callers s ! i = Joining" "cleanupDone s"
| close_again: "close_step v cd s (s\<lparr>callers := (callers s)[i := Returned]\<rparr>)"
    if "i < length (callers s)" "callers s ! i = Calling" "closeOnce s = Finished"

text \<open>The ticker fires while the loop waits, and callers arrive.\<close>

inductive tick :: "'fs closing \<Rightarrow> 'fs closing \<Rightarrow> bool" where
  fires: "tick s (s\<lparr>loop := Cleaning\<rparr>)" if "loop s = Selecting"
| arrives: "tick s (s\<lparr>callers := callers s @ [Calling]\<rparr>)"

definition closing_reachable :: "'fs vfs \<Rightarrow> codec \<Rightarrow> 'fs cache \<Rightarrow> 'fs closing \<Rightarrow> bool" where
  "closing_reachable v cd c s \<longleftrightarrow> (\<lambda>s s'. close_step v cd s s' \<or> tick s s')\<^sup>*\<^sup>* (opened c) s"

definition close_ok :: "'fs closing \<Rightarrow> bool" where
  "close_ok s \<longleftrightarrow> (cleanupDone s \<longleftrightarrow> loop s = Ended) \<and> (stopChan s \<longleftrightarrow> closeOnce s \<noteq> Unused) \<and> (closeOnce s = Running \<longleftrightarrow> Joining \<in> set (callers s))
     \<and> count_list (callers s) Joining \<le> 1 \<and> (closeOnce s = Finished \<longrightarrow> cleanupDone s) \<and> (Returned \<in> set (callers s) \<longrightarrow> closeOnce s = Finished) \<and> \<not> panicked s"

lemma count_list_update:
  "i < length xs \<Longrightarrow> count_list (xs[i := x]) y + of_bool (xs ! i = y) = count_list xs y + of_bool (x = y)"
proof (induction xs arbitrary: i)
  case (Cons a xs)
  then show ?case using Cons.IH [of "i - 1"] by (cases i) auto
qed simp

lemma in_count: "x \<in> set xs \<longleftrightarrow> 0 < count_list xs x"
  by (metis count_list_0_iff gr0I less_irrefl)

lemma close_ok_opened: "close_ok (opened c)"
  by (simp add: close_ok_def opened_def Let_def)

lemma close_ok_step: "close_step v cd s s' \<Longrightarrow> close_ok s \<Longrightarrow> close_ok s'"
proof (induction rule: close_step.induct)
  case (close_first i s)
  have "count_list ((callers s)[i := Joining]) Joining = count_list (callers s) Joining + 1"
    "count_list ((callers s)[i := Joining]) Returned = count_list (callers s) Returned"
    using count_list_update [OF close_first(1), of Joining Joining] count_list_update [OF close_first(1), of Joining Returned] close_first(2) by auto
  with close_first show ?case by (auto simp: close_ok_def in_count)
next
  case (joined i s)
  have "count_list ((callers s)[i := Returned]) Joining + 1 = count_list (callers s) Joining"
    using count_list_update [OF joined(1), of Returned Joining] joined(2) by auto
  with joined show ?case by (auto simp: close_ok_def in_count)
next
  case (close_again i s)
  have "count_list ((callers s)[i := Returned]) Joining = count_list (callers s) Joining"
    using count_list_update [OF close_again(1), of Returned Joining] close_again(2) by auto
  with close_again show ?case by (auto simp: close_ok_def in_count)
qed (auto simp: close_ok_def)

lemma close_ok_tick: "tick s s' \<Longrightarrow> close_ok s \<Longrightarrow> close_ok s'"
  by (induction rule: tick.induct) (auto simp: close_ok_def)

lemma close_ok_any: "(\<lambda>s s'. close_step v cd s s' \<or> tick s s')\<^sup>*\<^sup>* s s' \<Longrightarrow> close_ok s \<Longrightarrow> close_ok s'"
  by (induction rule: rtranclp_induct) (auto intro: close_ok_step close_ok_tick)


subsection \<open>Close returns, and then nothing runs\<close>

fun loop_rank :: "loop_pc \<Rightarrow> nat" where
  "loop_rank Cleaning = 2" | "loop_rank Selecting = 1" | "loop_rank Ended = 0"

fun caller_rank :: "close_pc \<Rightarrow> nat" where
  "caller_rank Calling = 2" | "caller_rank Joining = 1" | "caller_rank Returned = 0"

definition close_rank :: "'fs closing \<Rightarrow> nat" where
  "close_rank s = loop_rank (loop s) + sum_list (map caller_rank (callers s))"

lemma close_step_rank: "close_step v cd s s' \<Longrightarrow> close_rank s' < close_rank s"
proof (induction rule: close_step.induct)
  case (close_first i s)
  then show ?case using sum_update [of i "callers s" caller_rank Joining] by (simp add: close_rank_def)
next
  case (joined i s)
  then show ?case using sum_update [of i "callers s" caller_rank Returned] by (simp add: close_rank_def)
next
  case (close_again i s)
  then show ?case using sum_update [of i "callers s" caller_rank Returned] by (simp add: close_rank_def)
qed (simp_all add: close_rank_def)

interpretation cc: ending_system "close_step v cd" close_ok close_rank less_than for v cd
  by unfold_locales (auto intro: close_ok_step close_step_rank)

lemma stuck_returned:
  assumes ok: "close_ok s" and stuck: "\<nexists>s'. close_step v cd s s'"
  shows "set (callers s) \<subseteq> {Returned}"
proof
  fix pc assume "pc \<in> set (callers s)"
  then obtain i where i: "i < length (callers s)" "callers s ! i = pc" by (auto simp: in_set_conv_nth)
  have moves: "loop s = Ended" if "stopChan s"
    using stuck that swept halt by (cases "loop s") blast+
  have nobody: "False" if j: "j < length (callers s)" "callers s ! j = Joining" for j
  proof -
    have "Joining \<in> set (callers s)" using j by (metis nth_mem)
    then have "stopChan s" using ok by (simp add: close_ok_def)
    then have "cleanupDone s" using ok moves by (simp add: close_ok_def)
    with joined [OF j] stuck show False by blast
  qed
  show "pc \<in> {Returned}"
  proof (cases pc)
    case Calling
    then have "closeOnce s = Running" using i stuck close_first close_again by (cases "closeOnce s") blast+
    then have "Joining \<in> set (callers s)" using ok by (simp add: close_ok_def)
    then show ?thesis using nobody by (auto simp: in_set_conv_nth)
  qed (use i nobody in auto)
qed

lemma ended_stays:
  assumes "(\<lambda>s s'. close_step v cd s s' \<or> tick s s')\<^sup>*\<^sup>* s s'" "loop s = Ended"
  shows "loop s' = Ended \<and> kept s' = kept s"
  using assms
proof (induction rule: rtranclp_induct)
  case (step s1 s2)
  then have e: "loop s1 = Ended" "kept s1 = kept s" by simp_all
  from step(2) show ?case using e by (elim disjE close_step.cases tick.cases) auto
qed simp

text \<open>
  C25: Closing a cache stops its cleanup for good. However the ticker and any number of callers of \<^verbatim>\<open>Close\<close> interleave, no channel is closed
  twice; apart from new ticks and callers only finitely many steps remain, after which every caller has returned; and once any of them has
  returned, no cleanup is running or will run, so that the cache is not changed by the loop any more.
\<close>

theorem close_joins_cleanup:
  assumes reach: "closing_reachable v cd c s"
  shows "\<not> panicked s \<and> (\<nexists>run. run 0 = s \<and> (\<forall>n. close_step v cd (run n) (run (Suc n)))) \<and> (\<exists>s'. (close_step v cd)\<^sup>*\<^sup>* s s' \<and> (\<nexists>s''. close_step v cd s' s''))
    \<and> (\<forall>s'. (close_step v cd)\<^sup>*\<^sup>* s s' \<and> (\<nexists>s''. close_step v cd s' s'') \<longrightarrow> set (callers s') \<subseteq> {Returned})
    \<and> (\<forall>s'. Returned \<in> set (callers s) \<and> (\<lambda>s s'. close_step v cd s s' \<or> tick s s')\<^sup>*\<^sup>* s s' \<longrightarrow> loop s' = Ended \<and> kept s' = kept s)"
proof -
  have ok: "close_ok s" using close_ok_any close_ok_opened reach unfolding closing_reachable_def by blast
  have "loop s = Ended" if "Returned \<in> set (callers s)" using ok that by (auto simp: close_ok_def)
  then have "\<forall>s'. Returned \<in> set (callers s) \<and> (\<lambda>s s'. close_step v cd s s' \<or> tick s s')\<^sup>*\<^sup>* s s' \<longrightarrow> loop s' = Ended \<and> kept s' = kept s"
    using ended_stays by blast
  moreover have "\<forall>s'. (close_step v cd)\<^sup>*\<^sup>* s s' \<and> (\<nexists>s''. close_step v cd s' s'') \<longrightarrow> set (callers s') \<subseteq> {Returned}"
    using cc.ok_steps [OF _ ok] stuck_returned by blast
  moreover have "\<not> panicked s" using ok by (simp add: close_ok_def)
  ultimately show ?thesis using cc.no_endless_run [OF ok] cc.reaches_end [OF ok] by blast
qed

definition closing_at :: "loop_pc \<Rightarrow> bool \<Rightarrow> once \<Rightarrow> close_pc list \<Rightarrow> (string, string) gomap closing" where
  "closing_at l stop o' cs = \<lparr>kept = empty_cache [] False DefaultCacheConfig, loop = l, stopChan = stop, cleanupDone = (l = Ended), closeOnce = o', callers = cs, panicked = False\<rparr>"

abbreviation (input) closed_cache :: "(string, string) gomap closing" where
  "closed_cache \<equiv> closing_at Ended True Finished [Returned]"

lemma closed_cache_reachable: "closing_reachable mem_vfs line_codec (empty_cache [] False DefaultCacheConfig) closed_cache"
proof -
  let ?R = "\<lambda>s s'. close_step mem_vfs line_codec s s' \<or> tick s s'"
  have "loop (opened (empty_cache ([] :: (string, string) gomap) False DefaultCacheConfig)) = Selecting" by code_simp
  then have "opened (empty_cache [] False DefaultCacheConfig) = closing_at Selecting False Unused []"
    by (simp add: opened_def closing_at_def Let_def split: if_splits)
  moreover have "?R (closing_at Selecting False Unused []) (closing_at Selecting False Unused [Calling])"
    using arrives [of "closing_at Selecting False Unused []"] by (simp add: closing_at_def)
  moreover have "?R (closing_at Selecting False Unused [Calling]) (closing_at Selecting True Running [Joining])"
    using close_first [of 0 "closing_at Selecting False Unused [Calling]" mem_vfs line_codec] by (simp add: closing_at_def)
  moreover have "?R (closing_at Selecting True Running [Joining]) (closing_at Ended True Running [Joining])"
    using halt [of "closing_at Selecting True Running [Joining]" mem_vfs line_codec] by (simp add: closing_at_def)
  moreover have "?R (closing_at Ended True Running [Joining]) closed_cache"
    using joined [of 0 "closing_at Ended True Running [Joining]" mem_vfs line_codec] by (simp add: closing_at_def)
  ultimately show ?thesis unfolding closing_reachable_def by (metis (no_types, lifting) converse_rtranclp_into_rtranclp r_into_rtranclp)
qed

theorem close_joins_cleanup_witness: "\<not> panicked closed_cache \<and> loop closed_cache = Ended"
  using close_joins_cleanup [OF closed_cache_reachable] by (auto simp: closing_at_def)

end
