(* ===== verification/World.thy ===== *)
theory World
  imports Delivery
begin

text \<open>
  What serving a request does to the state of the cache, whatever the request, the answers of the origin, the failures of the file system
  and the other requests are. The interface \<open>cache_keeper\<close> is what the handler needs of its cache for that: an invariant that each of its
  operations keeps. The cache of \<^verbatim>\<open>src/cache.go\<close> provides it.
\<close>

definition ends_in :: "('x \<Rightarrow> bool) \<Rightarrow> 'x option \<Rightarrow> bool" where
  "ends_in P r \<longleftrightarrow> (\<exists>x. r = Some x \<and> P x)"

lemma ends_in_simps [simp]: "ends_in P (Some x) \<longleftrightarrow> P x" "\<not> ends_in P None" "ends_in P (map_option f r) \<longleftrightarrow> ends_in (P \<circ> f) r"
  by (auto simp: ends_in_def)

lemma ends_in_mono: "ends_in P r \<Longrightarrow> (\<And>x. P x \<Longrightarrow> P' x) \<Longrightarrow> ends_in P' r"
  by (auto simp: ends_in_def)

lemma ends_in_bind: "ends_in P r \<Longrightarrow> (\<And>x. P x \<Longrightarrow> ends_in P' (f x)) \<Longrightarrow> ends_in P' (case r of None \<Rightarrow> None | Some x \<Rightarrow> f x)"
  by (auto simp: ends_in_def)

text \<open>The worlds that other requests have made when this one goes on.\<close>

definition other_worlds :: "('c, 'b) events \<Rightarrow> ('c, 'b) world set" where
  "other_worlds ev = {w. (\<exists>expired. evAcquire ev = Granted w expired) \<or> Woken w \<in> set (evWaits ev)}"

subsection \<open>The requests that the origin gets\<close>

lemma background_asked: "store_in_background h en ev res r complete stage w = Some w' \<Longrightarrow> asked w' = asked w"
  using background_returns [of h en ev res r complete stage w] by auto

lemma staged_asked:
  assumes "stage_and_store h en ev ops r complete fin t res rest s w = Some (s', w')"
  shows "asked w' = asked w"
  using assms
  by (auto simp: stage_and_store_def completed_def close_stage_def Let_def split_beta record_metric_def
      split: prod.splits sum.splits if_splits dest!: background_asked)

lemma handler_asked:
  "passUpstreamWithHandler h en ev ops hk r complete origin t rw0 w = Some (x, w') \<Longrightarrow> asked w' = asked w"
  by (auto simp: passUpstreamWithHandler_def completed_def Let_def split_beta split: if_splits dest!: staged_asked)

lemma pass_asked: "passUpstream h en ev r complete cl w = Some (cl', w') \<Longrightarrow> asked w' = asked w @ [Request r]"
  by (auto simp: passUpstream_def contact_def dest!: handler_asked)

lemma fenced_asked [simp]: "asked (fenced h now keys w) = asked w"
  by (simp add: fenced_def with_state_def)

lemma refetch_asked: "refetchOriginalResponse h en ev ve r cl w = Some (cl', w') \<Longrightarrow> asked w' = asked w @ [Request r]"
  by (auto simp: refetchOriginalResponse_def dest!: pass_asked)

lemma deliver_asked: "deliverValidationExchange h en ev gone sr orig xc start cl w = Some (cl', w') \<Longrightarrow> asked w' = asked w"
  by (auto simp: deliverValidationExchange_def dest!: handler_asked)

lemma contact_asked [simp]: "asked (snd (contact h req w)) = asked w @ [req]"
  by (simp add: contact_def)

lemma rebuild_asked:
  assumes "streamVaryRebuild h en ev ve rebuilt orig cl w = Some (cl', w')"
  shows "\<exists>more. asked w' = asked w @ more \<and> more \<noteq> []"
proof -
  let ?w = "snd (contact h (Request rebuilt) w)"
  from assms consider "w' = ?w" | x cl2 where "refetchOriginalResponse h en ev ve x cl2 ?w = Some (cl', w')"
    | gone x xc start cl2 where "deliverValidationExchange h en ev gone rebuilt x xc start cl2 ?w = Some (cl', w')"
    by (auto simp: streamVaryRebuild_def split_beta Let_def split: if_splits)
  then show ?thesis by cases (auto dest: refetch_asked deliver_asked)
qed

lemma vary_asked: "refetchVaryResponse h en ev ve r vh cl w = Some (cl', w') \<Longrightarrow> \<exists>more. asked w' = asked w @ more \<and> more \<noteq> []"
  by (auto simp: refetchVaryResponse_def Let_def split: if_splits dest!: refetch_asked rebuild_asked)

text \<open>A validation either asks the origin or fails, and then the response is fetched anew.\<close>

lemma validate_asked:
  assumes "validateUpstreamResponse h en ev ve r res cl w = Some ((valid, served), res', cl', w')"
  shows "\<exists>more. asked w' = asked w @ more \<and> (valid \<or> served \<longrightarrow> more \<noteq> [])"
proof (cases "conditionalRequest (Request r) res")
  case None
  with assms show ?thesis by (simp add: validateUpstreamResponse_def)
next
  case (Some outreq)
  show ?thesis
  proof (cases "vGone1 ve \<or> vGone2 ve")
    case True
    with assms Some show ?thesis by (auto simp: validateUpstreamResponse_def Let_def split: if_splits)
  next
    case False
    let ?c = "contact h outreq (fenced h (vFence ve) [validationResourceKey (goEnv en) r] w)"
    let ?w = "snd ?c"
    from assms Some False consider "asked w' = asked ?w" | vh where "refetchVaryResponse h en ev ve r vh cl ?w = Some (cl', w')"
      | x where "deliverValidationExchange h en ev (vGoneTrailers ve) x (Request r) (exchanged (fst ?c)) (vStart ve) cl ?w = Some (cl', w')"
      by (auto simp: validateUpstreamResponse_def Let_def split_beta split: if_splits)
    then show ?thesis by cases (auto dest: vary_asked deliver_asked)
  qed
qed

lemma validated_asked:
  assumes v: "validateCachedResponse h en ev ve r res cl w = Some (found, cl', w')" and local: "\<not> Has (rCC r) ''only-if-cached''"
  shows "\<exists>more. asked w' = asked w @ more \<and> more \<noteq> []"
proof -
  obtain valid served res1 cl1 w1 where u: "validateUpstreamResponse h en ev ve r res cl w = Some ((valid, served), res1, cl1, w1)"
    using v local by (auto simp: validateCachedResponse_def Let_def split: option.splits if_splits)
  obtain more where m: "asked w1 = asked w @ more" "valid \<or> served \<longrightarrow> more \<noteq> []" using validate_asked [OF u] by blast
  from v u local consider "served \<or> valid" "asked w' = asked w1" | ve2 cl2 w2 where "refetchOriginalResponse h en ev ve2 r cl2 w2 = Some (cl', w')" "asked w2 = asked w1"
    | vh cl2 where "refetchVaryResponse h en ev ve r vh cl2 w1 = Some (cl', w')"
    by (auto simp: validateCachedResponse_def Let_def with_state_def split: option.splits if_splits prod.splits)
  then show ?thesis
    by cases (use m in \<open>auto dest!: refetch_asked vary_asked\<close>)
qed

lemma wait_status:
  "\<not> headerOnce s \<Longrightarrow> list_all final_call cs \<Longrightarrow> WaitHeaders ops cs s = (s', rest) \<Longrightarrow> StatusCode s' = final_status cs"
proof (induction cs arbitrary: s)
  case Nil
  then show ?case by (auto simp: rs_Close_def rs_WriteHeader_def CommitHeaders_def final_status_def Let_def)
next
  case (Cons c cs)
  have set: "\<not> headerOnce (rs_Set ops x s)" for x using Cons.prems(1) by (simp add: rs_Set_def)
  show ?case
    using Cons.prems Cons.IH [OF set] Cons.IH [OF Cons.prems(1)]
    by (cases c) (auto simp: rs_WriteHeader_def CommitHeaders_def final_status_def final_call_def Let_def)
qed

lemma mutation_marks:
  assumes ops: "hOps h = builtin_ops v x cd (goEnv en) sen held now" "hRequestKey h = None"
    and origin: "hUpstream h (asked w) (Request r) = (cs, fin)" "fin \<noteq> Panics" "list_all final_call cs" "200 \<le> final_status cs" "final_status cs < 400"
    and post: "isStateChanging r" "pipeUpstream h en mark pub r cl w = Some (cl', w')"
    and key: "key \<in> set (key_pair (goEnv en) (NewKey ''GET'' (URL (Request r)) hs))"
  shows "\<exists>ks. wcache w' = Invalidate v cd now ks (wcache w) \<and> wmarks w' = recordStale mark ks (wmarks w) \<and> key \<in> set ks"
proof -
  obtain s rest where wait: "WaitHeaders client_ops cs ((newResponseStreamer cl)\<lparr>deferHeaders := True\<rparr>) = (s, rest)" by (rule prod.exhaust)
  have st: "StatusCode s = final_status cs" by (rule wait_status [OF _ origin(3) wait]) (simp add: newResponseStreamer_def)
  let ?res = "NewResource (StatusCode s) [] (the (responseHeader s))"
  have "IsNonErrorStatus ?res" using st origin(4,5) by (simp add: IsNonErrorStatus_def NewResource_def)
  with post origin(1,2) wait
  have "(wcache w', wmarks w') = invalidateResource (ipLiteral en) (goEnv en) (hOps h) mark None ?res r (wcache w, wmarks w)"
    by (auto simp: pipeUpstream_def contact_def with_state_def state_of_def ops(2) Let_def)
  moreover have "key \<in> set (invalidationKeys (ipLiteral en) (goEnv en) ?res r)"
    using key by (auto simp: invalidationKeys_def key_pair_def NewKey_def key_String_def ForMethod_def)
  moreover from this have "invalidationKeys (ipLiteral en) (goEnv en) ?res r \<noteq> []" by auto
  ultimately show ?thesis by (auto simp: invalidateResource_def handler_invalidationKeys_def fence_def ops(1) builtin_ops_def Let_def)
qed

lemma stale_asks_origin:
  assumes "stale res" "\<not> Has (rCC r) ''only-if-cached''" "serveCachedResponse h en ev ve need ck r res cl w = Some (cl', w')"
  shows "\<exists>more. asked w' = asked w @ more \<and> more \<noteq> []"
proof -
  obtain found cl1 w1 where v: "validateCachedResponse h en ev ve r res cl w = Some (found, cl1, w1)" "asked w' = asked w1"
    using assms by (auto simp: serveCachedResponse_def needsValidation_def record_metric_def Let_def split: option.splits)
  with validated_asked [OF v(1) assms(2)] show ?thesis by simp
qed

locale cache_keeper =
  fixes h :: "('c, 'b) handler" and Q :: "'c \<Rightarrow> bool"
  assumes reads: "Q c \<Longrightarrow> opRetrieve (hOps h) key c = (r, c') \<Longrightarrow> Q c'"
    and rechecks: "Q c \<Longrightarrow> opRetrieveForRecheck (hOps h) = Some get \<or> opRetrieveUncounted (hOps h) = Some get \<Longrightarrow> get key c = (r, c') \<Longrightarrow> Q c'"
    and stores: "Q c \<Longrightarrow> store = opStore (hOps h) \<or> opStoreContext (hOps h) = Some store \<Longrightarrow> store res keys c = (err, c') \<Longrightarrow> Q c'"
    and freshens: "Q c \<Longrightarrow> opFreshen (hOps h) res keys c = (err, res', c') \<Longrightarrow> Q c'"
    and invalidates: "Q c \<Longrightarrow> Q (opInvalidate (hOps h) keys c)"
    and origin_returns: "Q c \<Longrightarrow> snd (hUpstream h reqs req) \<noteq> Panics"
begin

lemma lookup_keeps:
  assumes get: "\<And>key c r c'. Q c \<Longrightarrow> get key c = (r, c') \<Longrightarrow> Q c'" and "Q c" "lookupUsing e ops shared m req get c = (r, req', c')"
  shows "Q c'"
proof -
  have ev: "Q c1 \<Longrightarrow> Q (snd (with_evidence m get key c1))" for key c1
    using get [of c1 key "fst (get key c1)" "snd (get key c1)"] by (simp add: with_evidence_def split_beta)
  obtain r1 lk req1 c1 where b: "lookupBaseUsing e shared req (with_evidence m get) c = (r1, lk, req1, c1)" by (metis prod_cases4)
  have "Q c1"
    using b ev [OF assms(2)] ev [OF ev [OF assms(2)]] by (auto simp: lookupBaseUsing_def Let_def split_beta split: if_splits sum.splits)
  then show ?thesis
    using assms(3) b ev by (auto simp: lookupUsing_def lookupVaryResource_def Let_def split_beta split: if_splits sum.splits)
qed

lemma fence_keeps: "Q (fst s) \<Longrightarrow> Q (fst (fence (hOps h) now keys s))"
  using invalidates by (cases s) (simp add: fence_def)

lemma publish_keeps:
  assumes "Q (fst s)"
  shows "ends_in (\<lambda>x. Q (fst (snd x))) (publishResource (hOps h) t0 t1 res at keys s)"
proof -
  obtain r where r: "publishResource (hOps h) t0 t1 res at keys s = Some r" using publish_returns by blast
  moreover have "Q (snd (store res keys (fst s)))" if "store = opStore (hOps h) \<or> opStoreContext (hOps h) = Some store" for store
    using stores [OF assms that, of res keys "fst (store res keys (fst s))"] by simp
  ultimately show ?thesis
    by (cases s) (auto simp: publishResource_def Let_def split_beta split: option.splits)
qed

lemma freshen_keeps:
  assumes "Q (fst s)"
  shows "ends_in (\<lambda>x. Q (fst (snd (snd x)))) (freshenResource (hOps h) t0 t1 res keys s)"
proof -
  obtain r where r: "freshenResource (hOps h) t0 t1 res keys s = Some r" using freshen_returns by blast
  moreover have "Q (snd (snd (opFreshen (hOps h) res keys (fst s))))"
    using freshens [OF assms, of res keys "fst (opFreshen (hOps h) res keys (fst s))" "fst (snd (opFreshen (hOps h) res keys (fst s)))"] by simp
  ultimately show ?thesis by (cases s) (auto simp: freshenResource_def Let_def split_beta)
qed

abbreviation (input) kept_world :: "'x \<times> ('c, 'b) world \<Rightarrow> bool" where
  "kept_world \<equiv> \<lambda>x. Q (wcache (snd x))"

lemma background_keeps:
  assumes "Q (wcache w)"
  shows "ends_in (\<lambda>w. Q (wcache w)) (store_in_background h en ev res r complete stage w)"
proof -
  have "ends_in (\<lambda>x. Q (fst (snd x))) (storeResource (goEnv en) (hOps h) (hShared h) (fst (pPub ev)) (snd (pPub ev)) res r (state_of w))"
    unfolding storeResource_def Let_def by (rule publish_keeps) (simp add: state_of_def assms)
  then show ?thesis
    using assms by (auto simp: store_in_background_def close_stage_def completed_def record_metric_def with_state_def ends_in_def Let_def split_beta
        split: prod.split bool.split)
qed

lemma stage_keeps:
  assumes "Q (wcache w)"
  shows "ends_in kept_world (stage_and_store h en ev ops r complete fin t res rest s w)"
proof -
  have "ends_in (\<lambda>w. Q (wcache w)) (store_in_background h en ev res' r complete stage (record_metric m (w\<lparr>wbudget := b\<rparr>)))" for res' stage m b
    by (rule background_keeps) (simp add: record_metric_def assms)
  then show ?thesis
    using assms by (auto simp: stage_and_store_def completed_def close_stage_def comp_def Let_def split_beta split: prod.split sum.split)
qed

lemma pass_handler_keeps:
  assumes "Q (wcache w)" "snd origin \<noteq> Panics"
  shows "ends_in kept_world (passUpstreamWithHandler h en ev ops hk r complete origin t rw0 w)"
  using assms stage_keeps [OF assms(1)]
  by (auto simp: passUpstreamWithHandler_def completed_def comp_def split_beta Let_def)

lemma contact_fields [simp]:
  "wcache (snd (contact h req w)) = wcache w" "wmarks (snd (contact h req w)) = wmarks w" "Q (wcache w) \<Longrightarrow> snd (fst (contact h req w)) \<noteq> Panics"
  using origin_returns by (auto simp: contact_def)

lemma pass_keeps: "Q (wcache w) \<Longrightarrow> ends_in kept_world (passUpstream h en ev r complete cl w)"
  unfolding passUpstream_def by (simp add: split_beta pass_handler_keeps)

lemma fenced_keeps [simp]: "Q (wcache w) \<Longrightarrow> Q (wcache (fenced h now keys w))"
  using fence_keeps [of "state_of w"] by (simp add: fenced_def with_state_def state_of_def)

lemma pipe_keeps:
  assumes "Q (wcache w)"
  shows "ends_in kept_world (pipeUpstream h en now pub r cl w)"
proof -
  let ?w = "snd (contact h (Request r) w)"
  have "Q (fst (invalidateResource ip e (hOps h) now' rk res r (state_of ?w)))" for ip e now' rk res
    using assms by (auto simp: invalidateResource_def Let_def state_of_def intro!: fence_keeps)
  moreover have fr: "ends_in (\<lambda>x. Q (fst (snd (snd x)))) (freshenResource (hOps h) t0 t1 res keys (state_of ?w))" for t0 t1 res keys
    by (rule freshen_keeps) (simp add: state_of_def assms)
  ultimately show ?thesis
    using assms by (auto simp: pipeUpstream_def with_state_def split_beta Let_def intro!: ends_in_bind [OF fr])
qed

lemma refetch_keeps:
  assumes "Q (wcache w)"
  shows "ends_in kept_world (refetchOriginalResponse h en ev ve r cl w)"
  unfolding refetchOriginalResponse_def by (rule pass_keeps) (simp add: assms)

lemma deliver_keeps: "Q (wcache w) \<Longrightarrow> ends_in kept_world (deliverValidationExchange h en ev gone sr orig xc start cl w)"
  by (simp add: deliverValidationExchange_def comp_def split_beta pass_handler_keeps)

lemma rebuild_keeps:
  assumes "Q (wcache w)"
  shows "ends_in kept_world (streamVaryRebuild h en ev ve rebuilt orig cl w)"
  using assms by (simp add: streamVaryRebuild_def split_beta Let_def refetch_keeps deliver_keeps)

lemma vary_keeps: "Q (wcache w) \<Longrightarrow> ends_in kept_world (refetchVaryResponse h en ev ve r vh cl w)"
  by (simp add: refetchVaryResponse_def refetch_keeps rebuild_keeps Let_def)

lemma validate_keeps:
  assumes "Q (wcache w)"
  shows "ends_in (\<lambda>x. Q (wcache (snd (snd (snd x))))) (validateUpstreamResponse h en ev ve r res cl w)"
  using assms vary_keeps deliver_keeps
  by (auto simp: validateUpstreamResponse_def comp_def split_beta Let_def split: option.split)

lemma freshened_keeps:
  assumes "Q (fst s)"
  shows "ends_in (\<lambda>x. Q (fst (snd (snd x)))) (freshenValidatedResponse e (hOps h) t0 t1 res keys s)"
  using freshen_keeps [OF assms, of t0 t1 res keys] by (auto simp: freshenValidatedResponse_def ends_in_def split: option.split)

lemma cached_keeps:
  assumes "Q (wcache w)"
  shows "ends_in (\<lambda>x. Q (wcache (snd (snd x)))) (validateCachedResponse h en ev ve r res cl w)"
proof -
  obtain v served res' cl' w' where val: "validateUpstreamResponse h en ev ve r res cl w = Some ((v, served), res', cl', w')" "Q (wcache w')"
    using validate_keeps [OF assms, of en ev ve r res cl] by (auto simp: ends_in_def)
  have fr: "ends_in (\<lambda>x. Q (fst (snd (snd x)))) (freshenValidatedResponse e (hOps h) t0 t1 res keys (state_of w'))" for e t0 t1 res keys
    by (rule freshened_keeps) (simp add: state_of_def val)
  show ?thesis
    using assms val
    by (auto simp: validateCachedResponse_def comp_def with_state_def refetch_keeps vary_keeps split_beta Let_def intro!: ends_in_bind [OF fr])
qed

lemma hit_keeps:
  assumes "Q (wcache w)"
  shows "ends_in kept_world (serveCachedResponse h en ev ve need ck r res cl w)"
proof -
  obtain v cl' w' where v: "validateCachedResponse h en ev ve r res cl w = Some (v, cl', w')" "Q (wcache w')"
    using cached_keeps [OF assms, of en ev ve r res cl] by (auto simp: ends_in_def)
  then show ?thesis using assms by (cases v) (simp_all add: serveCachedResponse_def record_metric_def)
qed

lemma recheck_keeps:
  assumes "Q (wcache w)" "recheck h en r w = (found, r', w')"
  shows "Q (wcache w')"
proof -
  let ?get = "case opRetrieveForRecheck (hOps h) of Some get \<Rightarrow> get | None \<Rightarrow> (case opRetrieveUncounted (hOps h) of Some get \<Rightarrow> get | None \<Rightarrow> opRetrieve (hOps h))"
  have get: "Q c'" if q: "Q c" and g: "?get key c = (res, c')" for key c res c'
  proof -
    consider "?get = opRetrieve (hOps h)" | "opRetrieveForRecheck (hOps h) = Some ?get" | "opRetrieveUncounted (hOps h) = Some ?get"
      by (cases "opRetrieveForRecheck (hOps h)"; cases "opRetrieveUncounted (hOps h)") simp_all
    then show ?thesis
    proof cases
      case 1
      from g [unfolded 1] show ?thesis by (rule reads [OF q])
    qed (use rechecks [of c ?get key res c'] q g in blast)+
  qed
  obtain f r1 c1 where l: "lookupUsing (goEnv en) (hOps h) (hShared h) (wmarks w) r ?get (wcache w) = (f, r1, c1)" by (metis prod_cases3)
  have "Q c1" by (rule lookup_keeps [OF get assms(1) l])
  moreover have "w' = w\<lparr>wcache := c1\<rparr>" using assms(2) l by (simp add: recheck_def recheckMiss_def)
  ultimately show ?thesis by simp
qed

lemma lead_keeps:
  assumes "Q (wcache w)" "\<And>w' expired. acq = Granted w' expired \<Longrightarrow> Q (wcache w')"
  shows "ends_in (\<lambda>x. Q (wcache (snd (snd (snd x))))) (leadMiss h en ev acq gone r complete cl w)"
proof (cases acq)
  case (Refused away)
  then show ?thesis using assms by (simp add: leadMiss_def comp_def split_beta completed_def pass_keeps)
next
  case (Granted w' expired)
  obtain found r' w1 where rc: "recheck h en r w' = (found, r', w1)" by (metis prod_cases3)
  have "Q (wcache w1)" using recheck_keeps [OF _ rc] assms(2) Granted by blast
  then show ?thesis
    using assms(1) Granted rc by (auto simp: leadMiss_def comp_def split_beta completed_def pass_keeps split: sum.split)
qed

lemma resolve_keeps:
  assumes "Q (wcache w)" "\<And>w'. Woken w' \<in> set waits \<Longrightarrow> Q (wcache w')" "\<And>w' expired. acq = Granted w' expired \<Longrightarrow> Q (wcache w')"
  shows "ends_in (\<lambda>x. Q (wcache (snd (snd (snd x))))) (resolve_loop h en ev acq gone waits r cl w)"
  using assms(1,2)
proof (induction waits arbitrary: r w)
  case Nil
  then show ?case
    by (subst resolve_loop.simps) (auto simp: Let_def lead_keeps assms(3) split: prod.split bool.split)
next
  case (Cons a waits)
  show ?case
  proof (cases a)
    case Gone
    with Cons.prems(1) show ?thesis by (subst resolve_loop.simps) (auto simp: Let_def lead_keeps assms(3) split: prod.split bool.split)
  next
    case (Woken w')
    obtain found r' w1 where rc: "recheck h en r w' = (found, r', w1)" by (metis prod_cases3)
    have "Q (wcache w1)" using recheck_keeps [OF _ rc] Cons.prems(2) Woken by simp
    moreover from this have "ends_in (\<lambda>x. Q (wcache (snd (snd (snd x))))) (resolve_loop h en ev acq gone waits r' cl w1)"
      using Cons.IH Cons.prems(2) by simp
    ultimately show ?thesis
      using Cons.prems(1) Woken rc
      by (subst resolve_loop.simps) (auto simp: Let_def lead_keeps assms(3) pass_keeps comp_def split_beta split: prod.split bool.split sum.split)
  qed
qed

lemma cacheable_keeps:
  assumes q: "Q (wcache w)" and others: "\<And>w'. w' \<in> other_worlds ev \<Longrightarrow> Q (wcache w')"
  shows "ends_in kept_world (serveCacheable h en ev r cl w)"
proof -
  obtain found r' c where l: "lookup (goEnv en) (hOps h) (hShared h) (wmarks w) r (wcache w) = (found, r', c)" by (metis prod_cases3)
  have c: "Q c" using lookup_keeps [OF reads q l [unfolded lookup_def]] .
  have "ends_in (\<lambda>x. Q (wcache (snd (snd (snd x))))) (resolveMiss h en (evPass ev) (evAcquire ev) (evGone ev) (evWaits ev) r' cl (w\<lparr>wcache := c\<rparr>))"
    using c others unfolding other_worlds_def by (auto simp: resolveMiss_def record_metric_def intro!: resolve_keeps)
  then obtain v r2 cl2 w2 where m: "resolveMiss h en (evPass ev) (evAcquire ev) (evGone ev) (evWaits ev) r' cl (w\<lparr>wcache := c\<rparr>) = Some (v, r2, cl2, w2)"
      "Q (wcache w2)" by (auto simp: ends_in_def)
  show ?thesis
    using c m by (auto simp: serveCacheable_def l Let_def hit_keeps split: sum.split option.split)
qed

lemma serve_keeps:
  assumes "Q (wcache w)" "\<And>w'. w' \<in> other_worlds ev \<Longrightarrow> Q (wcache w')"
  shows "ends_in kept_world (ServeHTTP h en ev req cl w)"
  using assms by (auto simp: ServeHTTP_def Let_def record_metric_def pipe_keeps cacheable_keeps split: sum.split option.split)

end

text \<open>
  The invariant of the cache of \<^verbatim>\<open>src/cache.go\<close> between requests: its ledger is exact and no reservation is left. It is stated together with
  what it rests on: the laws of the file system, clocks past their zero, and an origin that does not panic.
\<close>

definition at_rest :: "'fs cache \<Rightarrow> bool" where
  "at_rest c \<longleftrightarrow> ledger_ok c \<and> (\<forall>k. \<not> active c k)"

definition sound :: "'fs vfs \<Rightarrow> storeenv \<Rightarrow> (request list \<Rightarrow> request \<Rightarrow> answer) \<Rightarrow> 'fs cache \<Rightarrow> bool" where
  "sound v sen upstream c \<longleftrightarrow> vfs_laws v \<and> (\<forall>key. 0 < clockDiscard sen key) \<and> (\<forall>reqs req. snd (upstream reqs req) \<noteq> Panics) \<and> at_rest c"

lemma at_rest_frame: "at_rest c \<Longrightarrow> ledger_ok c' \<Longrightarrow> reservations c' = reservations c \<Longrightarrow> at_rest c'"
  by (simp add: at_rest_def active_def)

lemma at_rest_retrieve:
  assumes "at_rest c" "retrieveRecorded v x e now key b c = (r, c')"
  shows "at_rest c'"
proof -
  have counted: "at_rest (recordMiss c1) \<longleftrightarrow> at_rest c1" "at_rest (recordHit c1) \<longleftrightarrow> at_rest c1" for c1 :: "'a cache"
    by (simp_all add: at_rest_def recordMiss_def recordHit_def ledger_ok_def active_def)
  have "at_rest (touchEntry now k c)" for k
    by (rule at_rest_frame [OF assms(1)]) (use assms(1) in \<open>simp_all add: at_rest_def touch_ok touch_frame\<close>)
  then have ret: "at_rest (snd (retrieve v x e now b key c))"
    using assms(1) by (auto simp: retrieve_def counted Let_def split: sum.split vfs_error.split option.split)
  have dis: "at_rest (discardCorrupt v x now key fault c1)" if "at_rest c1" for fault and c1 :: "'a cache"
  proof -
    have "at_rest (snd (discardUnadmitted v now key (hashKey key) sz 0 c1))" for sz
      using discard_ok(1,2) [of c1 v now key "hashKey key" sz 0] that by (metis at_rest_frame at_rest_def prod.collapse)
    then show ?thesis using that by (simp add: discardCorrupt_def Let_def split: sum.split)
  qed
  obtain r1 c1 where 1: "retrieve v x e now b key c = (r1, c1)" by (rule prod.exhaust)
  then have "at_rest c1" using ret by simp
  with 1 assms(2) dis show ?thesis
    by (auto simp: retrieveRecorded_def integrityResult_def counted Let_def split: sum.splits cache_error.splits if_splits)
qed

lemma at_rest_invalidate: "at_rest c \<Longrightarrow> at_rest (Invalidate v cd now keys c)"
  by (simp add: Invalidate_def invalidate_barrier_def invalidate_final_def at_rest_def ledger_ok_def active_def Let_def)

lemma at_rest_store:
  assumes "vfs_laws v" "\<And>key. 0 < clockDiscard en key" "at_rest c" "StoreContext v x cd e en res keys c = (err, c')"
  shows "at_rest c'"
  using store_outcome [OF assms(1) _ _ assms(2,4)] assms(3) unfolding at_rest_def by blast

lemma at_rest_freshen_keys:
  assumes "vfs_laws v"
  shows "at_rest c \<Longrightarrow> freshen_keys v x en held res keys inval c = (err, inval', res', c') \<Longrightarrow> at_rest c'"
proof (induction keys arbitrary: res inval c)
  case (Cons key keys)
  obtain r1 res1 c1 where f: "freshenResourceForKey v x en held res key c = (r1, res1, c1)" by (metis prod_cases3)
  have "at_rest c1" using freshened_key [OF assms _ _ f] Cons.prems(1) unfolding at_rest_def by blast
  then show ?case using Cons f by (auto split: if_splits sum.splits)
qed simp

lemma at_rest_freshen:
  assumes "vfs_laws v" "at_rest c" "cache_Freshen v x cd e en held now res keys c = (err, res', c')"
  shows "at_rest c'"
  using assms(2,3)
  by (auto simp: cache_Freshen_def Let_def split: if_splits prod.splits intro!: at_rest_invalidate dest!: at_rest_freshen_keys [OF assms(1,2)])

interpretation bc: cache_keeper "h\<lparr>hOps := builtin_ops v x cd e sen held now\<rparr>" "sound v sen (hUpstream h)"
  for h :: "('fs cache, 'b) handler" and v x cd e sen held now
proof
  fix store :: "resource \<Rightarrow> string list \<Rightarrow> 'fs cache \<Rightarrow> cache_error option \<times> 'fs cache" and c c' :: "'fs cache" and res keys err
  assume "sound v sen (hUpstream h) c" "store = opStore (hOps (h\<lparr>hOps := builtin_ops v x cd e sen held now\<rparr>))
      \<or> opStoreContext (hOps (h\<lparr>hOps := builtin_ops v x cd e sen held now\<rparr>)) = Some store" "store res keys c = (err, c')"
  then show "sound v sen (hUpstream h) c'"
    using at_rest_store [of v sen c x cd e res keys err c'] at_rest_store [of v "background sen" c x cd e res keys err c']
    by (auto simp: sound_def builtin_ops_def background_def)
qed (auto simp: sound_def builtin_ops_def cache_Retrieve_def RetrieveForRecheck_def intro: at_rest_retrieve at_rest_invalidate at_rest_freshen)

lemma request_ends_sound:
  assumes ops: "hOps h = builtin_ops v x cd e sen held now"
    and before: "sound v sen (hUpstream h) (wcache w)" "\<And>w'. w' \<in> other_worlds ev \<Longrightarrow> sound v sen (hUpstream h) (wcache w')"
  shows "ends_in (\<lambda>x. sound v sen (hUpstream h) (wcache (snd x))) (ServeHTTP h en ev req cl w)"
proof -
  have "h\<lparr>hOps := builtin_ops v x cd e sen held now\<rparr> = h" using ops by simp
  then show ?thesis using bc.serve_keeps [of v sen h w ev x cd e held now en req cl] before by simp
qed


lemma example_at_rest: "at_rest (empty_cache s disk config)"
  by (simp add: at_rest_def empty_ledger_ok example_free)


lemma mutation_served:
  assumes ops: "hOps h = builtin_ops v x cd (goEnv en) sen held now" "hRequestKey h = None"
    and origin: "hUpstream h (asked w) post = (cs, fin)" "fin \<noteq> Panics" "list_all final_call cs" "200 \<le> final_status cs" "final_status cs < 400"
    and post: "newCacheRequest (evTime ev) post = Inr r" "Method post \<notin> {''GET'', ''HEAD'', ''OPTIONS'', ''TRACE''}" "ServeHTTP h en ev post cl w = Some (cl1, w1)"
    and key: "key \<in> set (key_pair (goEnv en) (NewKey ''GET'' (URL post) hs))"
  shows "\<exists>ks. wcache w1 = Invalidate v cd now ks (wcache w) \<and> wmarks w1 = recordStale (evMark ev) ks (wmarks w) \<and> key \<in> set ks"
proof -
  have r: "Request r = post" using post(1) by (auto simp: newCacheRequest_def split: if_splits)
  then have sc: "isStateChanging r" "\<not> request_isCacheable r" using post(2) by (simp_all add: isStateChanging_def request_isCacheable_def)
  have same: "r\<lparr>rKey := rKey r\<rparr> = r" by simp
  have piped: "pipeUpstream h en (evMark ev) (evPub ev) r (cl\<lparr>live := Set (live cl) ''X-Cache'' ''SKIP''\<rparr>) (record_metric CacheSkip w) = Some (cl1, w1)"
    using post(1,3) sc(2) same by (simp add: ServeHTTP_def ops(2))
  have "hUpstream h (asked (record_metric CacheSkip w)) (Request r) = (cs, fin)" using origin(1) r by (simp add: record_metric_def)
  from mutation_marks [OF ops this origin(2-5) sc(1) piped, of key hs] show ?thesis using key r by (simp add: record_metric_def)
qed


lemma invalidated_files:
  assumes "vfs_laws v"
  shows "entry_files v key (Invalidate v cd now ks c) = entry_files v key c" "cfg (Invalidate v cd now ks c) = cfg c"
  using persist_files [OF assms, of key]
  by (simp_all add: Invalidate_def invalidate_final_def invalidate_barrier_def entry_files_def Let_def)

text \<open>The example: a response of \<^verbatim>\<open>/o\<close> is stored when a \<^verbatim>\<open>POST\<close> to it arrives, and a \<^verbatim>\<open>GET\<close> follows.\<close>

definition stocked_start :: "((string, string) gomap cache, counted) world" where
  "stocked_start = example_start\<lparr>wcache := example_opened IntegrityDisabled (key_String seconds_env (NewRequestKey (Request example_get))) ''hi''\<rparr>"

definition reading_request :: cacheRequest where
  "reading_request = projr (newCacheRequest (evTime example_events) (Request example_get))"

lemma reading_request_facts:
  "newCacheRequest (evTime example_events) (Request example_get) = Inr reading_request"
  "newCacheRequest (evTime example_events) (Request example_post) = Inr (projr (newCacheRequest (evTime example_events) (Request example_post)))"
  "rKey reading_request = NewRequestKey (Request example_get)" "request_isCacheable reading_request" "\<not> Has (rCC reading_request) ''only-if-cached''"
proof -
  have "\<not> isl (newCacheRequest (evTime example_events) (Request example_get))" "\<not> isl (newCacheRequest (evTime example_events) (Request example_post))"
    "request_isCacheable reading_request" "\<not> Has (rCC reading_request) ''only-if-cached''" by code_simp+
  then show "newCacheRequest (evTime example_events) (Request example_get) = Inr reading_request"
    "newCacheRequest (evTime example_events) (Request example_post) = Inr (projr (newCacheRequest (evTime example_events) (Request example_post)))"
    "rKey reading_request = NewRequestKey (Request example_get)" "request_isCacheable reading_request" "\<not> Has (rCC reading_request) ''only-if-cached''"
    by (auto simp: reading_request_def newCacheRequest_def split: if_splits)
qed

lemma stale_entry_found:
  assumes "entry_files mem_vfs (key_String seconds_env (rKey r)) c = (Inr ''hi'', Inr (stored_record plain_recenv (Integrity (cfg c)) example_response (key_String seconds_env (rKey r)) 7))"
    and "keepsMarkers m"
  shows "\<exists>res r' c'. lookup seconds_env (mem_ops 20) shared m r c = (Inr res, r', c') \<and> \<not> StoredAfter seconds_env res 20"
proof -
  let ?k = "key_String seconds_env (rKey r)"
  have b: "stored_body example_response = ''hi''" by code_simp
  obtain got c' where g: "cache_Retrieve mem_vfs plain_recenv seconds_env 20 ?k c = (Inr got, c')" "delivers example_response ?k 7 (StaleAt c ?k) got"
    using retrieve_hit [OF mem_stat_law example_readable, of ?k c seconds_env 20] assms(1) b by auto
  have "storedAt (markInvalidatedResource e ops c' h' k1 k2 s got) = 7" for e h' k1 k2 s and ops :: "(string, string) gomap cache cache_ops"
    using g(2) by (simp add: markInvalidatedResource_def MarkStale_def delivers_def Let_def split: option.split)
  moreover have "generationRetriever m m ?k (Inr got) = Inr got" using assms(2) by (simp add: generationRetriever_def)
  moreover have "combinedHeaderValues (rheader got) ''Vary'' = []" using no_vary_delivered [OF g(2)] example_no_vary by blast
  moreover have "opRetrieve (mem_ops 20) ?k c = (Inr got, c')" using g(1) by (simp add: builtin_ops_def)
  ultimately show ?thesis
    using lookup_plain_hit [of "mem_ops 20" seconds_env r c got c' m got shared] by (auto simp: StoredAfter_def isZero_def)
qed

lemma example_served:
  assumes "at_rest (wcache w)"
  shows "\<exists>cl' w'. ServeHTTP (example_handler None example_calls) example_env example_events req cl w = Some (cl', w') \<and> at_rest (wcache w')"
proof -
  have "ends_in (\<lambda>x. sound mem_vfs quiet (hUpstream (example_handler None example_calls)) (wcache (snd x)))
      (ServeHTTP (example_handler None example_calls) example_env example_events req cl w)"
    by (rule request_ends_sound [of _ mem_vfs plain_recenv line_codec seconds_env quiet True 20])
      (use assms in \<open>simp_all add: example_handler_def sound_def mem_vfs_laws example_free other_worlds_def example_events_def\<close>)
  then show ?thesis by (auto simp: ends_in_def sound_def)
qed

lemma stocked_at_rest: "at_rest (wcache stocked_start)"
  by (simp add: stocked_start_def example_opened_def example_at_rest)


end
