(* ===== verification/Descriptors.thy ===== *)
theory Descriptors
  imports Freshen
begin

text \<open>
  The files that reading an entry keeps open (\<^verbatim>\<open>src/cache_provenance.go\<close> and the \<^verbatim>\<open>Close\<close> calls of \<^verbatim>\<open>readHeaderProvenance\<close>,
  \<^verbatim>\<open>retrieve\<close>, \<^verbatim>\<open>header\<close> and \<^verbatim>\<open>discardCorrupt\<close>). The operations of \<open>Retrieve\<close> and \<open>Freshen\<close> are refined by a table of descriptors:
  each \<^verbatim>\<open>Open\<close> takes a new number, each \<^verbatim>\<open>Close\<close> is written down, and which reads and closes fail is open. A descriptor whose \<^verbatim>\<open>Close\<close> fails counts as
  closed, as in \<^verbatim>\<open>os.File\<close>.
\<close>

subsection \<open>Descriptors\<close>

record files =
  issued :: nat
  closes :: "nat list"

definition open_files :: "files \<Rightarrow> nat set" where
  "open_files d = {i. i < issued d \<and> i \<notin> set (closes d)}"

definition open_fd :: "files \<Rightarrow> nat \<times> files" where
  "open_fd d = (issued d, d\<lparr>issued := issued d + 1\<rparr>)"

definition close_fd :: "nat \<Rightarrow> files \<Rightarrow> files" where
  "close_fd i d = d\<lparr>closes := closes d @ [i]\<rparr>"

record fd_env =
  readFails :: "nat \<Rightarrow> bool"
  closeFails :: "nat \<Rightarrow> bool"

record headerRetainingBody =
  hbody :: nat
  hheader :: nat
  hclosed :: bool
  herr :: bool

datatype body = OpenedBody nat | RetainingBody headerRetainingBody

definition retaining_Close :: "fd_env \<Rightarrow> headerRetainingBody \<Rightarrow> files \<Rightarrow> bool \<times> headerRetainingBody \<times> files" where
  \<comment> \<open>\<^verbatim>\<open>(b *headerRetainingBody) Close\<close>; the flag is the error\<close>
  "retaining_Close fe b d =
     (if hclosed b then (herr b, b, d)
      else let err = (closeFails fe (hbody b) \<or> closeFails fe (hheader b))
           in (err, b\<lparr>hclosed := True, herr := err\<rparr>, close_fd (hheader b) (close_fd (hbody b) d)))"

definition replaceHeader :: "fd_env \<Rightarrow> nat \<Rightarrow> headerRetainingBody \<Rightarrow> files \<Rightarrow> bool \<times> headerRetainingBody \<times> files" where
  "replaceHeader fe f b d =
     (if hclosed b then (True, b, close_fd f d)
      else (closeFails fe (hheader b), b\<lparr>hheader := f\<rparr>, close_fd (hheader b) d))"

definition body_Close :: "fd_env \<Rightarrow> body \<Rightarrow> files \<Rightarrow> bool \<times> body \<times> files" where
  "body_Close fe b d =
     (case b of OpenedBody f \<Rightarrow> (closeFails fe f, b, close_fd f d)
      | RetainingBody rb \<Rightarrow> (let (err, rb, d) = retaining_Close fe rb d in (err, RetainingBody rb, d)))"

subsection \<open>Reading entries\<close>

definition readHeaderProvenance_fd ::
  "'fs vfs \<Rightarrow> recenv \<Rightarrow> fd_env \<Rightarrow> string \<Rightarrow> string \<Rightarrow> bool \<Rightarrow> bool \<Rightarrow> 'fs cache \<Rightarrow> files
    \<Rightarrow> (cache_error + (Header \<times> time \<times> integrityRecord option \<times> (int option \<times> string))) \<times> nat option \<times> files" where
  \<comment> \<open>the file is \<^verbatim>\<open>proof.file\<close>; in all other cases the deferred function closes it\<close>
  "readHeaderProvenance_fd v x fe path key checkKey retainFile c d =
     (case vRead v path (fs c) of
        Inl NotExist \<Rightarrow> (Inl NotFoundInCache, None, d)
      | Inl OtherError \<Rightarrow> (Inl OpenFailed, None, d)
      | Inr raw \<Rightarrow>
        let (f, d) = open_fd d; closed = close_fd f d in
        if readFails fe f then (Inl OpenFailed, None, closed)
        else if \<not> suffix headerRecordTerminator raw then (Inl NotFoundInCache, None, closed)
        else case decodeIntegrityRecord x raw key (Integrity (cfg c) \<noteq> IntegrityDisabled) checkKey of
          Inl fault \<Rightarrow> (Inl (CorruptEntry fault), None, closed)
        | Inr meta \<Rightarrow>
          case readStoredHeaders x raw of
            Inl err \<Rightarrow> (Inl (case meta of Some m \<Rightarrow> CorruptEntry (mfingerprint m, BadHeaderRecord) | None \<Rightarrow> HeaderError err), None, closed)
          | Inr (h, at) \<Rightarrow>
            if diskRoot c
            then (case vFileId v path (fs c) of Inl _ \<Rightarrow> (Inl OpenFailed, None, closed)
                  | Inr i \<Rightarrow> if retainFile then (Inr (h, at, meta, (Some i, sha256Text x raw)), Some f, d)
                             else (Inr (h, at, meta, (Some i, sha256Text x raw)), None, closed))
            else (Inr (h, at, meta, (None, sha256Text x raw)), None, closed))"

definition discardCorrupt_fd ::
  "'fs vfs \<Rightarrow> recenv \<Rightarrow> fd_env \<Rightarrow> time \<Rightarrow> string \<Rightarrow> corruptEntryError \<Rightarrow> 'fs cache \<Rightarrow> files \<Rightarrow> 'fs cache \<times> files" where
  "discardCorrupt_fd v x fe now key fault c d =
     (case vRead v (headerPath (hashKey key)) (fs c) of Inl _ \<Rightarrow> (c, d)
      | Inr raw \<Rightarrow> let (f, d) = open_fd d; d = close_fd f d in (if readFails fe f then c else discardCorrupt v x now key fault c, d))"

definition integrityResult_fd ::
  "'fs vfs \<Rightarrow> recenv \<Rightarrow> fd_env \<Rightarrow> time \<Rightarrow> string \<Rightarrow> bool \<Rightarrow> (cache_error + 'a) \<times> 'fs cache \<times> files \<Rightarrow> (cache_error + 'a) \<times> 'fs cache \<times> files" where
  "integrityResult_fd v x fe now key record_it = (\<lambda>(r, c, d). case r of
     Inl (CorruptEntry fault) \<Rightarrow>
       let (c, d) = discardCorrupt_fd v x fe now key fault c d in (Inl NotFoundInCache, if record_it then recordMiss c else c, d)
   | _ \<Rightarrow> (r, c, d))"

definition header_fd :: "'fs vfs \<Rightarrow> recenv \<Rightarrow> fd_env \<Rightarrow> string \<Rightarrow> 'fs cache \<Rightarrow> files \<Rightarrow> (cache_error + Header) \<times> files" where
  "header_fd v x fe key c d =
     (let hashed = hashKey key in
      case readHeaderProvenance_fd v x fe (headerPath hashed) key True False c d of
        (Inl err, _, d) \<Rightarrow> (Inl err, d)
      | (Inr (h, at, None, pr), _, d) \<Rightarrow> (Inr h, d)
      | (Inr (h, at, Some meta, pr), _, d) \<Rightarrow>
        (case vRead v (bodyPath hashed) (fs c) of
           Inl NotExist \<Rightarrow> (Inl (CorruptEntry (mfingerprint meta, BodyMissing)), d)
         | Inl OtherError \<Rightarrow> (Inl OpenFailed, d)
         | Inr bytes \<Rightarrow>
           let (f, d) = open_fd d in
           (if readFails fe f then Inl OpenFailed
            else case verifyStoredBody x bytes meta (mfingerprint meta) of Some fault \<Rightarrow> Inl (CorruptEntry fault) | None \<Rightarrow> Inr h,
            close_fd f d)))"

definition retrieve_fd ::
  "'fs vfs \<Rightarrow> recenv \<Rightarrow> goenv \<Rightarrow> fd_env \<Rightarrow> time \<Rightarrow> bool \<Rightarrow> string \<Rightarrow> 'fs cache \<Rightarrow> files
    \<Rightarrow> (cache_error + resource \<times> body) \<times> 'fs cache \<times> files" where
  "retrieve_fd v x e fe now record_it key c d =
     (let k = hashKey key; missed = (if record_it then recordMiss c else c) in
      case vRead v (bodyPath k) (fs c) of
        Inl NotExist \<Rightarrow> (Inl NotFoundInCache, missed, d)
      | Inl OtherError \<Rightarrow> (Inl OpenFailed, c, d)
      | Inr bytes \<Rightarrow>
        let (f, d) = open_fd d in
        case readHeaderProvenance_fd v x fe (headerPath k) key True True c d of
          (Inl err, _, d) \<Rightarrow> (Inl err, if err = NotFoundInCache then missed else c, close_fd f d)
        | (Inr (h, persistedAt, meta, pr), file, d) \<Rightarrow>
          let b = (case file of None \<Rightarrow> OpenedBody f | Some hf \<Rightarrow> RetainingBody \<lparr>hbody = f, hheader = hf, hclosed = False, herr = False\<rparr>);
              fault = (case meta of None \<Rightarrow> None
                       | Some m \<Rightarrow> if readFails fe f then Some OpenFailed else map_option CorruptEntry (verifyStoredBody x bytes m (mfingerprint m)))
          in (case fault of Some err \<Rightarrow> (Inl err, c, snd (snd (body_Close fe b d)))
           | None \<Rightarrow>
             let res = NewResource (hStatusCode h) bytes (hHeader h);
                 res = SetStoredAt res (if isZero persistedAt then entryStoredAt k c else persistedAt);
                 res = res\<lparr>storedKey := key, storageGeneration := entryGeneration k c, storageRecord := Some pr\<rparr>;
                 res = (case StaleAt c key of None \<Rightarrow> res | Some staleTime \<Rightarrow> if \<not> StoredAfter e res staleTime then MarkStale res else res);
                 c = touchEntry now k c
             in (Inr (res, b), if record_it then recordHit c else c, d)))"

definition retrieveRecorded_fd ::
  "'fs vfs \<Rightarrow> recenv \<Rightarrow> goenv \<Rightarrow> fd_env \<Rightarrow> time \<Rightarrow> string \<Rightarrow> bool \<Rightarrow> 'fs cache \<Rightarrow> files
    \<Rightarrow> (cache_error + resource \<times> body) \<times> 'fs cache \<times> files" where
  "retrieveRecorded_fd v x e fe now key record_it c d = integrityResult_fd v x fe now key record_it (retrieve_fd v x e fe now record_it key c d)"

definition advanceResourceProvenance_fd ::
  "'fs vfs \<Rightarrow> recenv \<Rightarrow> fd_env \<Rightarrow> resource \<Rightarrow> body \<Rightarrow> string \<Rightarrow> string \<Rightarrow> time \<Rightarrow> 'fs cache \<Rightarrow> files
    \<Rightarrow> cache_error option \<times> resource \<times> body \<times> files" where
  "advanceResourceProvenance_fd v x fe res b key raw at c d =
     (if storageRecord res = None then (None, res, b, d)
      else if diskRoot c then
        (case readHeaderProvenance_fd v x fe (headerPath (hashKey key)) key True True c d of
           (Inl err, _, d) \<Rightarrow> (Some err, res, b, d)
         | (Inr (h, a, m, pr), None, d) \<Rightarrow> (Some OpenFailed, res, b, d) \<comment> \<open>does not occur: the file was asked for\<close>
         | (Inr (h, a, m, pr), Some f, d) \<Rightarrow>
             (case b of OpenedBody _ \<Rightarrow> (Some OpenFailed, res, b, close_fd f d)
              | RetainingBody rb \<Rightarrow>
                  let (err, rb, d) = replaceHeader fe f rb d
                  in (if err then (Some OpenFailed, res, RetainingBody rb, d)
                      else (None, SetStoredAt (res\<lparr>storageRecord := Some pr\<rparr>) at, RetainingBody rb, d))))
      else (None, SetStoredAt (res\<lparr>storageRecord := Some (None, sha256Text x raw)\<rparr>) at, b, d))"

subsection \<open>The operations without descriptors\<close>

text \<open>As long as what opens can be read, the operations are those of \<open>Retrieve\<close> and \<open>Freshen\<close>.\<close>

definition readable_files :: "fd_env \<Rightarrow> bool" where
  "readable_files fe \<longleftrightarrow> (\<forall>f. \<not> readFails fe f)"

lemma readHeader_refines:
  "readable_files fe \<Longrightarrow> fst (readHeaderProvenance_fd v x fe path key ck retain c d) = readHeaderProvenance v x path key ck c"
  by (simp add: readHeaderProvenance_fd_def readHeaderProvenance_def readable_files_def open_fd_def Let_def split: sum.split vfs_error.split prod.split)

lemma retrieve_refines:
  assumes "readable_files fe" "retrieve_fd v x e fe now record_it key c d = (r, c', d')"
  shows "retrieve v x e now record_it key c = (map_sum (\<lambda>err. err) fst r, c')"
proof (cases "vRead v (bodyPath (hashKey key)) (fs c)")
  case (Inl err)
  with assms(2) show ?thesis by (cases err) (auto simp: retrieve_fd_def retrieve_def Let_def)
next
  case (Inr bytes)
  obtain r1 kept d1 where h: "readHeaderProvenance_fd v x fe (headerPath (hashKey key)) key True True c (snd (open_fd d)) = (r1, kept, d1)"
    by (metis prod_cases3)
  have r1: "readHeaderProvenance v x (headerPath (hashKey key)) key True c = r1"
    using readHeader_refines [OF assms(1), of v x "headerPath (hashKey key)" key True True c "snd (open_fd d)"] h by simp
  show ?thesis
    using assms h Inr
    by (cases r1) (auto simp: retrieve_fd_def retrieve_def r1 readable_files_def open_fd_def Let_def split: option.splits prod.splits)
qed

lemma discard_refines:
  "readable_files fe \<Longrightarrow> discardCorrupt_fd v x fe now key fault c d = (c', d') \<Longrightarrow> discardCorrupt v x now key fault c = c'"
  by (auto simp: discardCorrupt_fd_def discardCorrupt_def readable_files_def open_fd_def Let_def split: sum.splits)

lemma retrieveRecorded_refines:
  assumes "readable_files fe" "retrieveRecorded_fd v x e fe now key record_it c d = (r, c', d')"
  shows "retrieveRecorded v x e now key record_it c = (map_sum (\<lambda>err. err) fst r, c')"
proof -
  obtain r1 c1 d1 where 1: "retrieve_fd v x e fe now record_it key c d = (r1, c1, d1)" by (metis prod_cases3)
  with retrieve_refines [OF assms(1) 1] assms(2) show ?thesis
    by (auto dest!: discard_refines [OF assms(1)] simp: retrieveRecorded_fd_def retrieveRecorded_def integrityResult_fd_def integrityResult_def Let_def
        split: sum.splits cache_error.splits prod.splits)
qed

lemma header_refines: "readable_files fe \<Longrightarrow> fst (header_fd v x fe key c d) = header v x key c"
proof -
  assume r: "readable_files fe"
  obtain r1 kept d1 where h: "readHeaderProvenance_fd v x fe (headerPath (hashKey key)) key True False c d = (r1, kept, d1)"
    by (metis prod_cases3)
  then have "readHeaderProvenance v x (headerPath (hashKey key)) key True c = r1" using readHeader_refines [OF r] by (metis fst_conv)
  with h r show ?thesis
    by (cases r1) (auto simp: header_fd_def header_def readable_files_def open_fd_def Let_def split: sum.split vfs_error.split option.split)
qed

text \<open>A file is handed on exactly when it was asked for and the record of a disk cache was read.\<close>

lemma retained_iff:
  assumes "readHeaderProvenance_fd v x fe path key ck retain c d = (r, file, d')"
  shows "file \<noteq> None \<longleftrightarrow> retain \<and> diskRoot c \<and> \<not> isl r"
  using assms by (auto simp: readHeaderProvenance_fd_def open_fd_def Let_def split: sum.splits vfs_error.splits prod.splits if_splits)

definition exchangeable :: "fd_env \<Rightarrow> body \<Rightarrow> bool" where
  "exchangeable fe b \<longleftrightarrow> (case b of OpenedBody _ \<Rightarrow> False | RetainingBody rb \<Rightarrow> \<not> hclosed rb \<and> \<not> closeFails fe (hheader rb))"

lemma advance_refines:
  assumes "readable_files fe" "advanceResourceProvenance_fd v x fe res b key raw at c d = (err, res', b', d')"
  shows "advanceResourceProvenance v x (exchangeable fe b) res key raw at c = (err, res')"
proof -
  obtain r1 kept d1 where h: "readHeaderProvenance_fd v x fe (headerPath (hashKey key)) key True True c d = (r1, kept, d1)"
    by (metis prod_cases3)
  then have r1: "readHeaderProvenance v x (headerPath (hashKey key)) key True c = r1" using readHeader_refines [OF assms(1)] by (metis fst_conv)
  show ?thesis
    using assms(2) h r1 retained_iff [OF h]
    by (cases r1; cases kept)
      (auto simp: advanceResourceProvenance_fd_def advanceResourceProvenance_def exchangeable_def replaceHeader_def split: body.splits if_splits prod.splits)
qed

subsection \<open>Who holds which file\<close>

definition held_fds :: "body \<Rightarrow> nat list" where
  "held_fds b = (case b of OpenedBody f \<Rightarrow> [f] | RetainingBody rb \<Rightarrow> [hbody rb, hheader rb])"

definition files_ok :: "files \<Rightarrow> bool" where
  "files_ok d \<longleftrightarrow> (\<forall>i \<in> set (closes d). i < issued d)"

text \<open>An operation gains descriptors if afterwards just these are open beside those that were open before.\<close>

definition gains :: "files \<Rightarrow> nat list \<Rightarrow> files \<Rightarrow> bool" where
  "gains d new d' \<longleftrightarrow> files_ok d' \<and> issued d \<le> issued d' \<and> set (closes d) \<subseteq> set (closes d') \<and> distinct new \<and> (\<forall>i \<in> set new. issued d \<le> i)
     \<and> open_files d' = open_files d \<union> set new \<and> (distinct (closes d) \<longrightarrow> distinct (closes d'))"

lemma gains_none: "files_ok d \<Longrightarrow> gains d [] d"
  by (simp add: gains_def)

lemma gains_open: "files_ok d \<Longrightarrow> open_fd d = (f, d') \<Longrightarrow> gains d [f] d'"
  by (auto simp: gains_def files_ok_def open_files_def open_fd_def less_Suc_eq)

lemma gains_files_ok: "gains d new d' \<Longrightarrow> files_ok d'"
  by (simp add: gains_def)

lemma gains_trans: "gains d new d1 \<Longrightarrow> gains d1 new2 d2 \<Longrightarrow> gains d (new @ new2) d2"
proof -
  assume a: "gains d new d1" "gains d1 new2 d2"
  have "i < issued d1" if "i \<in> set new" for i
  proof -
    have "i \<in> open_files d1" using a(1) that by (simp add: gains_def)
    then show ?thesis by (simp add: open_files_def)
  qed
  then have "set new \<inter> set new2 = {}" using a(2) unfolding gains_def by force
  with a show ?thesis unfolding gains_def by (auto intro: order_trans)
qed

lemma close_open:
  assumes "files_ok d" "f \<in> open_files d"
  shows "files_ok (close_fd f d)" "open_files (close_fd f d) = open_files d - {f}" "distinct (closes d) \<Longrightarrow> distinct (closes (close_fd f d))"
    "issued (close_fd f d) = issued d" "set (closes (close_fd f d)) = insert f (set (closes d))"
  using assms by (auto simp: files_ok_def open_files_def close_fd_def)

lemma gains_close: "gains d (as @ f # bs) d1 \<Longrightarrow> gains d (as @ bs) (close_fd f d1)"
  using close_open [of d1 f] by (auto simp: gains_def open_files_def)

lemmas gains_close_only = gains_close [where as = "[]", simplified]

lemma read_gains:
  assumes "files_ok d" "readHeaderProvenance_fd v x fe path key ck retain c d = (r, kept, d')"
  shows "gains d (case kept of None \<Rightarrow> [] | Some f \<Rightarrow> [f]) d'"
proof -
  obtain f d1 where o: "open_fd d = (f, d1)" by (rule prod.exhaust)
  note g = gains_open [OF assms(1) o]
  note g [THEN gains_close_only] gains_none [OF assms(1)]
  with assms(2) g o show ?thesis
    by (auto simp: readHeaderProvenance_fd_def Let_def split: sum.splits vfs_error.splits prod.splits if_splits)
qed

lemma header_gains:
  assumes "files_ok d" "header_fd v x fe key c d = (r, d')"
  shows "gains d [] d'"
proof -
  obtain r1 kept d1 where h: "readHeaderProvenance_fd v x fe (headerPath (hashKey key)) key True False c d = (r1, kept, d1)" by (metis prod_cases3)
  have g: "gains d [] d1" using read_gains [OF assms(1) h] retained_iff [OF h] by simp
  obtain f d2 where o: "open_fd d1 = (f, d2)" by (rule prod.exhaust)
  have "gains d [] (close_fd f d2)"
    using gains_trans [OF g gains_open [OF gains_files_ok [OF g] o]] gains_close_only by simp
  with g assms(2) h o show ?thesis
    by (cases r1) (auto simp: header_fd_def Let_def split: sum.splits vfs_error.splits option.splits)
qed

definition new_body :: "bool \<Rightarrow> body \<Rightarrow> bool" where
  "new_body disk b \<longleftrightarrow> (case b of OpenedBody _ \<Rightarrow> \<not> disk | RetainingBody rb \<Rightarrow> \<not> hclosed rb)"

lemma retrieve_gains:
  assumes "files_ok d" "retrieve_fd v x e fe now record_it key c d = (r, c', d')"
  shows "case r of Inl _ \<Rightarrow> gains d [] d' | Inr (res, b) \<Rightarrow> gains d (held_fds b) d' \<and> new_body (diskRoot c) b"
proof (cases "vRead v (bodyPath (hashKey key)) (fs c)")
  case (Inl err)
  with assms gains_none show ?thesis by (cases err) (auto simp: retrieve_fd_def Let_def)
next
  case (Inr bytes)
  obtain f d1 where o: "open_fd d = (f, d1)" by (rule prod.exhaust)
  obtain r1 kept d2 where h: "readHeaderProvenance_fd v x fe (headerPath (hashKey key)) key True True c d1 = (r1, kept, d2)" by (metis prod_cases3)
  have g: "gains d (f # (case kept of None \<Rightarrow> [] | Some g \<Rightarrow> [g])) d2"
    using gains_trans [OF gains_open [OF assms(1) o] read_gains [OF gains_files_ok [OF gains_open [OF assms(1) o]] h]] by simp
  note k = retained_iff [OF h]
  show ?thesis
  proof (cases r1)
    case (Inl err)
    then have "gains d [] (close_fd f d2)" using g k gains_close_only by (cases kept) auto
    with assms(2) Inr o h Inl show ?thesis by (auto simp: retrieve_fd_def Let_def)
  next
    case r1: (Inr y)
    obtain hh at meta pr where y: "y = (hh, at, meta, pr)" by (metis prod_cases4)
    show ?thesis
    proof (cases kept)
      case None
      then have "gains d [f] d2" "gains d [] (close_fd f d2)" using g gains_close_only by auto
      with None k r1 y assms(2) Inr o h show ?thesis
        by (auto simp: retrieve_fd_def held_fds_def new_body_def body_Close_def Let_def split: option.splits)
    next
      case (Some hf)
      then have g: "gains d [f, hf] d2" using g by simp
      then have "gains d [] (close_fd hf (close_fd f d2))" using gains_close [of d "[]" f "[hf]" d2] gains_close_only by simp
      with g Some r1 y assms(2) Inr o h show ?thesis
        by (auto simp: retrieve_fd_def held_fds_def new_body_def body_Close_def retaining_Close_def Let_def split: option.splits)
    qed
  qed
qed

lemma retrieveRecorded_gains:
  assumes "files_ok d" "retrieveRecorded_fd v x e fe now key record_it c d = (r, c', d')"
  shows "case r of Inl _ \<Rightarrow> gains d [] d' | Inr (res, b) \<Rightarrow> gains d (held_fds b) d' \<and> new_body (diskRoot c) b"
proof -
  obtain r1 c1 d1 where 1: "retrieve_fd v x e fe now record_it key c d = (r1, c1, d1)" by (metis prod_cases3)
  note g = retrieve_gains [OF assms(1) 1]
  obtain f d2 where o: "open_fd d1 = (f, d2)" by (rule prod.exhaust)
  have "gains d [] (close_fd f d2)" if "gains d [] d1"
    using gains_trans [OF that gains_open [OF gains_files_ok [OF that] o]] gains_close_only by simp
  then have dis: "gains d [] (snd (discardCorrupt_fd v x fe now key fault c1 d1))" if "gains d [] d1" for fault
    using that o by (simp add: discardCorrupt_fd_def Let_def split: sum.split)
  show ?thesis
  proof (cases "\<exists>fault. r1 = Inl (CorruptEntry fault)")
    case True
    with 1 g assms(2) dis show ?thesis by (auto simp: retrieveRecorded_fd_def integrityResult_fd_def Let_def split_beta)
  next
    case False
    with 1 assms(2) have "r = r1" "d' = d1"
      by (auto simp: retrieveRecorded_fd_def integrityResult_fd_def split: sum.splits cache_error.splits)
    then show ?thesis using g by (auto split: sum.splits)
  qed
qed

subsection \<open>Readers\<close>

text \<open>
  The resources that retrievals have returned, each with a flag that says whether its user has called \<^verbatim>\<open>Close\<close>, and the table. Users may call
  \<^verbatim>\<open>Close\<close> more than once, and a resource may be freshened while it is used or after it was closed; the cache may have changed in any way between the steps.
\<close>

record readers =
  uses :: "(resource \<times> body \<times> bool) list"
  table :: files

inductive fd_step :: "'fs vfs \<Rightarrow> recenv \<Rightarrow> goenv \<Rightarrow> bool \<Rightarrow> readers \<Rightarrow> readers \<Rightarrow> bool" for v x e disk where
  fd_hit: "diskRoot c = disk \<Longrightarrow> retrieveRecorded_fd v x e fe now key record_it c (table s) = (Inr (res, b), c', d)
    \<Longrightarrow> fd_step v x e disk s (s\<lparr>uses := uses s @ [(res, b, False)], table := d\<rparr>)"
| fd_miss: "retrieveRecorded_fd v x e fe now key record_it c (table s) = (Inl err, c', d) \<Longrightarrow> fd_step v x e disk s (s\<lparr>table := d\<rparr>)"
| fd_header: "header_fd v x fe key c (table s) = (r, d) \<Longrightarrow> fd_step v x e disk s (s\<lparr>table := d\<rparr>)"
| fd_close: "uses s = us @ (res, b, closed) # us' \<Longrightarrow> body_Close fe b (table s) = (err, b', d)
    \<Longrightarrow> fd_step v x e disk s (s\<lparr>uses := us @ (res, b', True) # us', table := d\<rparr>)"
| fd_freshen: "uses s = us @ (res, b, closed) # us' \<Longrightarrow> advanceResourceProvenance_fd v x fe res b key raw at c (table s) = (err, res', b', d)
    \<Longrightarrow> fd_step v x e disk s (s\<lparr>uses := us @ (res', b', closed) # us', table := d\<rparr>)"

fun owned :: "resource \<times> body \<times> bool \<Rightarrow> nat list" where
  "owned (res, b, closed) = (if closed then [] else held_fds b)"

fun use_ok :: "bool \<Rightarrow> files \<Rightarrow> resource \<times> body \<times> bool \<Rightarrow> bool" where
  "use_ok disk d (res, OpenedBody f, closed) \<longleftrightarrow> \<not> disk \<and> f < issued d \<and> (closed \<longrightarrow> f \<in> set (closes d))"
| "use_ok disk d (res, RetainingBody rb, closed) \<longleftrightarrow> hclosed rb = closed"

definition readers_ok :: "bool \<Rightarrow> readers \<Rightarrow> bool" where
  "readers_ok disk s \<longleftrightarrow> files_ok (table s) \<and> distinct (concat (map owned (uses s))) \<and> set (concat (map owned (uses s))) = open_files (table s)
     \<and> list_all (use_ok disk (table s)) (uses s) \<and> (disk \<longrightarrow> distinct (closes (table s)))"

lemma use_ok_mono: "issued d \<le> issued d' \<Longrightarrow> set (closes d) \<subseteq> set (closes d') \<Longrightarrow> list_all (use_ok disk d) us \<Longrightarrow> list_all (use_ok disk d') us"
proof (rule list.pred_mono_strong)
  show "use_ok disk d' u" if "issued d \<le> issued d'" "set (closes d) \<subseteq> set (closes d')" "use_ok disk d u" for u
    using that by (cases "(disk, d, u)" rule: use_ok.cases) auto
qed

lemma readers_gain:
  assumes ok: "readers_ok disk s" and g: "gains (table s) (concat (map owned us)) d" and us: "list_all (use_ok disk d) us"
  shows "readers_ok disk (s\<lparr>uses := uses s @ us, table := d\<rparr>)"
proof -
  have old: "i < issued (table s)" if "i \<in> set (concat (map owned (uses s)))" for i
  proof -
    have "i \<in> open_files (table s)" using ok that by (simp add: readers_ok_def)
    then show ?thesis by (simp add: open_files_def)
  qed
  have new: "issued (table s) \<le> i" if "i \<in> set (concat (map owned us))" for i using g that unfolding gains_def by blast
  have "set (concat (map owned (uses s))) \<inter> set (concat (map owned us)) = {}" using old new by (force simp del: set_concat)
  moreover have "list_all (use_ok disk d) (uses s)" using ok g use_ok_mono by (auto simp: readers_ok_def gains_def)
  ultimately show ?thesis using ok g us unfolding readers_ok_def gains_def by (simp del: set_concat)
qed

lemma readers_swap:
  assumes ok: "readers_ok disk s" "uses s = us @ u # us'"
    and d: "files_ok d" "issued (table s) \<le> issued d" "set (closes (table s)) \<subseteq> set (closes d)" "disk \<longrightarrow> distinct (closes d)"
    and u': "use_ok disk d u'" "distinct (owned u')" "set (owned u') \<inter> (open_files (table s) - set (owned u)) = {}"
      "open_files d = (open_files (table s) - set (owned u)) \<union> set (owned u')"
  shows "readers_ok disk (s\<lparr>uses := us @ u' # us', table := d\<rparr>)"
proof -
  let ?A = "concat (map owned us)" and ?B = "concat (map owned us')"
  have o: "open_files (table s) = set ?A \<union> set (owned u) \<union> set ?B" and dis: "distinct (?A @ owned u @ ?B)"
    using ok unfolding readers_ok_def by (auto simp del: set_concat)
  then have "open_files (table s) - set (owned u) = set ?A \<union> set ?B" by (auto simp del: set_concat)
  with dis u'(2-4) have "distinct (?A @ owned u' @ ?B)" "open_files d = set (?A @ owned u' @ ?B)" by (auto simp del: set_concat)
  moreover have "list_all (use_ok disk d) us" "list_all (use_ok disk d) us'" using ok d(2,3) use_ok_mono by (auto simp: readers_ok_def)
  ultimately show ?thesis using d u'(1) unfolding readers_ok_def by (simp del: set_concat)
qed

lemma use_facts:
  assumes "readers_ok disk s" "uses s = us @ (res, b, closed) # us'"
  shows "use_ok disk (table s) (res, b, closed)" "\<not> closed \<Longrightarrow> set (held_fds b) \<subseteq> open_files (table s)" "\<not> closed \<Longrightarrow> distinct (held_fds b)"
    "files_ok (table s)" "disk \<Longrightarrow> distinct (closes (table s))"
proof -
  have "set (owned (res, b, closed)) \<subseteq> open_files (table s)" "distinct (owned (res, b, closed))"
    using assms unfolding readers_ok_def by (auto simp del: owned.simps)
  then show "\<not> closed \<Longrightarrow> set (held_fds b) \<subseteq> open_files (table s)" "\<not> closed \<Longrightarrow> distinct (held_fds b)" by simp_all
qed (use assms in \<open>auto simp: readers_ok_def\<close>)

lemma close_again: "files_ok d \<Longrightarrow> f < issued d \<Longrightarrow> f \<in> set (closes d) \<Longrightarrow> files_ok (close_fd f d) \<and> open_files (close_fd f d) = open_files d"
  by (auto simp: files_ok_def open_files_def close_fd_def)

lemma readers_close:
  assumes ok: "readers_ok disk s" "uses s = us @ (res, b, closed) # us'" and c: "body_Close fe b (table s) = (err, b', d)"
  shows "readers_ok disk (s\<lparr>uses := us @ (res, b', True) # us', table := d\<rparr>)"
proof (rule readers_swap [OF ok])
  note f = use_facts [OF ok]
  have "files_ok d \<and> issued d = issued (table s) \<and> set (closes (table s)) \<subseteq> set (closes d) \<and> (disk \<longrightarrow> distinct (closes d)) \<and> use_ok disk d (res, b', True)
    \<and> open_files d = open_files (table s) - set (owned (res, b, closed))"
  proof (cases b)
    case (OpenedBody f)
    then have d: "b' = OpenedBody f" "d = close_fd f (table s)" "\<not> disk" "f < issued (table s)" using c f(1) by (auto simp: body_Close_def)
    show ?thesis
    proof (cases closed)
      case True
      with OpenedBody f(1) close_again [OF f(4) d(4)] d show ?thesis by (auto simp: close_fd_def)
    next
      case False
      with OpenedBody f(2) have "f \<in> open_files (table s)" by (simp add: held_fds_def)
      note c1 = close_open [OF f(4) this]
      show ?thesis using c1 d False OpenedBody by (simp add: held_fds_def) blast
    qed
  next
    case (RetainingBody rb)
    show ?thesis
    proof (cases closed)
      case True
      with f c RetainingBody show ?thesis by (auto simp: body_Close_def retaining_Close_def)
    next
      case False
      let ?d = "close_fd (hbody rb) (table s)"
      have m: "hbody rb \<in> open_files (table s)" "hheader rb \<in> open_files (table s)" "hbody rb \<noteq> hheader rb" "\<not> hclosed rb"
        using f False RetainingBody by (auto simp: held_fds_def)
      note c1 = close_open [OF f(4) m(1)]
      have "hheader rb \<in> open_files ?d" using m c1 by auto
      note c2 = close_open [OF c1(1) this]
      have d: "b' = RetainingBody (rb\<lparr>hclosed := True, herr := err\<rparr>)" "d = close_fd (hheader rb) ?d"
        using c m(4) RetainingBody by (auto simp: body_Close_def retaining_Close_def Let_def)
      show ?thesis unfolding d using c1 c2 f(5) False RetainingBody by (simp add: held_fds_def) blast
    qed
  qed
  then show "files_ok d" "issued (table s) \<le> issued d" "set (closes (table s)) \<subseteq> set (closes d)" "disk \<longrightarrow> distinct (closes d)" "use_ok disk d (res, b', True)"
    "open_files d = open_files (table s) - set (owned (res, b, closed)) \<union> set (owned (res, b', True))" by simp_all
qed simp_all

lemma readers_unchanged:
  assumes ok: "readers_ok disk s" "uses s = us @ (res, b, closed) # us'" and g: "gains (table s) [] d"
  shows "readers_ok disk (s\<lparr>uses := us @ (res', b, closed) # us', table := d\<rparr>)"
proof (rule readers_swap [OF ok])
  note f = use_facts [OF ok]
  show "use_ok disk d (res', b, closed)" using f(1) g by (cases b) (auto simp: gains_def)
  show "open_files d = open_files (table s) - set (owned (res, b, closed)) \<union> set (owned (res', b, closed))" using f(2) g by (auto simp: gains_def)
qed (use g use_facts [OF ok] in \<open>auto simp: gains_def\<close>)

lemma readers_replace:
  assumes ok: "readers_ok disk s" "uses s = us @ (res, RetainingBody rb, closed) # us'" and g: "gains (table s) [f] d1" and op: "\<not> closed"
  shows "readers_ok disk (s\<lparr>uses := us @ (res', RetainingBody (rb\<lparr>hheader := f\<rparr>), closed) # us', table := close_fd (hheader rb) d1\<rparr>)"
proof (rule readers_swap [OF ok])
  note u = use_facts [OF ok]
  have m: "hbody rb \<in> open_files (table s)" "hheader rb \<in> open_files (table s)" "hbody rb \<noteq> hheader rb"
    using u(2,3) op by (auto simp: held_fds_def)
  have n: "open_files d1 = insert f (open_files (table s))" "f \<notin> open_files (table s)" using g by (auto simp: gains_def open_files_def)
  have "hheader rb \<in> open_files d1" using m n by simp
  note c = close_open [OF gains_files_ok [OF g] this]
  show "files_ok (close_fd (hheader rb) d1)" by (rule c(1))
  show "issued (table s) \<le> issued (close_fd (hheader rb) d1)" "set (closes (table s)) \<subseteq> set (closes (close_fd (hheader rb) d1))"
    "disk \<longrightarrow> distinct (closes (close_fd (hheader rb) d1))"
    using c(3-5) g u(5) by (auto simp: gains_def)
  show "use_ok disk (close_fd (hheader rb) d1) (res', RetainingBody (rb\<lparr>hheader := f\<rparr>), closed)" using u(1) by simp
  show "distinct (owned (res', RetainingBody (rb\<lparr>hheader := f\<rparr>), closed))"
    "set (owned (res', RetainingBody (rb\<lparr>hheader := f\<rparr>), closed)) \<inter> (open_files (table s) - set (owned (res, RetainingBody rb, closed))) = {}"
    "open_files (close_fd (hheader rb) d1) = open_files (table s) - set (owned (res, RetainingBody rb, closed))
      \<union> set (owned (res', RetainingBody (rb\<lparr>hheader := f\<rparr>), closed))"
    using m n c(2) op by (auto simp: held_fds_def)
qed

lemma readers_freshen:
  assumes ok: "readers_ok disk s" "uses s = us @ (res, b, closed) # us'"
    and a: "advanceResourceProvenance_fd v x fe res b key raw at c (table s) = (err, res', b', d)"
  shows "readers_ok disk (s\<lparr>uses := us @ (res', b', closed) # us', table := d\<rparr>)"
proof -
  note u = use_facts [OF ok]
  obtain r1 kept d1 where h: "readHeaderProvenance_fd v x fe (headerPath (hashKey key)) key True True c (table s) = (r1, kept, d1)" by (metis prod_cases3)
  note g = read_gains [OF u(4) h] and k = retained_iff [OF h]
  from a h k consider "b' = b" "d = table s" | "kept = None" "b' = b" "d = d1"
    | f where "kept = Some f" "b' = b" "d = close_fd f d1"
    | f rb where "kept = Some f" "b = RetainingBody rb" "\<not> hclosed rb" "b' = RetainingBody (rb\<lparr>hheader := f\<rparr>)" "d = close_fd (hheader rb) d1"
    by (cases r1; cases kept) (auto simp: advanceResourceProvenance_fd_def replaceHeader_def split: if_splits body.splits)
  then show ?thesis
  proof cases
    case 1
    with readers_unchanged [OF ok gains_none [OF u(4)]] show ?thesis by simp
  next
    case 2
    with readers_unchanged [OF ok] g show ?thesis by simp
  next
    case (3 f)
    with readers_unchanged [OF ok gains_close_only, of f d1] g show ?thesis by simp
  next
    case (4 f rb)
    with readers_replace [OF ok(1), of us res rb closed us' f d1 res'] ok(2) g u(1) show ?thesis by simp
  qed
qed

lemma fd_step_ok:
  assumes "fd_step v x e disk s s'" "readers_ok disk s"
  shows "readers_ok disk s'"
  using assms
proof (induction rule: fd_step.induct)
  case (fd_hit c fe now key record_it s res b c' d)
  then have g: "gains (table s) (held_fds b) d" "new_body disk b" using retrieveRecorded_gains [of "table s"] by (fastforce simp: readers_ok_def)+
  then have "set (held_fds b) \<subseteq> open_files d" by (simp add: gains_def)
  then have "use_ok disk d (res, b, False)" using g(2) by (cases b) (auto simp: new_body_def held_fds_def open_files_def)
  then show ?case using readers_gain [OF fd_hit.prems, of "[(res, b, False)]" d] g(1) by simp
next
  case (fd_miss fe now key record_it c s err c' d)
  then have "gains (table s) [] d" using retrieveRecorded_gains [of "table s"] by (fastforce simp: readers_ok_def)
  then show ?case using readers_gain [OF fd_miss.prems, of "[]" d] by simp
next
  case (fd_header fe key c s r d)
  then have "gains (table s) [] d" using header_gains [of "table s"] by (simp add: readers_ok_def)
  then show ?case using readers_gain [OF fd_header.prems, of "[]" d] by simp
qed (auto intro: readers_close readers_freshen)

definition no_readers :: readers where
  "no_readers = \<lparr>uses = [], table = \<lparr>issued = 0, closes = []\<rparr>\<rparr>"

lemma reached_readers_ok: "(fd_step v x e disk)\<^sup>*\<^sup>* no_readers s \<Longrightarrow> readers_ok disk s"
proof (induction rule: rtranclp_induct)
  case base
  show ?case by (simp add: no_readers_def readers_ok_def files_ok_def open_files_def)
qed (rule fd_step_ok)

lemma owned_set: "set (concat (map owned us)) = {f. \<exists>res b. (res, b, False) \<in> set us \<and> f \<in> set (held_fds b)}"
proof (induction us)
  case (Cons u us)
  obtain res b closed where u: "u = (res, b, closed)" by (rule prod_cases3)
  show ?case unfolding u using Cons by (cases closed) auto
qed simp

lemma owned_bound: "length (concat (map owned us)) \<le> 2 * length (filter (\<lambda>u. \<not> snd (snd u)) us)"
proof (induction us)
  case (Cons u us)
  then show ?case by (cases u; cases "fst (snd u)") (auto simp: held_fds_def)
qed simp

text \<open>
  C26: No descriptor is leaked. In whatever order entries are retrieved, their headers read, resources freshened and closed, once, repeatedly or
  after they were freshened, and whichever reads, checks and closes fail: the descriptors open are exactly those of the resources that were returned
  and not yet closed, at most two for each; and a cache on disk never closes a descriptor twice.
\<close>

theorem no_descriptor_leaks:
  assumes "(fd_step v x e disk)\<^sup>*\<^sup>* no_readers s"
  shows "open_files (table s) = {f. \<exists>res b. (res, b, False) \<in> set (uses s) \<and> f \<in> set (held_fds b)}
    \<and> card (open_files (table s)) \<le> 2 * length (filter (\<lambda>u. \<not> snd (snd u)) (uses s))
    \<and> (disk \<longrightarrow> distinct (closes (table s)))"
proof -
  note ok = reached_readers_ok [OF assms]
  then have o: "open_files (table s) = set (concat (map owned (uses s)))" by (simp add: readers_ok_def)
  have "card (open_files (table s)) \<le> 2 * length (filter (\<lambda>u. \<not> snd (snd u)) (uses s))"
    unfolding o by (rule order_trans [OF card_length owned_bound])
  then show ?thesis using o owned_set [of "uses s"] ok unfolding readers_ok_def by blast
qed

text \<open>An entry of a cache on disk is retrieved, and its user calls \<^verbatim>\<open>Close\<close> twice.\<close>

definition working :: fd_env where
  "working = \<lparr>readFails = \<lambda>_. False, closeFails = \<lambda>_. False\<rparr>"

definition example_reading :: "(cache_error + resource \<times> body) \<times> (string, string) gomap cache \<times> files" where
  "example_reading = retrieveRecorded_fd mem_vfs plain_recenv seconds_env working 20 ''k'' True
     ((example_opened IntegrityDisabled ''k'' ''hi'')\<lparr>diskRoot := True\<rparr>) (table no_readers)"

lemma example_reading_hits: "\<not> isl (fst example_reading)" "closes (snd (snd example_reading)) = []"
  by code_simp+

theorem no_descriptor_leaks_witness:
  "\<exists>res b s. (fd_step mem_vfs plain_recenv seconds_env True)\<^sup>*\<^sup>* no_readers s \<and> uses s = [(res, b, True)]
     \<and> open_files (table s) = {} \<and> distinct (closes (table s)) \<and> length (closes (table s)) = 2"
proof -
  let ?c = "(example_opened IntegrityDisabled ''k'' ''hi'')\<lparr>diskRoot := True\<rparr>" and ?step = "fd_step mem_vfs plain_recenv seconds_env True"
  obtain res b c' d where r: "retrieveRecorded_fd mem_vfs plain_recenv seconds_env working 20 ''k'' True ?c (table no_readers) = (Inr (res, b), c', d)"
    using example_reading_hits(1) unfolding example_reading_def by (metis prod_cases3 old.sum.exhaust sum.disc(1) fst_conv surj_pair)
  obtain rb where b: "b = RetainingBody rb" "\<not> hclosed rb"
    using retrieveRecorded_gains [OF _ r] by (cases b) (auto simp: new_body_def files_ok_def no_readers_def)
  let ?s = "no_readers\<lparr>uses := [(res, b, False)], table := d\<rparr>" and ?b = "RetainingBody (rb\<lparr>hclosed := True, herr := False\<rparr>)"
  let ?t = "?s\<lparr>uses := [(res, ?b, True)], table := close_fd (hheader rb) (close_fd (hbody rb) d)\<rparr>"
  have 1: "?step no_readers ?s" using fd_hit [OF _ r, of True] by (simp add: no_readers_def)
  have 2: "?step ?s ?t"
    using fd_close [of ?s "[]" res b False "[]" working False ?b "close_fd (hheader rb) (close_fd (hbody rb) d)"] b
    by (simp add: body_Close_def retaining_Close_def working_def)
  have 3: "?step ?t ?t"
    using fd_close [of ?t "[]" res ?b True "[]" working False ?b "close_fd (hheader rb) (close_fd (hbody rb) d)"]
    by (simp add: body_Close_def retaining_Close_def)
  have run: "?step\<^sup>*\<^sup>* no_readers ?t" using 1 2 3 by (meson converse_rtranclp_into_rtranclp r_into_rtranclp)
  have "closes d = []" using example_reading_hits(2) r by (simp add: example_reading_def)
  then show ?thesis
    using no_descriptor_leaks [OF run] run by (intro exI [of _ res] exI [of _ ?b] exI [of _ ?t]) (simp add: close_fd_def)
qed

end
