(* ===== verification/Spec2Isabelle.thy ===== *)
theory Spec2Isabelle
  imports Barrier Round_Trip Key_Locks Recorder Cleanup_Loop World Descriptors
begin

text \<open>
  \<^bold>\<open>httpcache-kit: a verification development.\<close>
  The program is a caching layer for Go HTTP handlers. A \<^verbatim>\<open>Handler\<close> (\<^verbatim>\<open>src/handler.go\<close>) stands before an origin, another
  handler; it answers requests from a \<^verbatim>\<open>cache\<close> (\<^verbatim>\<open>src/cache.go\<close>) whose entries are pairs of files, validates stored
  responses, passes the rest to the origin while copying the answer, and makes entries stale when a request has changed a resource.

  \<^bold>\<open>How a request runs.\<close>
  \<^verbatim>\<open>ServeHTTP\<close> derives a key, looks the entry up and compares it with the times at which its keys were invalidated. A response that
  may be reused is served; one that may not is validated by a conditional request; a miss is led by one request per key, which
  streams the origin's answer to the client, copies it to a temporary file charged to a budget, and stores the copy in the background.
  A store reserves the size of its entry, stages both files, and publishes them under all target keys unless an invalidation came between.

  \<^bold>\<open>The theories\<close>, in the order of their imports, and what they model:
  \<^item> \<open>Prelude\<close>: byte strings, the functions of \<^verbatim>\<open>strings\<close> and \<^verbatim>\<open>strconv\<close>, 64-bit integers, instants and durations, Go maps, and
    the locale \<open>ending_system\<close> of step systems whose rank decreases. \<open>Http_Header\<close>: \<^verbatim>\<open>http.Header\<close>, \<^verbatim>\<open>src/header.go\<close>.
    \<open>Quote\<close>, \<open>Url\<close>, \<open>Url_Parse\<close>: \<^verbatim>\<open>strconv.Quote\<close> and what is used of \<^verbatim>\<open>net/url\<close>.
  \<^item> \<open>Cache_Control\<close> (\<^verbatim>\<open>src/cachecontrol.go\<close>): directives, parser, printer, durations. Printing and parsing are inverse, and
    durations are exact as long as they fit into 64 bits.
  \<^item> \<open>Resource\<close> (\<^verbatim>\<open>src/resource.go\<close>), \<open>Key\<close> (\<^verbatim>\<open>src/key.go\<close>): response metadata, keys. The text of a key determines the request it
    stands for and, for a varied key, the selecting fields.
  \<^item> \<open>Validator\<close> (\<^verbatim>\<open>src/validator.go\<close>), \<open>Conditions\<close>, \<open>Policy\<close> (the decisions of \<^verbatim>\<open>src/handler.go\<close>): conditional requests,
    updates by a 304, warnings, preconditions; what may be stored and what may be reused.
  \<^item> \<open>Cache_State\<close> (the record \<open>cache\<close>, \<^verbatim>\<open>src/cache_config.go\<close>), \<open>Files\<close> (writing through a file system), \<open>Ledger\<close> (sizes, LRU
    list, reservations): the total with all reservations never exceeds the limit, and eviction takes the least recent entries only.
  \<^item> \<open>Markers\<close>: invalidation times, their journal and its recovery. \<open>Entry_Record\<close> (also \<^verbatim>\<open>src/integrity.go\<close>,
    \<^verbatim>\<open>src/cache_provenance.go\<close>): the serialized header and its checksums. \<open>Staged\<close>, \<open>Store\<close>: a store as a transaction.
    \<open>Retrieve\<close>: reading, corrupt entries, purging, opening an existing directory. \<open>Freshen\<close>: rewriting a header after validation.
  \<^item> \<open>Descriptors\<close> (\<^verbatim>\<open>src/cache_provenance.go\<close>): the same operations with the files they open and close; none is leaked.
  \<^item> \<open>Key_Locks\<close> (\<^verbatim>\<open>lockKey\<close>, \<^verbatim>\<open>lockStoreKeys\<close>): the locks of keys as a step relation; they exclude writers and never deadlock.
  \<^item> \<open>Publication\<close> (\<^verbatim>\<open>src/handler_publication.go\<close>), \<open>Origin\<close> (invalidation targets), \<open>Lookup\<close>: what the handler knows about the
    freshness of entries of caches that keep no markers, which keys a mutation makes stale, and how an entry is found and judged.
  \<^item> \<open>Barrier\<close>: stores, freshenings and invalidations under \<^verbatim>\<open>generationMu\<close> and the barrier, as a step relation that the store of
    \<open>Store\<close> refines; a response requested before an invalidation is never fresh after it.
  \<^item> \<open>Miss\<close> (\<^verbatim>\<open>src/miss_coordinator.go\<close> and the flights of \<^verbatim>\<open>src/handler.go\<close>): one leader per key, every request is resolved,
    no background write after shutdown. \<open>Staging\<close> (\<^verbatim>\<open>src/staging_budget.go\<close>): leases, temporary files and their charges.
  \<^item> \<open>Writers\<close> (\<^verbatim>\<open>responseStreamer\<close>, \<^verbatim>\<open>src/conditional_response.go\<close>, \<^verbatim>\<open>src/client_preconditions.go\<close>): the response writers between
    origin and client; copying is transparent, and a client's conditions decide what it gets but not what is stored.
  \<^item> \<open>Serve\<close>: \<^verbatim>\<open>ServeHTTP\<close> and everything below it, composed from the components. \<open>Delivery\<close>: what clients receive and when the
    origin is asked, across the components. \<open>World\<close>: every request ends and leaves the cache well-formed, and a read after a
    mutation asks the origin. \<open>Round_Trip\<close>: what one request fetched is served to the next.
  \<^item> \<open>Recorder\<close> (\<^verbatim>\<open>src/metrics.go\<close>, \<^verbatim>\<open>src/prometheusmetrics\<close>, the constructors of \<^verbatim>\<open>src/handler.go\<close>): recorders of metrics, whose
    series count what the handler logs, and the state of a new handler. \<open>Cleanup_Loop\<close> (\<^verbatim>\<open>cleanupLoop\<close>, \<^verbatim>\<open>Close\<close>): the background
    cleanup, which ends for good when \<^verbatim>\<open>Close\<close> returns.

  \<^bold>\<open>State and operations.\<close>
  A Go struct is a record with the fields of the source, a method a function from the state before to the result and the state after,
  an error the left side of a sum or an option, a panic that ends the process the value \<open>None\<close>. Maps are association lists with distinct
  keys. What runs under one lock is one transition; what several goroutines do together is a step relation
  (\<open>miss_step\<close>, \<open>lock_step\<close>, \<open>fd_step\<close>, \<open>close_step\<close>, \<open>pipe_step\<close> and those of \<open>Barrier\<close> and \<open>Lookup\<close>) on top of the same functions.
  Every reading of the clock is an argument of its own, so that time may pass, or run backwards, between any two of them.

  \<^bold>\<open>Code outside the repository\<close> is a parameter: the file system (\<open>vfs\<close>, assumed to satisfy \<open>vfs_laws\<close> and \<open>stat_law\<close>),
  SHA-256, base64, JSON and RFC 3339 (\<open>recenv\<close>, \<open>codec\<close>, with \<open>text_laws\<close> and \<open>codec_laws\<close>), date formats and Unicode tables
  (\<open>goenv\<close>), bracketed IP literals (\<open>ip_literal\<close>), number formats, content sniffing and \<^verbatim>\<open>Range\<close> answers (\<open>serve_env\<close>), the staging
  budget of an application (\<open>budget_laws\<close>), the Prometheus library (\<open>prometheus_laws\<close>), other caches (\<open>cache_ops\<close>), the origin. Each law is documented behaviour, and each theorem that
  assumes one is applied to a concrete instance. Which calls of the file system, the temporary file, the context or
  the budget fail is open, so that the theorems hold on every error path.

  \<^bold>\<open>Interfaces.\<close>
  The locale \<open>admission\<close> is what writers rely on of the ledger; \<open>marker_record\<close> what invalidation relies on of a record of
  markers, met by the cache and by the handler's own; \<open>marker_keeper\<close> what lookup, and \<open>cache_keeper\<close> what the whole handler relies on of a cache; \<open>status_writer\<close> what a chain of
  response writers relies on of its members, met by the connection, the validation exchange and the streamer over any writer;
  \<open>ending_system\<close> is met by misses, by key locks and by the end of the cleanup. Each is interpreted on the definitions of the model.

  \<^bold>\<open>Bounds.\<close>
  All functions terminate; where the source loops until a condition changes (waiting for a flight), the model is either a step relation,
  whose runs are shown to be finite, or takes one event per round. 64-bit integers wrap where the source can overflow; the ledger counts in
  unbounded integers, and its totals stay within the configured limit.

  \<^bold>\<open>Not modelled.\<close>
  \<^item> \<^verbatim>\<open>src/logger.go\<close>: output on which nothing depends. \<^verbatim>\<open>src/doc.go\<close>: comments.
  \<^item> The metrics that the cache itself records (evictions, cleanup durations), and the constructors that only choose a file system.
  \<^item> A connection to a client that fails while it is written to, and an origin that keeps a header map and changes it after
    the call it passed it to has returned.
\<close>

end
